(* ===== verification/Prelude.thy ===== *)
theory Prelude
  imports Main "HOL-Library.Word"
begin

unbundle bit_operations_syntax

text \<open>
  The vocabulary every component shares: the machine integer types of the C code, the
  outcomes of a call that can stop the process, the error monad over them, the shapes of
  the \<^verbatim>\<open>for\<close> loops of the sources, and the little-endian view of a byte array as an array
  of 32-bit words (the \<^verbatim>\<open>uint32_t *\<close> casts of the C code).
\<close>

section \<open>Types\<close>

type_synonym u8 = "8 word"
type_synonym u32 = "32 word"
type_synonym u64 = "64 word"

text \<open>
  Why a run of the C code does not return. The first group are the
  \<^verbatim>\<open>exit(EXIT_FAILURE)\<close> calls, one constructor for each message the sources print; the
  second group are the operations C gives no meaning to.
\<close>

datatype err =
    InvalidByteCount nat
  | InvalidVersion u32
  | InvalidWordSize u32
  | InvalidInputMax u32
  | InvalidOutputMax u32
  | InvalidRegisterCount u32
  | InvalidLLSMax u32
  | TrailingBytecode
  | InvalidInputCount u32 u32
  | InvalidOutputCount u32 u32
  | InvalidOpcode nat
  | InvalidFlag nat
  | LLSTooLong
  | LLSDecryptFailed
  | WordDecryptFailed u32 u32 u32
  | WordEncryptFailed
  | HeaderDecryptFailed
  | SharedKeyEncryptFailed
  | SharedKeyDecryptFailed
  | CinEncryptFailed
  | CinDecryptFailed
  | BadBatchIndex
  | BadInitialHash
  | NotAnInteger
  | UnsupportedWordSize
  | UsageError
  | CannotOpenFile
  | OutOfBounds
  | Uninitialised
  | BadShift
  | DivisionByZero
  | BadConversion

text \<open>The errors of the second group: behaviour the C standard leaves undefined.\<close>

definition undefined_behaviour :: "err \<Rightarrow> bool" where
  "undefined_behaviour e \<longleftrightarrow>
     e \<in> {OutOfBounds, Uninitialised, BadShift, DivisionByZero, BadConversion}"

type_synonym 'a res = "err + 'a"

section \<open>The error monad\<close>

fun bindr :: "'a res \<Rightarrow> ('a \<Rightarrow> 'b res) \<Rightarrow> 'b res" where
  "bindr (Inl e) f = Inl e"
| "bindr (Inr x) f = f x"

definition check :: "bool \<Rightarrow> err \<Rightarrow> unit res" where
  "check b e = (if b then Inr () else Inl e)"

text \<open>A loop whose body can stop the process: the state is threaded through the list.\<close>

fun foldM :: "('a \<Rightarrow> 's \<Rightarrow> 's res) \<Rightarrow> 'a list \<Rightarrow> 's \<Rightarrow> 's res" where
  "foldM f [] s = Inr s"
| "foldM f (x # xs) s = bindr (f x s) (foldM f xs)"

fun mapM :: "('a \<Rightarrow> 'b res) \<Rightarrow> 'a list \<Rightarrow> 'b list res" where
  "mapM f [] = Inr []"
| "mapM f (x # xs) = bindr (f x) (\<lambda>y. bindr (mapM f xs) (\<lambda>ys. Inr (y # ys)))"

text \<open>An array read and an array write of C: outside the array both are undefined.\<close>

definition read_at :: "'a list \<Rightarrow> nat \<Rightarrow> 'a res" where
  "read_at xs i = (if i < length xs then Inr (xs ! i) else Inl OutOfBounds)"

definition write_at :: "'a list \<Rightarrow> nat \<Rightarrow> 'a \<Rightarrow> 'a list res" where
  "write_at xs i v = (if i < length xs then Inr (xs[i := v]) else Inl OutOfBounds)"

text \<open>\<^verbatim>\<open>memcpy\<close> of \<open>n\<close> bytes out of an array.\<close>

definition read_bytes :: "'a list \<Rightarrow> nat \<Rightarrow> 'a list res" where
  "read_bytes xs n = (if n \<le> length xs then Inr (take n xs) else Inl OutOfBounds)"

section \<open>Counted loops\<close>

text \<open>
  The values of the counter in \<^verbatim>\<open>for (j = a; j < b; j += k)\<close>, and in
  \<^verbatim>\<open>for (j = a; j > 0; j -= k)\<close>. A loop is a fold over them.
\<close>

function for_up :: "nat \<Rightarrow> nat \<Rightarrow> nat \<Rightarrow> nat list" where
  "for_up a b k = (if a < b \<and> 0 < k then a # for_up (a + k) b k else [])"
  by pat_completeness auto
termination
  by (relation "measure (\<lambda>(a, b, k). b - a)") auto

declare for_up.simps [simp del]

function for_down :: "nat \<Rightarrow> nat \<Rightarrow> nat list" where
  "for_down a k = (if 0 < a \<and> 0 < k then a # for_down (a - k) k else [])"
  by pat_completeness auto
termination
  by (relation "measure (\<lambda>(a, k). a)") auto

declare for_down.simps [simp del]

text \<open>And in \<^verbatim>\<open>for (j = a; j >= 0; j -= k)\<close> with a signed counter.\<close>

function for_down0 :: "nat \<Rightarrow> nat \<Rightarrow> nat list" where
  "for_down0 a k = a # (if k \<le> a \<and> 0 < k then for_down0 (a - k) k else [])"
  by pat_completeness auto
termination
  by (relation "measure (\<lambda>(a, k). a)") auto

declare for_down0.simps [simp del]

section \<open>Byte arrays as word arrays\<close>

text \<open>
  The C code moves data between byte arrays and arrays of \<^verbatim>\<open>uint32_t\<close> by casting the
  pointer or by \<^verbatim>\<open>memcpy\<close>: on the little-endian machines the runtime is built for, word
  \<open>i\<close> is bytes \<open>4i\<close> to \<open>4i+3\<close>, least significant first.
\<close>

definition le_word :: "u8 \<Rightarrow> u8 \<Rightarrow> u8 \<Rightarrow> u8 \<Rightarrow> u32" where
  "le_word a b c d =
     ucast a OR push_bit 8 (ucast b) OR push_bit 16 (ucast c) OR push_bit 24 (ucast d)"

definition le_bytes :: "u32 \<Rightarrow> u8 list" where
  "le_bytes w =
     [ucast w, ucast (drop_bit 8 w), ucast (drop_bit 16 w), ucast (drop_bit 24 w)]"

fun words_of_bytes :: "u8 list \<Rightarrow> u32 list" where
  "words_of_bytes (a # b # c # d # bs) = le_word a b c d # words_of_bytes bs"
| "words_of_bytes bs = []"

definition bytes_of_words :: "u32 list \<Rightarrow> u8 list" where
  "bytes_of_words ws = concat (map le_bytes ws)"

text \<open>Pointwise exclusive or of two arrays.\<close>

definition xor_list :: "'a::semiring_bit_operations list \<Rightarrow> 'a list \<Rightarrow> 'a list" where
  "xor_list = map2 (XOR)"

section \<open>Shared lemmas\<close>

named_theorems loop_simps \<open>unfolding of counted loops at numeral bounds\<close>
named_theorems byte_simps \<open>little-endian conversions\<close>
named_theorems res_simps \<open>inversion of the error monad\<close>

subsection \<open>The error monad\<close>

lemma bindr_eq_Inr [res_simps]:
  "bindr m f = Inr y \<longleftrightarrow> (\<exists>x. m = Inr x \<and> f x = Inr y)"
  by (cases m) auto

lemma bindr_eq_Inl [res_simps]:
  "bindr m f = Inl e \<longleftrightarrow> m = Inl e \<or> (\<exists>x. m = Inr x \<and> f x = Inl e)"
  by (cases m) auto

lemma bindr_assoc: "bindr (bindr m f) g = bindr m (\<lambda>x. bindr (f x) g)"
  by (cases m) auto

lemma bindr_cong [fundef_cong]:
  "m = m' \<Longrightarrow> (\<And>x. m' = Inr x \<Longrightarrow> f x = f' x) \<Longrightarrow> bindr m f = bindr m' f'"
  by (cases m') auto

lemma bindr_Inr_right [simp]: "bindr m Inr = m"
  by (cases m) auto

lemma check_simps [simp]: "check True e = Inr ()" "check False e = Inl e"
  by (simp_all add: check_def)

lemma check_eq_Inr [res_simps]: "check b e = Inr u \<longleftrightarrow> b"
  by (simp add: check_def)

lemma foldM_Nil_fun [simp]: "foldM f [] = Inr"
  by (rule ext) simp

lemma foldM_append: "foldM f (xs @ ys) s = bindr (foldM f xs s) (foldM f ys)"
proof (induction xs arbitrary: s)
  case (Cons x xs)
  then have "foldM f (xs @ ys) = (\<lambda>t. bindr (foldM f xs t) (foldM f ys))" by (rule ext)
  then show ?case by (simp add: bindr_assoc)
qed simp

lemma mapM_Inr_length: "mapM f xs = Inr ys \<Longrightarrow> length ys = length xs"
  by (induction xs arbitrary: ys) (auto simp: res_simps)

lemma mapM_eq_map: "(\<And>x. x \<in> set xs \<Longrightarrow> f x = Inr (g x)) \<Longrightarrow> mapM f xs = Inr (map g xs)"
  by (induction xs) auto

lemma foldM_Inr_fold:
  "(\<And>x s. x \<in> set xs \<Longrightarrow> f x s = Inr (g x s)) \<Longrightarrow> foldM f xs s = Inr (fold g xs s)"
  by (induction xs arbitrary: s) auto

text \<open>A property of the threaded state that every step keeps holds at the end.\<close>

lemma foldM_invariant:
  assumes "foldM f xs s = Inr t" and "P s"
    and "\<And>x s t. x \<in> set xs \<Longrightarrow> P s \<Longrightarrow> f x s = Inr t \<Longrightarrow> P t"
  shows "P t"
  using assms by (induction xs arbitrary: s) (auto simp: res_simps)

lemma read_at_simps [simp]:
  "i < length xs \<Longrightarrow> read_at xs i = Inr (xs ! i)"
  "\<not> i < length xs \<Longrightarrow> read_at xs i = Inl OutOfBounds"
  by (simp_all add: read_at_def)

lemma write_at_simps [simp]:
  "i < length xs \<Longrightarrow> write_at xs i v = Inr (xs[i := v])"
  "\<not> i < length xs \<Longrightarrow> write_at xs i v = Inl OutOfBounds"
  by (simp_all add: write_at_def)

lemma read_at_eq_Inr [res_simps]: "read_at xs i = Inr v \<longleftrightarrow> i < length xs \<and> xs ! i = v"
  by (auto simp: read_at_def)

lemma write_at_eq_Inr [res_simps]:
  "write_at xs i v = Inr ys \<longleftrightarrow> i < length xs \<and> ys = xs[i := v]"
  by (auto simp: write_at_def)

lemma read_bytes_simps [simp]:
  "n \<le> length xs \<Longrightarrow> read_bytes xs n = Inr (take n xs)"
  "\<not> n \<le> length xs \<Longrightarrow> read_bytes xs n = Inl OutOfBounds"
  by (simp_all add: read_bytes_def)

subsection \<open>Counted loops\<close>

lemma for_up_numeral [loop_simps]:
  "for_up a b (numeral k) = (if a < b then a # for_up (a + numeral k) b (numeral k) else [])"
  by (subst for_up.simps) simp

lemma for_down_numeral [loop_simps]:
  "for_down a (numeral k) = (if 0 < a then a # for_down (a - numeral k) (numeral k) else [])"
  by (subst for_down.simps) simp

lemma for_down0_numeral [loop_simps]:
  "for_down0 a (numeral k) =
     a # (if numeral k \<le> a then for_down0 (a - numeral k) (numeral k) else [])"
  by (subst for_down0.simps) simp

lemma set_for_up: "j \<in> set (for_up a b k) \<Longrightarrow> a \<le> j \<and> j < b"
proof (induction a b k rule: for_up.induct)
  case (1 a b k)
  then show ?case by (subst (asm) for_up.simps [of a b]) (auto split: if_splits)
qed

lemma distinct_for_up: "distinct (for_up a b k)"
proof (induction a b k rule: for_up.induct)
  case (1 a b k)
  then show ?case by (subst for_up.simps) (auto dest: set_for_up)
qed

lemma even_for_up: "even a \<Longrightarrow> j \<in> set (for_up a b 2) \<Longrightarrow> even j"
proof (induction a b "2 :: nat" rule: for_up.induct)
  case (1 a b)
  then show ?case by (subst (asm) for_up.simps [of a b]) (auto split: if_splits)
qed

text \<open>A fold of steps that each keep a property keeps it.\<close>

lemma fold_invariant_set:
  "P s \<Longrightarrow> (\<And>x s. x \<in> set xs \<Longrightarrow> P s \<Longrightarrow> P (f x s)) \<Longrightarrow> P (fold f xs s)"
  by (induction xs arbitrary: s) auto

text \<open>Undoing a loop: running the inverse body over the reversed counter values.\<close>

lemma fold_inverse:
  assumes "P s" and "\<And>x s. x \<in> set xs \<Longrightarrow> P s \<Longrightarrow> P (f x s)"
    and "\<And>x s. x \<in> set xs \<Longrightarrow> P s \<Longrightarrow> g x (f x s) = s"
  shows "fold g (rev xs) (fold f xs s) = s"
  using assms
proof (induction xs arbitrary: s)
  case (Cons x xs)
  have "fold g (rev xs) (fold f xs (f x s)) = f x s"
    using Cons.prems by (intro Cons.IH) auto
  then show ?case using Cons.prems by simp
qed simp

subsection \<open>Arrays\<close>

lemma nth_update: "xs[i := x] ! j = (if i = j \<and> j < length xs then x else xs ! j)"
  by (cases "i = j") (auto simp: list_update_beyond)

lemma length_numeral_Cons [loop_simps]:
  "length xs = numeral n \<longleftrightarrow> (\<exists>y ys. xs = y # ys \<and> length ys = pred_numeral n)"
  by (simp add: numeral_eq_Suc length_Suc_conv)

lemma numeral_le_length_Cons [loop_simps]:
  "numeral n \<le> length xs \<longleftrightarrow> (\<exists>y ys. xs = y # ys \<and> pred_numeral n \<le> length ys)"
  by (simp add: numeral_eq_Suc Suc_le_length_iff)

lemma replicate_numeral_Cons [loop_simps]:
  "replicate (numeral k) x = x # replicate (pred_numeral k) x"
  by (simp add: numeral_eq_Suc)

subsection \<open>Exclusive or\<close>

lemma xor_cancel_left [simp]: "(a :: 'a::len word) XOR (a XOR b) = b"
  by (simp flip: xor.assoc)

lemma xor_eq_0 [simp]: "(a :: 'a::len word) XOR b = 0 \<longleftrightarrow> a = b"
proof
  assume "a XOR b = 0"
  then have "a XOR (a XOR b) = a" by simp
  then show "a = b" by simp
qed simp

lemma fold_or_eq_0:
  "fold (\<lambda>i d. d OR f i) xs (d :: 'a::len word) = 0 \<longleftrightarrow> d = 0 \<and> (\<forall>i\<in>set xs. f i = 0)"
  by (induction xs arbitrary: d) (auto simp: or_eq_0_iff)

lemmas xor_ac = xor.assoc xor.commute xor.left_commute

lemma length_xor_list [simp]: "length (xor_list xs ys) = min (length xs) (length ys)"
  by (simp add: xor_list_def)

lemma nth_xor_list [simp]:
  "i < length xs \<Longrightarrow> i < length ys \<Longrightarrow> xor_list xs ys ! i = xs ! i XOR ys ! i"
  by (simp add: xor_list_def)

lemma xor_list_simps [simp]:
  "xor_list [] ys = []" "xor_list xs [] = []"
  "xor_list (x # xs) (y # ys) = (x XOR y) # xor_list xs ys"
  by (simp_all add: xor_list_def)

lemma xor_list_append:
  "length xs = length ys \<Longrightarrow> xor_list (xs @ xs') (ys @ ys') = xor_list xs ys @ xor_list xs' ys'"
  by (simp add: xor_list_def)

lemma xor_list_cancel:
  "length xs = length (ys :: 'a::len word list) \<Longrightarrow> xor_list xs (xor_list xs ys) = ys"
  by (induction xs ys rule: list_induct2) auto

lemma xor_list_commute: "xor_list (xs :: 'a::len word list) ys = xor_list ys xs"
  by (induction xs ys rule: list_induct2') (auto simp: xor.commute)

lemma take_xor_list: "take n (xor_list xs ys) = xor_list (take n xs) (take n ys)"
  by (simp add: xor_list_def take_map take_zip)

lemma drop_xor_list: "drop n (xor_list xs ys) = xor_list (drop n xs) (drop n ys)"
  by (simp add: xor_list_def drop_map drop_zip)

subsection \<open>Byte arrays as word arrays\<close>

lemma le_word_bytes [simp]:
  "le_word (ucast w) (ucast (drop_bit 8 w)) (ucast (drop_bit 16 w)) (ucast (drop_bit 24 w)) = w"
proof (rule bit_word_eqI)
  fix n assume n: "n < LENGTH(32)"
  consider "n < 8" | "8 \<le> n" "n < 16" | "16 \<le> n" "n < 24" | "24 \<le> n" by linarith
  then show "bit (le_word (ucast w) (ucast (drop_bit 8 w)) (ucast (drop_bit 16 w))
      (ucast (drop_bit 24 w))) n = bit w n"
    by cases (use n in \<open>auto simp: le_word_def bit_simps\<close>)
qed

lemma bit_u8_high [simp]: "8 \<le> n \<Longrightarrow> \<not> bit (a :: u8) n"
  by (auto dest: bit_imp_le_length)

lemma le_bytes_word [simp]: "le_bytes (le_word a b c d) = [a, b, c, d]"
  unfolding le_bytes_def le_word_def
  by (auto intro!: bit_word_eqI simp: bit_simps)

lemma words_of_bytes_append_word [simp]:
  "words_of_bytes (le_bytes w @ bs) = w # words_of_bytes bs"
  by (simp add: le_bytes_def)

lemma length_le_bytes [simp]: "length (le_bytes w) = 4"
  by (simp add: le_bytes_def)

lemma bytes_of_words_simps [simp]:
  "bytes_of_words [] = []" "bytes_of_words (w # ws) = le_bytes w @ bytes_of_words ws"
  by (simp_all add: bytes_of_words_def)

lemma length_bytes_of_words [simp]: "length (bytes_of_words ws) = 4 * length ws"
  by (induction ws) auto

lemma length_words_of_bytes [simp]: "length (words_of_bytes bs) = length bs div 4"
  by (induction bs rule: words_of_bytes.induct) auto

lemma words_of_bytes_take: "words_of_bytes (take (4 * n) bs) = take n (words_of_bytes bs)"
proof (induction bs arbitrary: n rule: words_of_bytes.induct)
  case (1 a b c d bs)
  then show ?case by (cases n) (auto simp: take_Cons')
qed (case_tac n; simp)+

lemma words_of_bytes_of_words [simp]: "words_of_bytes (bytes_of_words ws) = ws"
  by (induction ws) auto

lemma bytes_of_words_of_bytes [simp]:
  "4 dvd length bs \<Longrightarrow> bytes_of_words (words_of_bytes bs) = bs"
proof (induction bs rule: words_of_bytes.induct)
  case (1 a b c d bs)
  then have "4 dvd length bs" by simp presburger
  with 1 show ?case by simp
qed (simp_all; presburger)+

lemma bytes_of_words_append [simp]:
  "bytes_of_words (xs @ ys) = bytes_of_words xs @ bytes_of_words ys"
  by (simp add: bytes_of_words_def)

lemma bytes_of_words_take: "bytes_of_words (take n ws) = take (4 * n) (bytes_of_words ws)"
proof (induction ws arbitrary: n)
  case (Cons w ws)
  then show ?case by (cases n) auto
qed simp

lemma le_bytes_xor: "le_bytes (v XOR w) = xor_list (le_bytes v) (le_bytes w)"
  by (auto simp: le_bytes_def intro!: bit_word_eqI simp: bit_simps)

lemma bytes_of_words_xor:
  "length vs = length ws \<Longrightarrow>
   bytes_of_words (xor_list vs ws) = xor_list (bytes_of_words vs) (bytes_of_words ws)"
  by (induction vs ws rule: list_induct2) (auto simp: le_bytes_xor xor_list_append)

lemma words_of_bytes_xor:
  assumes "length as = length bs" and "4 dvd length bs"
  shows "words_of_bytes (xor_list as bs) = xor_list (words_of_bytes as) (words_of_bytes bs)"
proof -
  let ?v = "words_of_bytes as" and ?w = "words_of_bytes bs"
  have "xor_list as bs = bytes_of_words (xor_list ?v ?w)"
    using assms by (simp add: bytes_of_words_xor)
  then show ?thesis by simp
qed

lemma nth_words_of_bytes:
  "q < length bs div 4 \<Longrightarrow>
   words_of_bytes bs ! q = le_word (bs ! (4 * q)) (bs ! (4 * q + 1)) (bs ! (4 * q + 2)) (bs ! (4 * q + 3))"
proof (induction bs arbitrary: q rule: words_of_bytes.induct)
  case (1 a b c d bs)
  have "(a # b # c # d # bs) ! (4 * Suc p + i) = bs ! (4 * p + i)" for p i by simp
  from this [of _ 0] this [of _ 1] this [of _ 2] this [of _ 3] 1 show ?case by (cases q) auto
qed simp_all

lemma bit_le_word:
  "j < 32 \<Longrightarrow> bit (le_word a b c d) j = bit ([a, b, c, d] ! (j div 8)) (j mod 8)"
proof -
  assume j: "j < 32"
  then consider "j div 8 = 0" "j < 8" | "j div 8 = 1" "8 \<le> j" "j < 16" | "j div 8 = 2" "16 \<le> j" "j < 24"
    | "j div 8 = 3" "24 \<le> j" by linarith
  then show ?thesis
    by cases (use j in \<open>auto simp: le_word_def bit_simps mod_if le_mod_geq\<close>)
qed

lemma bit_words_of_bytes:
  assumes "q < length bs div 4" "j < 32"
  shows "bit (words_of_bytes bs ! q) j = bit (bs ! (4 * q + j div 8)) (j mod 8)"
proof -
  have "j div 8 \<in> {0, 1, 2, 3}" using assms by auto
  then show ?thesis using assms by (auto simp: nth_words_of_bytes bit_le_word)
qed

end
