(* ===== verification/Sparkle.thy ===== *)
theory Sparkle
  imports Prelude
begin

text \<open>
  The SPARKLE permutation family: \<^verbatim>\<open>runtime/sparkle/esch/sparkle.c\<close>,
  \<^verbatim>\<open>runtime/sparkle/schwaemm/sparkle.c\<close> and \<^verbatim>\<open>compiler/schwaemm/schwaemm/sparkle.c\<close>, three
  copies of one file that differ in the prefix of the function names only. The state is
  the array of \<^verbatim>\<open>2*brans\<close> 32-bit words; every assignment of the C code is one list
  update. The main results are that \<open>sparkle_inv\<close> inverts \<open>sparkle\<close> on both sides for
  the three state sizes of the family, hence that the permutation is a bijection, and
  that it keeps the length of the state.
\<close>

section \<open>Model\<close>

definition MAX_BRANCHES :: nat where
  "MAX_BRANCHES = 8"

definition ROT :: "u32 \<Rightarrow> nat \<Rightarrow> u32" where
  "ROT x n = drop_bit n x OR push_bit (32 - n) x"

definition ELL :: "u32 \<Rightarrow> u32" where
  "ELL x = ROT (x XOR push_bit 16 x) 16"

definition RCON :: "u32 list" where
  "RCON = [0xB7E15162, 0xBF715880, 0x38B4DA56, 0x324E7738,
           0xBB1185EB, 0x4F7C7B57, 0xCFBFA1C8, 0xC2B3293D]"

subsection \<open>The forward permutation\<close>

text \<open>Addition of the round constant (lines 46--47 of the function).\<close>

definition add_round_constant :: "nat \<Rightarrow> u32 list \<Rightarrow> u32 list" where
  "add_round_constant i state =
     (let state = state[1 := state ! 1 XOR RCON ! (i mod MAX_BRANCHES)];
          state = state[3 := state ! 3 XOR of_nat i]
      in state)"

text \<open>The body of the ARXBOX loop for the branch at index \<open>j\<close>.\<close>

definition arxbox_branch :: "nat \<Rightarrow> u32 list \<Rightarrow> u32 list" where
  "arxbox_branch j state =
     (let rc = RCON ! (j div 2);
          state = state[j := state ! j + ROT (state ! (j + 1)) 31];
          state = state[j + 1 := state ! (j + 1) XOR ROT (state ! j) 24];
          state = state[j := state ! j XOR rc];
          state = state[j := state ! j + ROT (state ! (j + 1)) 17];
          state = state[j + 1 := state ! (j + 1) XOR ROT (state ! j) 17];
          state = state[j := state ! j XOR rc];
          state = state[j := state ! j + state ! (j + 1)];
          state = state[j + 1 := state ! (j + 1) XOR ROT (state ! j) 31];
          state = state[j := state ! j XOR rc];
          state = state[j := state ! j + ROT (state ! (j + 1)) 24];
          state = state[j + 1 := state ! (j + 1) XOR ROT (state ! j) 16];
          state = state[j := state ! j XOR rc]
      in state)"

definition arxbox_layer :: "nat \<Rightarrow> u32 list \<Rightarrow> u32 list" where
  "arxbox_layer brans state = fold arxbox_branch (for_up 0 (2 * brans) 2) state"

definition linear_layer :: "nat \<Rightarrow> u32 list \<Rightarrow> u32 list" where
  "linear_layer brans state =
     (let x0 = state ! 0; y0 = state ! 1;
          (tmpx, tmpy) = fold (\<lambda>j (tmpx, tmpy). (tmpx XOR state ! j, tmpy XOR state ! (j + 1)))
                           (for_up 2 brans 2) (x0, y0);
          tmpx = ELL tmpx; tmpy = ELL tmpy;
          state = fold (\<lambda>j state.
                     let state = state[j - 2 := state ! (j + brans) XOR state ! j XOR tmpy];
                         state = state[j + brans := state ! j];
                         state = state[j - 1 := state ! (j + brans + 1) XOR state ! (j + 1) XOR tmpx];
                         state = state[j + brans + 1 := state ! (j + 1)]
                     in state)
                   (for_up 2 brans 2) state;
          state = state[brans - 2 := state ! brans XOR x0 XOR tmpy];
          state = state[brans := x0];
          state = state[brans - 1 := state ! (brans + 1) XOR y0 XOR tmpx];
          state = state[brans + 1 := y0]
      in state)"

definition sparkle_step :: "nat \<Rightarrow> nat \<Rightarrow> u32 list \<Rightarrow> u32 list" where
  "sparkle_step brans i state =
     linear_layer brans (arxbox_layer brans (add_round_constant i state))"

definition sparkle :: "u32 list \<Rightarrow> nat \<Rightarrow> nat \<Rightarrow> u32 list" where
  "sparkle state brans steps = fold (sparkle_step brans) [0..<steps] state"

subsection \<open>The inverse permutation\<close>

definition linear_layer_inv :: "nat \<Rightarrow> u32 list \<Rightarrow> u32 list" where
  "linear_layer_inv brans state =
     (let xb1 = state ! (brans - 2); yb1 = state ! (brans - 1);
          (tmpx, tmpy, state) = fold (\<lambda>j (tmpx, tmpy, state).
                     let state = state[j := state ! (j + brans)];
                         tmpx = tmpx XOR state ! j;
                         state = state[j + brans := state ! (j - 2)];
                         state = state[j + 1 := state ! (j + brans + 1)];
                         tmpy = tmpy XOR state ! (j + 1);
                         state = state[j + brans + 1 := state ! (j - 1)]
                     in (tmpx, tmpy, state))
                   (for_down (brans - 2) 2) (0, 0, state);
          state = state[0 := state ! brans];
          tmpx = tmpx XOR state ! 0;
          state = state[brans := xb1];
          state = state[1 := state ! (brans + 1)];
          tmpy = tmpy XOR state ! 1;
          state = state[brans + 1 := yb1];
          tmpx = ELL tmpx; tmpy = ELL tmpy
      in fold (\<lambda>j state.
            let state = state[j + brans := state ! (j + brans) XOR (tmpy XOR state ! j)];
                state = state[j + brans + 1 := state ! (j + brans + 1) XOR (tmpx XOR state ! (j + 1))]
            in state)
          (for_down0 (brans - 2) 2) state)"

definition arxbox_branch_inv :: "nat \<Rightarrow> u32 list \<Rightarrow> u32 list" where
  "arxbox_branch_inv j state =
     (let rc = RCON ! (j div 2);
          state = state[j := state ! j XOR rc];
          state = state[j + 1 := state ! (j + 1) XOR ROT (state ! j) 16];
          state = state[j := state ! j - ROT (state ! (j + 1)) 24];
          state = state[j := state ! j XOR rc];
          state = state[j + 1 := state ! (j + 1) XOR ROT (state ! j) 31];
          state = state[j := state ! j - state ! (j + 1)];
          state = state[j := state ! j XOR rc];
          state = state[j + 1 := state ! (j + 1) XOR ROT (state ! j) 17];
          state = state[j := state ! j - ROT (state ! (j + 1)) 17];
          state = state[j := state ! j XOR rc];
          state = state[j + 1 := state ! (j + 1) XOR ROT (state ! j) 24];
          state = state[j := state ! j - ROT (state ! (j + 1)) 31]
      in state)"

definition arxbox_layer_inv :: "nat \<Rightarrow> u32 list \<Rightarrow> u32 list" where
  "arxbox_layer_inv brans state = fold arxbox_branch_inv (for_up 0 (2 * brans) 2) state"

definition sparkle_step_inv :: "nat \<Rightarrow> nat \<Rightarrow> u32 list \<Rightarrow> u32 list" where
  "sparkle_step_inv brans i state =
     add_round_constant i (arxbox_layer_inv brans (linear_layer_inv brans state))"

definition sparkle_inv :: "u32 list \<Rightarrow> nat \<Rightarrow> nat \<Rightarrow> u32 list" where
  "sparkle_inv state brans steps = fold (sparkle_step_inv brans) (rev [0..<steps]) state"

definition clear_state :: "u32 list \<Rightarrow> nat \<Rightarrow> u32 list" where
  "clear_state state brans = fold (\<lambda>i state. state[i := 0]) [0..<2 * brans] state"

subsection \<open>The copies of the runtime\<close>

definition esch_sparkle :: "u32 list \<Rightarrow> nat \<Rightarrow> nat \<Rightarrow> u32 list" where
  "esch_sparkle = sparkle"

definition esch_sparkle_inv :: "u32 list \<Rightarrow> nat \<Rightarrow> nat \<Rightarrow> u32 list" where
  "esch_sparkle_inv = sparkle_inv"

definition esch_clear_state :: "u32 list \<Rightarrow> nat \<Rightarrow> u32 list" where
  "esch_clear_state = clear_state"

definition schwaemm_sparkle :: "u32 list \<Rightarrow> nat \<Rightarrow> nat \<Rightarrow> u32 list" where
  "schwaemm_sparkle = sparkle"

definition schwaemm_sparkle_inv :: "u32 list \<Rightarrow> nat \<Rightarrow> nat \<Rightarrow> u32 list" where
  "schwaemm_sparkle_inv = sparkle_inv"

definition schwaemm_clear_state :: "u32 list \<Rightarrow> nat \<Rightarrow> u32 list" where
  "schwaemm_clear_state = clear_state"

subsection \<open>Padding of a last block\<close>

text \<open>
  The padding of a short last block, written out in \<^verbatim>\<open>rho_whi_aut_last\<close>,
  \<^verbatim>\<open>rho_whi_enc_last\<close> and \<^verbatim>\<open>add_msg_blk_last\<close>: \<^verbatim>\<open>memcpy\<close>, \<^verbatim>\<open>memset\<close> of the rest to zero, and
  \<^verbatim>\<open>0x80\<close> in the byte after the data.
\<close>

definition pad_block :: "nat \<Rightarrow> u8 list \<Rightarrow> u8 list" where
  "pad_block rate inp =
     (if length inp < rate then inp @ (replicate (rate - length inp) 0)[0 := 0x80] else inp)"

lemma length_pad_block:
  "length inp \<le> rate \<Longrightarrow> length (pad_block rate inp) = rate"
  by (simp add: pad_block_def)

section \<open>Branches\<close>

text \<open>
  A branch is the pair of words at an even index. \<open>put\<close> writes a branch, and every
  assignment of the ARXBOX is an operation on one branch.
\<close>

definition put :: "nat \<Rightarrow> u32 \<times> u32 \<Rightarrow> u32 list \<Rightarrow> u32 list" where
  "put j p s = s[j := fst p, j + 1 := snd p]"

definition branch :: "nat \<Rightarrow> u32 list \<Rightarrow> u32 \<times> u32" where
  "branch j s = (s ! j, s ! (j + 1))"

definition add_rot :: "nat \<Rightarrow> nat \<Rightarrow> u32 list \<Rightarrow> u32 list" where
  "add_rot n j s = s[j := s ! j + ROT (s ! (j + 1)) n]"

definition sub_rot :: "nat \<Rightarrow> nat \<Rightarrow> u32 list \<Rightarrow> u32 list" where
  "sub_rot n j s = s[j := s ! j - ROT (s ! (j + 1)) n]"

definition add_y :: "nat \<Rightarrow> u32 list \<Rightarrow> u32 list" where
  "add_y j s = s[j := s ! j + s ! (j + 1)]"

definition sub_y :: "nat \<Rightarrow> u32 list \<Rightarrow> u32 list" where
  "sub_y j s = s[j := s ! j - s ! (j + 1)]"

definition xor_rot :: "nat \<Rightarrow> nat \<Rightarrow> u32 list \<Rightarrow> u32 list" where
  "xor_rot n j s = s[j + 1 := s ! (j + 1) XOR ROT (s ! j) n]"

definition xor_const :: "u32 \<Rightarrow> nat \<Rightarrow> u32 list \<Rightarrow> u32 list" where
  "xor_const c j s = s[j := s ! j XOR c]"

lemmas branch_op_defs =
  add_rot_def sub_rot_def add_y_def sub_y_def xor_rot_def xor_const_def

lemmas branch_fold =
  add_rot_def [symmetric] sub_rot_def [symmetric] add_y_def [symmetric] sub_y_def [symmetric]
  xor_rot_def [symmetric]

definition arx :: "u32 \<Rightarrow> u32 \<times> u32 \<Rightarrow> u32 \<times> u32" where
  "arx rc p =
     (let (x, y) = p;
          x = x + ROT y 31; y = y XOR ROT x 24; x = x XOR rc;
          x = x + ROT y 17; y = y XOR ROT x 17; x = x XOR rc;
          x = x + y; y = y XOR ROT x 31; x = x XOR rc;
          x = x + ROT y 24; y = y XOR ROT x 16; x = x XOR rc
      in (x, y))"

definition arx_inv :: "u32 \<Rightarrow> u32 \<times> u32 \<Rightarrow> u32 \<times> u32" where
  "arx_inv rc p =
     (let (x, y) = p;
          x = x XOR rc; y = y XOR ROT x 16; x = x - ROT y 24;
          x = x XOR rc; y = y XOR ROT x 31; x = x - y;
          x = x XOR rc; y = y XOR ROT x 17; x = x - ROT y 17;
          x = x XOR rc; y = y XOR ROT x 24; x = x - ROT y 31
      in (x, y))"

lemma arx_inverse [simp]: "arx_inv rc (arx rc p) = p" "arx rc (arx_inv rc p) = p"
  by (cases p; simp add: arx_def arx_inv_def Let_def xor.assoc)+

lemma length_put [simp]: "length (put j p s) = length s"
  by (simp add: put_def)

lemma put_put [simp]: "put j p (put j q s) = put j p s"
  by (simp add: put_def list_update_swap)

lemma put_branch [simp]: "put j (branch j s) s = s"
  by (simp add: put_def branch_def)

lemma branch_put [simp]: "j + 1 < length s \<Longrightarrow> branch j (put j p s) = p"
  by (simp add: put_def branch_def)

lemma even_apart: "even j \<Longrightarrow> even k \<Longrightarrow> j \<noteq> k \<Longrightarrow> Suc j \<noteq> k \<and> j \<noteq> Suc k"
  by auto

lemma branch_put_other:
  assumes "even j" and "even k" and "j \<noteq> k"
  shows "branch j (put k p s) = branch j s"
  using even_apart [OF assms] assms(3) by (simp add: put_def branch_def)

lemma put_put_other:
  assumes "even j" and "even k" and "j \<noteq> k"
  shows "put j p (put k q s) = put k q (put j p s)"
  using even_apart [OF assms] assms(3)
  by (intro nth_equalityI) (auto simp: put_def nth_update)

lemma branch_ops_put:
  assumes "j + 1 < length s"
  shows "add_rot n j (put j (x, y) s) = put j (x + ROT y n, y) s"
    and "sub_rot n j (put j (x, y) s) = put j (x - ROT y n, y) s"
    and "add_y j (put j (x, y) s) = put j (x + y, y) s"
    and "sub_y j (put j (x, y) s) = put j (x - y, y) s"
    and "xor_rot n j (put j (x, y) s) = put j (x, y XOR ROT x n) s"
    and "xor_const c j (put j (x, y) s) = put j (x XOR c, y) s"
  using assms by (simp_all add: branch_op_defs put_def list_update_swap [of "Suc j" j])

lemma arxbox_branch_put:
  assumes "j + 1 < length s"
  shows "arxbox_branch j s = put j (arx (RCON ! (j div 2)) (branch j s)) s"
proof -
  obtain x y where b: "branch j s = (x, y)" by fastforce
  then have "s = put j (x, y) s" by (metis put_branch)
  then have "arxbox_branch j s = arxbox_branch j (put j (x, y) s)" by simp
  also have "\<dots> = put j (arx (RCON ! (j div 2)) (x, y)) s"
    unfolding arxbox_branch_def branch_fold
    unfolding xor_const_def [symmetric]
    by (simp only: Let_def branch_ops_put [OF assms] arx_def prod.case)
  finally show ?thesis by (simp add: b)
qed

lemma arxbox_branch_inv_put:
  assumes "j + 1 < length s"
  shows "arxbox_branch_inv j s = put j (arx_inv (RCON ! (j div 2)) (branch j s)) s"
proof -
  obtain x y where b: "branch j s = (x, y)" by fastforce
  then have "s = put j (x, y) s" by (metis put_branch)
  then have "arxbox_branch_inv j s = arxbox_branch_inv j (put j (x, y) s)" by simp
  also have "\<dots> = put j (arx_inv (RCON ! (j div 2)) (x, y)) s"
    unfolding arxbox_branch_inv_def branch_fold
    unfolding xor_const_def [symmetric]
    by (simp only: Let_def branch_ops_put [OF assms] arx_inv_def prod.case)
  finally show ?thesis by (simp add: b)
qed

section \<open>Layers\<close>

text \<open>
  A layer applies one operation to every branch. Operations on different branches
  commute, so a layer is undone by the branch-wise inverses in the same order.
\<close>

definition branch_layer ::
    "(nat \<Rightarrow> u32 \<times> u32 \<Rightarrow> u32 \<times> u32) \<Rightarrow> nat list \<Rightarrow> u32 list \<Rightarrow> u32 list" where
  "branch_layer f js s = fold (\<lambda>j s. put j (f j (branch j s)) s) js s"

lemma branch_layer_simps [simp]:
  "branch_layer f [] s = s"
  "branch_layer f (j # js) s = branch_layer f js (put j (f j (branch j s)) s)"
  by (simp_all add: branch_layer_def)

lemma length_branch_layer [simp]: "length (branch_layer f js s) = length s"
  by (induction js arbitrary: s) auto

lemma branch_layer_put:
  assumes "even j" and "\<And>k. k \<in> set js \<Longrightarrow> even k" and "j \<notin> set js"
  shows "branch_layer f js (put j p s) = put j p (branch_layer f js s)"
  using assms
  by (induction js arbitrary: s) (auto simp: branch_put_other put_put_other [of _ j])

lemma branch_layer_inverse:
  assumes "\<And>k. k \<in> set js \<Longrightarrow> even k \<and> k + 1 < length s" and "distinct js"
    and "\<And>k p. k \<in> set js \<Longrightarrow> g k (f k p) = p"
  shows "branch_layer g js (branch_layer f js s) = s"
  using assms
proof (induction js arbitrary: s)
  case (Cons j js)
  let ?p = "branch j s" and ?t = "branch_layer f js s"
  have ev: "even j" "\<And>k. k \<in> set js \<Longrightarrow> even k" "j \<notin> set js" "j + 1 < length s"
    using Cons.prems by auto
  have "branch_layer f (j # js) s = put j (f j ?p) ?t"
    using branch_layer_put [OF ev(1-3), of f] by simp
  then have "branch_layer g (j # js) (branch_layer f (j # js) s)
      = branch_layer g js (put j ?p ?t)"
    using ev Cons.prems(3) by simp
  also have "put j ?p ?t = ?t"
    using branch_layer_put [OF ev(1-3), of f ?p s] by (simp only: put_branch)
  also have "branch_layer g js ?t = s"
    using Cons.prems by (intro Cons.IH) auto
  finally show ?case .
qed simp

lemma fold_put_layer:
  assumes "\<And>j. j \<in> set js \<Longrightarrow> j + 1 < length s"
    and "\<And>j s'. length s' = length s \<Longrightarrow> j \<in> set js \<Longrightarrow> op j s' = put j (f j (branch j s')) s'"
  shows "fold op js s = branch_layer f js s"
  using assms by (induction js arbitrary: s) auto

abbreviation all_branches :: "nat \<Rightarrow> nat list" where
  "all_branches brans \<equiv> for_up 0 (2 * brans) 2"

lemma all_branches_bounds: "j \<in> set (all_branches brans) \<Longrightarrow> even j \<and> j + 1 < 2 * brans"
proof -
  assume "j \<in> set (all_branches brans)"
  then have "even j" and "j < 2 * brans" by (auto dest: even_for_up [rotated] set_for_up)
  then show ?thesis by presburger
qed

lemma arxbox_layer_branches:
  assumes "length s = 2 * brans"
  shows "arxbox_layer brans s = branch_layer (\<lambda>j. arx (RCON ! (j div 2))) (all_branches brans) s"
    and "arxbox_layer_inv brans s =
           branch_layer (\<lambda>j. arx_inv (RCON ! (j div 2))) (all_branches brans) s"
  using assms unfolding arxbox_layer_def arxbox_layer_inv_def
  by (intro fold_put_layer; simp add: arxbox_branch_put arxbox_branch_inv_put
        all_branches_bounds [simplified])+

lemma length_arxbox_layer [simp]:
  "length s = 2 * brans \<Longrightarrow> length (arxbox_layer brans s) = 2 * brans"
  "length s = 2 * brans \<Longrightarrow> length (arxbox_layer_inv brans s) = 2 * brans"
  by (simp_all add: arxbox_layer_branches)

lemma arxbox_layer_inverse:
  assumes "length s = 2 * brans"
  shows "arxbox_layer_inv brans (arxbox_layer brans s) = s"
    and "arxbox_layer brans (arxbox_layer_inv brans s) = s"
  using assms
  by (simp_all add: arxbox_layer_branches branch_layer_inverse all_branches_bounds [simplified]
        distinct_for_up)

lemma add_round_constant_inverse [simp]:
  "3 < length s \<Longrightarrow> add_round_constant i (add_round_constant i s) = s"
  by (intro nth_equalityI) (auto simp: add_round_constant_def Let_def nth_update xor.assoc)

lemma length_add_round_constant [simp]: "length (add_round_constant i s) = length s"
  by (simp add: add_round_constant_def Let_def)

text \<open>The three members of the family: SPARKLE256, SPARKLE384 and SPARKLE512.\<close>

definition sparkle_size :: "nat \<Rightarrow> bool" where
  "sparkle_size brans \<longleftrightarrow> brans = 4 \<or> brans = 6 \<or> brans = 8"

lemma linear_layer_inverse:
  assumes "sparkle_size brans" and "length s = 2 * brans"
  shows "linear_layer_inv brans (linear_layer brans s) = s"
    and "linear_layer brans (linear_layer_inv brans s) = s"
  using assms unfolding sparkle_size_def
  by (elim disjE; clarsimp simp: loop_simps; simp add: linear_layer_def linear_layer_inv_def Let_def loop_simps xor_ac)+

lemma length_linear_layer [simp]:
  "length (linear_layer brans s) = length s" "length (linear_layer_inv brans s) = length s"
proof -
  have "length (fold f js s) = length s"
    if "\<And>j (s :: u32 list). length (f j s) = length s" for f :: "nat \<Rightarrow> u32 list \<Rightarrow> u32 list" and js s
    by (induction js arbitrary: s) (auto simp: that)
  note len = this
  show "length (linear_layer brans s) = length s"
    by (simp add: linear_layer_def Let_def len split: prod.split)
  have "length (snd (snd (fold f js q))) = length (snd (snd q))"
    if "\<And>j q. length (snd (snd (f j q))) = length (snd (snd q))"
    for f :: "nat \<Rightarrow> u32 \<times> u32 \<times> u32 list \<Rightarrow> u32 \<times> u32 \<times> u32 list" and js q
    by (induction js arbitrary: q) (auto simp: that)
  note len3 = this
  show "length (linear_layer_inv brans s) = length s"
    unfolding linear_layer_inv_def Let_def
    by (split prod.split, intro allI impI, split prod.split, intro allI impI)
       (drule arg_cong [where f = "\<lambda>q. length (snd (snd q))"],
        simp add: len len3 split: prod.split)
qed

section \<open>The permutation\<close>

lemma sparkle_size_pos: "sparkle_size brans \<Longrightarrow> 3 < 2 * brans"
  by (auto simp: sparkle_size_def)

lemma length_sparkle_step [simp]:
  "length s = 2 * brans \<Longrightarrow> length (sparkle_step brans i s) = 2 * brans"
  "length s = 2 * brans \<Longrightarrow> length (sparkle_step_inv brans i s) = 2 * brans"
  by (simp_all add: sparkle_step_def sparkle_step_inv_def)

lemma sparkle_step_inverse:
  assumes "sparkle_size brans" and "length s = 2 * brans"
  shows "sparkle_step_inv brans i (sparkle_step brans i s) = s"
    and "sparkle_step brans i (sparkle_step_inv brans i s) = s"
  using assms sparkle_size_pos [OF assms(1)]
  by (simp_all add: sparkle_step_def sparkle_step_inv_def linear_layer_inverse
        arxbox_layer_inverse)

lemma length_sparkle [simp]:
  "length s = 2 * brans \<Longrightarrow> length (sparkle s brans steps) = 2 * brans"
  "length s = 2 * brans \<Longrightarrow> length (sparkle_inv s brans steps) = 2 * brans"
  unfolding sparkle_def sparkle_inv_def
  by (rule fold_invariant_set; simp)+

lemma length_sparkle_copies [simp]:
  "length s = 2 * brans \<Longrightarrow> length (esch_sparkle s brans steps) = 2 * brans"
  "length s = 2 * brans \<Longrightarrow> length (schwaemm_sparkle s brans steps) = 2 * brans"
  by (simp_all add: esch_sparkle_def schwaemm_sparkle_def)

lemma clear_state_replicate:
  assumes "length s = 2 * brans"
  shows "clear_state s brans = replicate (2 * brans) 0"
proof -
  have "n \<le> length t \<Longrightarrow>
      fold (\<lambda>i state. state[i := 0]) [0..<n] t = replicate n 0 @ drop n t" for n and t :: "u32 list"
    by (induction n) (auto simp: list_update_append replicate_append_same
        Cons_nth_drop_Suc [symmetric] split: nat.split)
  then show ?thesis using assms by (simp add: clear_state_def)
qed

text \<open>
  C18: \<open>sparkle_inv\<close> undoes \<open>sparkle\<close> and \<open>sparkle\<close> undoes \<open>sparkle_inv\<close>, for every number
  of steps, on the three state sizes of the family.
\<close>

theorem sparkle_inverse:
  assumes "sparkle_size brans" and "length s = 2 * brans"
  shows "sparkle_inv (sparkle s brans steps) brans steps = s \<and>
         sparkle (sparkle_inv s brans steps) brans steps = s"
proof
  show "sparkle_inv (sparkle s brans steps) brans steps = s"
    unfolding sparkle_def sparkle_inv_def
    by (rule fold_inverse [where P = "\<lambda>s. length s = 2 * brans"])
       (use assms in \<open>auto simp: sparkle_step_inverse\<close>)
  have "fold (sparkle_step brans) (rev (rev [0..<steps]))
          (fold (sparkle_step_inv brans) (rev [0..<steps]) s) = s"
    by (rule fold_inverse [where P = "\<lambda>s. length s = 2 * brans"])
       (use assms in \<open>auto simp: sparkle_step_inverse\<close>)
  then show "sparkle (sparkle_inv s brans steps) brans steps = s"
    by (simp add: sparkle_def sparkle_inv_def)
qed

theorem sparkle_inverse_witness:
  "sparkle_size 6 \<and> length (replicate 12 (7 :: u32)) = 2 * 6 \<and>
   sparkle_inv (sparkle (replicate 12 7) 6 11) 6 11 = replicate 12 7"
proof -
  have "sparkle_size 6" and "length (replicate 12 (7 :: u32)) = 2 * 6"
    by (simp_all add: sparkle_size_def)
  then show ?thesis using sparkle_inverse [of 6 "replicate 12 7" 11] by blast
qed

end
