(* ===== verification/Esch.thy ===== *)
theory Esch
  imports Sparkle
begin

text \<open>
  The hash function ESCH of \<^verbatim>\<open>runtime/sparkle/esch/esch.c\<close>, for both instances the
  preprocessor can select. The state is the list of its words, the message the list of
  its bytes, and whether the message pointer is aligned for a cast is a boolean argument.
  The reference definition of the specification (message blocks padded with zeros to half
  a state, a linear Feistel function on them, the domain constant added under the inverse
  of that function) is stated below and the optimised code is proved equal to it.
\<close>

section \<open>Instances\<close>

datatype esch_inst = ESCH256 | ESCH384

definition ESCH_INST :: esch_inst where
  "ESCH_INST = ESCH256"

fun STATE_BYTES_esch :: "esch_inst \<Rightarrow> nat" where
  "STATE_BYTES_esch ESCH256 = 48"
| "STATE_BYTES_esch ESCH384 = 64"

fun RATE_BYTES_esch :: "esch_inst \<Rightarrow> nat" where
  "RATE_BYTES_esch ESCH256 = 16"
| "RATE_BYTES_esch ESCH384 = 16"

fun STEPS_SLIM_esch :: "esch_inst \<Rightarrow> nat" where
  "STEPS_SLIM_esch ESCH256 = 7"
| "STEPS_SLIM_esch ESCH384 = 8"

fun STEPS_BIG_esch :: "esch_inst \<Rightarrow> nat" where
  "STEPS_BIG_esch ESCH256 = 11"
| "STEPS_BIG_esch ESCH384 = 12"

fun ESCH_DIGEST_BYTES :: "esch_inst \<Rightarrow> nat" where
  "ESCH_DIGEST_BYTES ESCH256 = 32"
| "ESCH_DIGEST_BYTES ESCH384 = 48"

definition STATE_BRANS_esch :: "esch_inst \<Rightarrow> nat" where
  "STATE_BRANS_esch inst = STATE_BYTES_esch inst div 8"

definition STATE_WORDS_esch :: "esch_inst \<Rightarrow> nat" where
  "STATE_WORDS_esch inst = STATE_BYTES_esch inst div 4"

definition RATE_WORDS_esch :: "esch_inst \<Rightarrow> nat" where
  "RATE_WORDS_esch inst = RATE_BYTES_esch inst div 4"

definition CONST_M1_esch :: u32 where
  "CONST_M1_esch = push_bit 24 1"

definition CONST_M2_esch :: u32 where
  "CONST_M2_esch = push_bit 24 2"

lemmas esch_inst_defs = STATE_BRANS_esch_def STATE_WORDS_esch_def RATE_WORDS_esch_def

section \<open>Message injection\<close>

text \<open>The body both injections share, on the words of the block.\<close>

definition inject_words :: "esch_inst \<Rightarrow> u32 list \<Rightarrow> u32 list \<Rightarrow> u32 list" where
  "inject_words inst in32 state =
     (let (tmpx, tmpy) = fold (\<lambda>i (tmpx, tmpy). (tmpx XOR in32 ! i, tmpy XOR in32 ! (i + 1)))
                           (for_up 0 (RATE_WORDS_esch inst) 2) (0, 0);
          tmpx = ELL tmpx; tmpy = ELL tmpy;
          state = fold (\<lambda>i state.
                     let state = state[i := state ! i XOR (in32 ! i XOR tmpy)];
                         state = state[i + 1 := state ! (i + 1) XOR (in32 ! (i + 1) XOR tmpx)]
                     in state)
                   (for_up 0 (RATE_WORDS_esch inst) 2) state
      in fold (\<lambda>i state.
             let state = state[i := state ! i XOR tmpy];
                 state = state[i + 1 := state ! (i + 1) XOR tmpx]
             in state)
           (for_up (RATE_WORDS_esch inst) (STATE_WORDS_esch inst div 2) 2) state)"

definition add_msg_blk :: "esch_inst \<Rightarrow> u32 list \<Rightarrow> u8 list \<Rightarrow> bool \<Rightarrow> u32 list" where
  "add_msg_blk inst state inp aligned =
     (let in32 = (if aligned then words_of_bytes inp
                  else let buffer = words_of_bytes (take (RATE_BYTES_esch inst) inp) in buffer)
      in inject_words inst in32 state)"

definition add_msg_blk_last :: "esch_inst \<Rightarrow> u32 list \<Rightarrow> u8 list \<Rightarrow> u32 list" where
  "add_msg_blk_last inst state inp =
     (let buffer = words_of_bytes (pad_block (RATE_BYTES_esch inst) inp)
      in inject_words inst buffer state)"

section \<open>Low-level functions\<close>

definition Esch_Initialize :: "esch_inst \<Rightarrow> u32 list \<Rightarrow> u32 list" where
  "Esch_Initialize inst state = fold (\<lambda>i state. state[i := 0]) [0..<STATE_WORDS_esch inst] state"

lemma RATE_BYTES_esch_pos [simp]: "0 < RATE_BYTES_esch inst"
  by (cases inst) simp_all

text \<open>The main loop of \<^verbatim>\<open>Esch_ProcessMessage\<close>: the state and the bytes left for the last block.\<close>

function absorb_loop :: "esch_inst \<Rightarrow> bool \<Rightarrow> u32 list \<Rightarrow> u8 list \<Rightarrow> u32 list \<times> u8 list" where
  "absorb_loop inst aligned state inp =
     (if length inp > RATE_BYTES_esch inst
      then let state = add_msg_blk inst state inp aligned;
               state = esch_sparkle state (STATE_BRANS_esch inst) (STEPS_SLIM_esch inst)
           in absorb_loop inst aligned state (drop (RATE_BYTES_esch inst) inp)
      else (state, inp))"
  by pat_completeness auto
termination
proof (relation "measure (\<lambda>(inst, aligned, state, inp). length inp)", goal_cases)
  case (2 inst aligned state inp)
  then show ?case using RATE_BYTES_esch_pos [of inst] by (simp del: RATE_BYTES_esch_pos)
qed simp

declare absorb_loop.simps [simp del]

definition Esch_ProcessMessage :: "esch_inst \<Rightarrow> u32 list \<Rightarrow> u8 list \<Rightarrow> bool \<Rightarrow> u32 list" where
  "Esch_ProcessMessage inst state inp aligned =
     (let (state, inp) = absorb_loop inst aligned state inp;
          l = STATE_BRANS_esch inst - 1;
          state = state[l := state ! l XOR
                    (if length inp < RATE_BYTES_esch inst then CONST_M1_esch else CONST_M2_esch)];
          state = add_msg_blk_last inst state inp
      in esch_sparkle state (STATE_BRANS_esch inst) (STEPS_BIG_esch inst))"

text \<open>The squeezing loop: \<open>out\<close> is what has been written, \<open>outlen\<close> its length.\<close>

function squeeze_loop :: "esch_inst \<Rightarrow> nat \<Rightarrow> u32 list \<Rightarrow> u8 list \<Rightarrow> u8 list" where
  "squeeze_loop inst outlen state out =
     (if outlen < ESCH_DIGEST_BYTES inst
      then let state = esch_sparkle state (STATE_BRANS_esch inst) (STEPS_SLIM_esch inst)
           in squeeze_loop inst (outlen + RATE_BYTES_esch inst) state
                (out @ take (RATE_BYTES_esch inst) (bytes_of_words state))
      else out)"
  by pat_completeness auto
termination
proof (relation "measure (\<lambda>(inst, outlen, state, out). ESCH_DIGEST_BYTES inst - outlen)", goal_cases)
  case (2 inst outlen state out)
  then show ?case using RATE_BYTES_esch_pos [of inst] by (simp del: RATE_BYTES_esch_pos)
qed simp

declare squeeze_loop.simps [simp del]

definition Esch_Finalize :: "esch_inst \<Rightarrow> u32 list \<Rightarrow> u8 list" where
  "Esch_Finalize inst state =
     squeeze_loop inst (RATE_BYTES_esch inst) state
       (take (RATE_BYTES_esch inst) (bytes_of_words state))"

text \<open>
  The digest written to \<^verbatim>\<open>out\<close>; the return value is always 0. The automatic array
  \<^verbatim>\<open>state\<close> starts with arbitrary contents, the argument \<open>junk\<close>.
\<close>

definition crypto_hash_from :: "esch_inst \<Rightarrow> u32 list \<Rightarrow> bool \<Rightarrow> u8 list \<Rightarrow> u8 list" where
  "crypto_hash_from inst junk aligned inp =
     (let state = Esch_Initialize inst junk;
          state = Esch_ProcessMessage inst state inp aligned
      in Esch_Finalize inst state)"

definition crypto_hash :: "esch_inst \<Rightarrow> bool \<Rightarrow> u8 list \<Rightarrow> u8 list" where
  "crypto_hash inst = crypto_hash_from inst (replicate (STATE_WORDS_esch inst) 0)"

section \<open>The specification\<close>

text \<open>
  The linear Feistel function on half a state: every word of a branch is masked with the
  image under ELL of the sum of the other words of the branches, and its inverse.
\<close>

definition sum_x :: "u32 list \<Rightarrow> u32" where
  "sum_x ws = fold (\<lambda>i t. t XOR ws ! i) (for_up 0 (length ws) 2) 0"

definition sum_y :: "u32 list \<Rightarrow> u32" where
  "sum_y ws = fold (\<lambda>i t. t XOR ws ! (i + 1)) (for_up 0 (length ws) 2) 0"

definition mask_words :: "u32 \<Rightarrow> u32 \<Rightarrow> u32 list \<Rightarrow> u32 list" where
  "mask_words tx ty ws =
     map (\<lambda>i. ws ! i XOR (if even i then ELL ty else ELL tx)) [0..<length ws]"

definition feistel :: "u32 list \<Rightarrow> u32 list" where
  "feistel ws = mask_words (sum_x ws) (sum_y ws) ws"

definition feistel_inv :: "u32 list \<Rightarrow> u32 list" where
  "feistel_inv ws =
     (let a = sum_x ws; b = sum_y ws
      in if even (length ws div 2) then mask_words a b ws
         else mask_words (ELL (ELL (a XOR ELL b))) (ELL (ELL (b XOR ELL a))) ws)"

definition half_state :: "esch_inst \<Rightarrow> nat" where
  "half_state inst = STATE_WORDS_esch inst div 2"

definition zero_pad :: "nat \<Rightarrow> u32 list \<Rightarrow> u32 list" where
  "zero_pad n ws = ws @ replicate (n - length ws) 0"

definition const_words :: "esch_inst \<Rightarrow> u32 \<Rightarrow> u32 list" where
  "const_words inst c = replicate (half_state inst - 1) 0 @ [c]"

definition absorb_spec :: "esch_inst \<Rightarrow> nat \<Rightarrow> u32 \<Rightarrow> u8 list \<Rightarrow> u32 list \<Rightarrow> u32 list" where
  "absorb_spec inst steps c blk state =
     (let m = zero_pad (half_state inst) (words_of_bytes blk);
          m = xor_list m (feistel_inv (const_words inst c));
          state = xor_list state (zero_pad (STATE_WORDS_esch inst) (feistel m))
      in sparkle state (STATE_BRANS_esch inst) steps)"

text \<open>The message as blocks, the last one of 0 to \<open>rate\<close> bytes.\<close>

function message_blocks :: "nat \<Rightarrow> u8 list \<Rightarrow> u8 list list" where
  "message_blocks rate msg =
     (if rate < length msg \<and> 0 < rate then take rate msg # message_blocks rate (drop rate msg)
      else [msg])"
  by pat_completeness auto
termination
  by (relation "measure (\<lambda>(rate, msg). length msg)") auto

declare message_blocks.simps [simp del]

lemma message_blocks_not_Nil [simp]: "message_blocks rate msg \<noteq> []"
  by (subst message_blocks.simps) simp

lemma message_blocks_rec:
  "rate < length msg \<Longrightarrow> 0 < rate \<Longrightarrow>
     message_blocks rate msg = take rate msg # message_blocks rate (drop rate msg)"
  "\<not> rate < length msg \<Longrightarrow> message_blocks rate msg = [msg]"
  by (subst message_blocks.simps, simp)+

lemma length_last_message_blocks: "0 < rate \<Longrightarrow> length (last (message_blocks rate msg)) \<le> rate"
proof (induction rate msg rule: message_blocks.induct)
  case (1 rate msg)
  show ?case
  proof (cases "rate < length msg")
    case True
    then show ?thesis using 1 message_blocks_rec(1) [of rate msg] by simp
  qed (simp add: message_blocks_rec(2))
qed

lemma length_butlast_message_blocks:
  "0 < rate \<Longrightarrow> blk \<in> set (butlast (message_blocks rate msg)) \<Longrightarrow> length blk = rate"
proof (induction rate msg rule: message_blocks.induct)
  case (1 rate msg)
  show ?case
  proof (cases "rate < length msg")
    case True
    then show ?thesis using 1 message_blocks_rec(1) [of rate msg] by auto
  next
    case False
    then show ?thesis using 1 by (simp add: message_blocks_rec(2))
  qed
qed

definition squeeze_spec :: "esch_inst \<Rightarrow> u32 list \<Rightarrow> u8 list" where
  "squeeze_spec inst state =
     concat (map (\<lambda>i. take (RATE_BYTES_esch inst) (bytes_of_words
         (((\<lambda>s. sparkle s (STATE_BRANS_esch inst) (STEPS_SLIM_esch inst)) ^^ i) state)))
       [0..<ESCH_DIGEST_BYTES inst div RATE_BYTES_esch inst])"

definition esch_spec :: "esch_inst \<Rightarrow> u8 list \<Rightarrow> u8 list" where
  "esch_spec inst msg =
     (let blocks = message_blocks (RATE_BYTES_esch inst) msg;
          state = fold (absorb_spec inst (STEPS_SLIM_esch inst) 0) (butlast blocks)
                    (replicate (STATE_WORDS_esch inst) 0);
          c = (if length (last blocks) < RATE_BYTES_esch inst then CONST_M1_esch else CONST_M2_esch)
      in squeeze_spec inst
           (absorb_spec inst (STEPS_BIG_esch inst) c
              (pad_block (RATE_BYTES_esch inst) (last blocks)) state))"

section \<open>The Feistel function\<close>

lemma bit_ROT:
  assumes "0 < k" "k < 32"
  shows "bit (ROT x k) n \<longleftrightarrow> n < 32 \<and> bit x ((n + k) mod 32)"
proof (cases "n < 32 - k")
  case True
  then have "(n + k) mod 32 = n + k" by simp
  then show ?thesis using True assms by (auto simp: ROT_def bit_simps add.commute)
next
  case False
  then have "n < 32 \<Longrightarrow> (n + k) mod 32 = n + k - 32"
    using assms by (subst le_mod_geq) auto
  then show ?thesis using False assms
    by (auto simp: ROT_def bit_simps dest: bit_imp_le_length)
qed

lemma ELL_0 [simp]: "ELL 0 = 0"
  by (simp add: ELL_def ROT_def)

lemma ELL_xor: "ELL (a XOR b) = ELL a XOR ELL b"
  by (rule bit_word_eqI) (auto simp: ELL_def bit_ROT bit_simps)

lemma ELL_ELL: "ELL (ELL a) = ELL a XOR a"
proof (rule bit_word_eqI)
  fix n assume n: "n < LENGTH(32)"
  consider "n < 16" | "16 \<le> n" "n < 32" using n by force
  then show "bit (ELL (ELL a)) n = bit (ELL a XOR a) n"
  proof cases
    case 1
    then show ?thesis by (auto simp: ELL_def bit_ROT bit_simps)
  next
    case 2
    then have "(n + 16) mod 32 = n - 16" by (subst le_mod_geq) auto
    with 2 show ?thesis by (auto simp: ELL_def bit_ROT bit_simps)
  qed
qed

lemma feistel_lengths [simp]:
  "length (mask_words tx ty ws) = length ws" "length (feistel ws) = length ws"
  "length (feistel_inv ws) = length ws"
  by (simp_all add: mask_words_def feistel_def feistel_inv_def Let_def)

lemmas feistel_defs = feistel_def feistel_inv_def mask_words_def sum_x_def sum_y_def

lemma half_state_cases: "half_state inst = 6 \<or> half_state inst = 8"
  by (cases inst) (simp_all add: half_state_def esch_inst_defs)

text \<open>
  The two Feistel functions cancel, on the half states of both instances; in particular a
  constant added under the inverse is added to the result.
\<close>

lemma feistel_xor_inv:
  assumes "length ws = half_state inst" and "length cs = half_state inst"
  shows "feistel (xor_list ws (feistel_inv cs)) = xor_list (feistel ws) cs"
  using half_state_cases [of inst] assms
  by (elim disjE; clarsimp simp: loop_simps length_Suc_conv; simp add: feistel_defs Let_def loop_simps
        upt_rec_numeral ELL_xor ELL_ELL xor_ac)

section \<open>The code computes the specification\<close>

lemma inject_words_take: "inject_words inst in32 s = inject_words inst (take 4 in32) s"
  by (cases inst) (simp_all add: inject_words_def esch_inst_defs Let_def loop_simps)

lemma length_inject_words [simp]: "length (inject_words inst in32 s) = length s"
  by (cases inst) (simp_all add: inject_words_def esch_inst_defs Let_def loop_simps)

lemma inject_words_feistel:
  assumes "length ws = 4" and "length s = STATE_WORDS_esch inst"
  shows "inject_words inst ws s =
    xor_list s (zero_pad (STATE_WORDS_esch inst) (feistel (zero_pad (half_state inst) ws)))"
  using assms
  by (cases inst; clarsimp simp: esch_inst_defs loop_simps length_Suc_conv;
      simp add: inject_words_def esch_inst_defs half_state_def zero_pad_def feistel_defs Let_def
        loop_simps upt_rec_numeral xor_ac)

lemma esch_sizes:
  "STATE_WORDS_esch inst = 2 * STATE_BRANS_esch inst"
  "half_state inst = STATE_BRANS_esch inst" "0 < STATE_BRANS_esch inst"
  "RATE_BYTES_esch inst = 16" "RATE_WORDS_esch inst = 4"
  by (cases inst; simp add: esch_inst_defs half_state_def)+

lemma inject_words_const:
  assumes ws: "length ws = 4" and s: "length s = STATE_WORDS_esch inst"
  shows "inject_words inst ws (s[STATE_BRANS_esch inst - 1 := s ! (STATE_BRANS_esch inst - 1) XOR c]) =
    xor_list s (zero_pad (STATE_WORDS_esch inst)
      (feistel (xor_list (zero_pad (half_state inst) ws) (feistel_inv (const_words inst c)))))"
proof -
  let ?z = "zero_pad (half_state inst) ws" and ?l = "STATE_BRANS_esch inst - 1"
  have len: "length ?z = half_state inst" "length (const_words inst c) = half_state inst"
    using ws half_state_cases [of inst] by (auto simp: zero_pad_def const_words_def)
  have "inject_words inst ws (s[?l := s ! ?l XOR c]) =
      xor_list (s[?l := s ! ?l XOR c]) (zero_pad (STATE_WORDS_esch inst) (feistel ?z))"
    using ws s by (simp add: inject_words_feistel)
  also have "\<dots> = xor_list s (zero_pad (STATE_WORDS_esch inst)
      (xor_list (feistel ?z) (const_words inst c)))"
    using s len esch_sizes [of inst]
    by (intro nth_equalityI)
       (auto simp: zero_pad_def const_words_def nth_append nth_update xor_ac less_Suc_eq)
  finally show ?thesis using feistel_xor_inv [OF len] by simp
qed

lemma const_words_0: "inject_words inst ws s = inject_words inst ws (s[l := s ! l XOR 0])"
  by simp

lemma absorb_spec_step:
  assumes "length blk = 16" and "length s = STATE_WORDS_esch inst"
  shows "absorb_spec inst steps c blk s =
    esch_sparkle (inject_words inst (words_of_bytes blk)
      (s[STATE_BRANS_esch inst - 1 := s ! (STATE_BRANS_esch inst - 1) XOR c]))
      (STATE_BRANS_esch inst) steps"
  using assms
  by (simp add: absorb_spec_def Let_def inject_words_const esch_sparkle_def del: One_nat_def)

lemma length_absorb_spec:
  assumes "length blk = 16" and "length s = STATE_WORDS_esch inst"
  shows "length (absorb_spec inst steps c blk s) = STATE_WORDS_esch inst"
  using assms by (simp add: absorb_spec_step esch_sizes)

lemma add_msg_blk_words:
  assumes "16 \<le> length inp"
  shows "add_msg_blk inst s inp aligned = inject_words inst (words_of_bytes (take 16 inp)) s"
proof -
  have "inject_words inst (words_of_bytes inp) s = inject_words inst (words_of_bytes (take 16 inp)) s"
    using words_of_bytes_take [of 4 inp]
      inject_words_take [of inst "words_of_bytes inp"] by simp
  then show ?thesis by (simp add: add_msg_blk_def esch_sizes)
qed

lemma absorb_loop_spec:
  assumes "length s = STATE_WORDS_esch inst"
  shows "absorb_loop inst aligned s inp =
    (fold (absorb_spec inst (STEPS_SLIM_esch inst) 0)
       (butlast (message_blocks (RATE_BYTES_esch inst) inp)) s,
     last (message_blocks (RATE_BYTES_esch inst) inp))"
  using assms
proof (induction inst aligned s inp rule: absorb_loop.induct)
  case (1 inst aligned s inp)
  show ?case
  proof (cases "RATE_BYTES_esch inst < length inp")
    case True
    let ?s' = "esch_sparkle (add_msg_blk inst s inp aligned) (STATE_BRANS_esch inst) (STEPS_SLIM_esch inst)"
    have s': "?s' = absorb_spec inst (STEPS_SLIM_esch inst) 0 (take 16 inp) s"
      using True 1(2) by (simp add: absorb_spec_step add_msg_blk_words esch_sizes)
    have "length ?s' = STATE_WORDS_esch inst"
      unfolding s' using True 1(2) by (intro length_absorb_spec) (auto simp: esch_sizes)
    then show ?thesis
      using True 1(1) [OF True refl refl] s'
      by (subst absorb_loop.simps) (simp add: message_blocks_rec esch_sizes)
  next
    case False
    then show ?thesis by (subst absorb_loop.simps) (simp add: message_blocks_rec)
  qed
qed

lemma Esch_Initialize_zero:
  assumes "length junk = STATE_WORDS_esch inst"
  shows "Esch_Initialize inst junk = replicate (STATE_WORDS_esch inst) 0"
  using clear_state_replicate [of junk "STATE_BRANS_esch inst"] assms
  by (simp add: Esch_Initialize_def clear_state_def esch_sizes)

lemma length_fold_absorb:
  assumes "length s = STATE_WORDS_esch inst" and "\<And>b. b \<in> set bs \<Longrightarrow> length b = 16"
  shows "length (fold (absorb_spec inst steps c) bs s) = STATE_WORDS_esch inst"
  by (rule fold_invariant_set [where P = "\<lambda>s. length s = STATE_WORDS_esch inst"])
     (use assms in \<open>auto intro: length_absorb_spec\<close>)

lemma squeeze_steps:
  "squeeze_loop inst (RATE_BYTES_esch inst) s (take (RATE_BYTES_esch inst) (bytes_of_words s))
     = squeeze_spec inst s"
proof (cases inst)
  case ESCH256
  then show ?thesis
    by (simp add: squeeze_loop.simps [of ESCH256] squeeze_spec_def Let_def numeral_2_eq_2
        esch_sparkle_def)
next
  case ESCH384
  then show ?thesis
    by (simp add: squeeze_loop.simps [of ESCH384] squeeze_spec_def Let_def numeral_3_eq_3
        esch_sparkle_def)
qed

lemma length_squeeze:
  "length s = STATE_WORDS_esch inst \<Longrightarrow> length (squeeze_spec inst s) = ESCH_DIGEST_BYTES inst"
  by (cases inst) (simp_all add: squeeze_spec_def esch_inst_defs numeral_2_eq_2 numeral_3_eq_3)

lemma crypto_hash_from_spec:
  assumes "length junk = STATE_WORDS_esch inst"
  shows "crypto_hash_from inst junk aligned msg = esch_spec inst msg"
    and "length (crypto_hash_from inst junk aligned msg) = ESCH_DIGEST_BYTES inst"
proof -
  let ?bs = "message_blocks (RATE_BYTES_esch inst) msg"
  let ?s = "fold (absorb_spec inst (STEPS_SLIM_esch inst) 0) (butlast ?bs)
              (replicate (STATE_WORDS_esch inst) 0)"
  let ?c = "if length (last ?bs) < RATE_BYTES_esch inst then CONST_M1_esch else CONST_M2_esch"
  let ?p = "pad_block (RATE_BYTES_esch inst) (last ?bs)"
  have s: "length ?s = STATE_WORDS_esch inst"
    by (rule length_fold_absorb) (simp_all add: length_butlast_message_blocks esch_sizes)
  have p: "length ?p = 16"
    using length_last_message_blocks [of "RATE_BYTES_esch inst" msg]
    by (simp add: length_pad_block esch_sizes)
  have "Esch_ProcessMessage inst (replicate (STATE_WORDS_esch inst) 0) msg aligned
      = absorb_spec inst (STEPS_BIG_esch inst) ?c ?p ?s"
    by (simp add: Esch_ProcessMessage_def absorb_loop_spec add_msg_blk_last_def Let_def
        absorb_spec_step [OF p s] del: One_nat_def)
  then show "crypto_hash_from inst junk aligned msg = esch_spec inst msg"
    by (simp add: crypto_hash_from_def esch_spec_def Esch_Initialize_zero [OF assms]
        Esch_Finalize_def squeeze_steps Let_def)
  have "length (esch_spec inst msg) = ESCH_DIGEST_BYTES inst"
    unfolding esch_spec_def Let_def
    by (intro length_squeeze length_absorb_spec p s)
  then show "length (crypto_hash_from inst junk aligned msg) = ESCH_DIGEST_BYTES inst"
    using \<open>crypto_hash_from inst junk aligned msg = esch_spec inst msg\<close> by simp
qed

lemma crypto_hash_length: "length (crypto_hash inst aligned msg) = ESCH_DIGEST_BYTES inst"
  by (simp add: crypto_hash_def crypto_hash_from_spec(2))

section \<open>Properties\<close>

text \<open>
  C17: the optimised hash, which injects the domain constant directly and omits the zero
  padding of the blocks, computes the hash of the specification, for both instances, every
  message, aligned or not, and whatever the state array held before the call; the digest
  has the length the header announces.
\<close>

theorem crypto_hash_spec:
  assumes "length junk = STATE_WORDS_esch inst"
  shows "crypto_hash_from inst junk aligned msg = esch_spec inst msg \<and>
         length (crypto_hash_from inst junk aligned msg) = ESCH_DIGEST_BYTES inst"
  using crypto_hash_from_spec [OF assms] by simp

theorem crypto_hash_spec_witness:
  "length (replicate 12 (7 :: u32)) = STATE_WORDS_esch ESCH256 \<and>
   crypto_hash_from ESCH256 (replicate 12 7) True [1, 2, 3] = esch_spec ESCH256 [1, 2, 3]"
  using crypto_hash_spec [of "replicate 12 7" ESCH256 True "[1, 2, 3]"]
  by (simp add: esch_inst_defs)

end
