(* ===== verification/Utils.thy ===== *)
theory Utils
  imports Esch
begin

text \<open>
  The configuration of the secure element (\<^verbatim>\<open>runtime/SEconfig.h\<close>,
  \<^verbatim>\<open>runtime/crypto_len.h\<close>) and the byte conversions of \<^verbatim>\<open>runtime/utils.c\<close>. A pointer to
  bytes is the list of the bytes from there to the end of the array, so that a read behind
  the end is the error \<open>OutOfBounds\<close>; a byte count is a natural number; a destination
  array is the list returned. The conversions are proved to be the big-endian ones and to
  be inverse to each other.
\<close>

section \<open>Configuration\<close>

definition VERSION :: nat where "VERSION = 0"
definition WORD_SIZE :: nat where "WORD_SIZE = 32"

datatype se_size = SE_SMALL | SE_MEDIUM | SE_LARGE | SE_EXTRALARGE

text \<open>The size the header selects.\<close>

definition SE_SIZE :: se_size where "SE_SIZE = SE_SMALL"

fun max_input_count :: "se_size \<Rightarrow> nat" where
  "max_input_count SE_SMALL = 8"
| "max_input_count SE_MEDIUM = 16"
| "max_input_count SE_LARGE = 32"
| "max_input_count SE_EXTRALARGE = 64"

fun max_output_count :: "se_size \<Rightarrow> nat" where
  "max_output_count SE_SMALL = 8"
| "max_output_count SE_MEDIUM = 16"
| "max_output_count SE_LARGE = 32"
| "max_output_count SE_EXTRALARGE = 64"

fun register_count :: "se_size \<Rightarrow> nat" where
  "register_count SE_SMALL = 40"
| "register_count SE_MEDIUM = 80"
| "register_count SE_LARGE = 160"
| "register_count SE_EXTRALARGE = 320"

fun lls_max_length :: "se_size \<Rightarrow> nat" where
  "lls_max_length SE_SMALL = 32"
| "lls_max_length SE_MEDIUM = 64"
| "lls_max_length SE_LARGE = 128"
| "lls_max_length SE_EXTRALARGE = 256"

definition LLMI_MAX_INPUT_COUNT :: nat where
  "LLMI_MAX_INPUT_COUNT = max_input_count SE_SIZE"

definition LLMI_MAX_OUTPUT_COUNT :: nat where
  "LLMI_MAX_OUTPUT_COUNT = max_output_count SE_SIZE"

definition REGISTER_COUNT :: nat where
  "REGISTER_COUNT = register_count SE_SIZE"

definition LLS_MAX_LENGTH :: nat where
  "LLS_MAX_LENGTH = lls_max_length SE_SIZE"

definition l_out :: nat where
  "l_out = LLMI_MAX_OUTPUT_COUNT"

text \<open>The machine word of the secure element: \<^verbatim>\<open>unsigned int\<close>, since \<^verbatim>\<open>WORD_SIZE\<close> is not 64.\<close>

type_synonym uSE = u32

definition WORD_INBYTES :: nat where "WORD_INBYTES = WORD_SIZE div 8"
definition U32_INBYTES :: nat where "U32_INBYTES = 4"
definition CT_SEPUB_INBYTES :: nat where "CT_SEPUB_INBYTES = 64"
definition MAC_INBYTES :: nat where "MAC_INBYTES = 16"
definition NONCE_INBYTES :: nat where "NONCE_INBYTES = 32"
definition HASH_INBYTES :: nat where "HASH_INBYTES = 32"
definition BATCH_INBYTES :: nat where "BATCH_INBYTES = LLMI_MAX_OUTPUT_COUNT * (WORD_SIZE div 8)"
definition SHAREDKEY_INBYTES :: nat where "SHAREDKEY_INBYTES = 16"

definition ENCRYPTED_SHAREDKEY_INBYTES :: nat where
  "ENCRYPTED_SHAREDKEY_INBYTES = SHAREDKEY_INBYTES + MAC_INBYTES"

definition CIN_INBYTES :: nat where "CIN_INBYTES = MAC_INBYTES"
definition AIN_INBYTES :: nat where "AIN_INBYTES = 2 * HASH_INBYTES + U32_INBYTES"
definition C_INBYTES :: nat where "C_INBYTES = WORD_INBYTES + MAC_INBYTES"
definition A_INBYTES :: nat where "A_INBYTES = 2 * U32_INBYTES + HASH_INBYTES"
definition FLAG_INBYTES :: nat where "FLAG_INBYTES = 1"

lemmas config_defs =
  VERSION_def WORD_SIZE_def SE_SIZE_def LLMI_MAX_INPUT_COUNT_def LLMI_MAX_OUTPUT_COUNT_def
  REGISTER_COUNT_def LLS_MAX_LENGTH_def l_out_def WORD_INBYTES_def U32_INBYTES_def
  CT_SEPUB_INBYTES_def MAC_INBYTES_def NONCE_INBYTES_def HASH_INBYTES_def BATCH_INBYTES_def
  SHAREDKEY_INBYTES_def ENCRYPTED_SHAREDKEY_INBYTES_def CIN_INBYTES_def AIN_INBYTES_def
  C_INBYTES_def A_INBYTES_def FLAG_INBYTES_def

section \<open>Loading integers\<close>

definition load_u32 :: "u8 list \<Rightarrow> nat \<Rightarrow> u32 res" where
  "load_u32 bytes bytelen =
     (if bytelen = 1 then
        bindr (read_bytes bytes 1) (\<lambda>b. Inr (ucast (b ! 0)))
      else if bytelen = 2 then
        bindr (read_bytes bytes 2) (\<lambda>b. Inr (
          push_bit 8 (ucast (b ! 0)) OR ucast (b ! 1)))
      else if bytelen = 3 then
        bindr (read_bytes bytes 3) (\<lambda>b. Inr (
          push_bit 16 (ucast (b ! 0)) OR push_bit 8 (ucast (b ! 1)) OR ucast (b ! 2)))
      else if bytelen = 4 then
        bindr (read_bytes bytes 4) (\<lambda>b. Inr (
          push_bit 24 (ucast (b ! 0)) OR push_bit 16 (ucast (b ! 1)) OR
          push_bit 8 (ucast (b ! 2)) OR ucast (b ! 3)))
      else Inl (InvalidByteCount bytelen))"

definition load_u64 :: "u8 list \<Rightarrow> nat \<Rightarrow> u64 res" where
  "load_u64 bytes bytelen =
     (if bytelen = 1 then
        bindr (read_bytes bytes 1) (\<lambda>b. Inr (ucast (b ! 0)))
      else if bytelen = 2 then
        bindr (read_bytes bytes 2) (\<lambda>b. Inr (
          push_bit 8 (ucast (b ! 0)) OR ucast (b ! 1)))
      else if bytelen = 3 then
        bindr (read_bytes bytes 3) (\<lambda>b. Inr (
          push_bit 16 (ucast (b ! 0)) OR push_bit 8 (ucast (b ! 1)) OR ucast (b ! 2)))
      else if bytelen = 4 then
        bindr (read_bytes bytes 4) (\<lambda>b. Inr (
          push_bit 24 (ucast (b ! 0)) OR push_bit 16 (ucast (b ! 1)) OR
          push_bit 8 (ucast (b ! 2)) OR ucast (b ! 3)))
      else if bytelen = 5 then
        bindr (read_bytes bytes 5) (\<lambda>b. Inr (
          push_bit 32 (ucast (b ! 0)) OR push_bit 24 (ucast (b ! 1)) OR
          push_bit 16 (ucast (b ! 2)) OR push_bit 8 (ucast (b ! 3)) OR ucast (b ! 4)))
      else if bytelen = 6 then
        bindr (read_bytes bytes 6) (\<lambda>b. Inr (
          push_bit 40 (ucast (b ! 0)) OR push_bit 32 (ucast (b ! 1)) OR
          push_bit 24 (ucast (b ! 2)) OR push_bit 16 (ucast (b ! 3)) OR
          push_bit 8 (ucast (b ! 4)) OR ucast (b ! 5)))
      else if bytelen = 7 then
        bindr (read_bytes bytes 7) (\<lambda>b. Inr (
          push_bit 48 (ucast (b ! 0)) OR push_bit 40 (ucast (b ! 1)) OR
          push_bit 32 (ucast (b ! 2)) OR push_bit 24 (ucast (b ! 3)) OR
          push_bit 16 (ucast (b ! 4)) OR push_bit 8 (ucast (b ! 5)) OR ucast (b ! 6)))
      else if bytelen = 8 then
        bindr (read_bytes bytes 8) (\<lambda>b. Inr (
          push_bit 56 (ucast (b ! 0)) OR push_bit 48 (ucast (b ! 1)) OR
          push_bit 40 (ucast (b ! 2)) OR push_bit 32 (ucast (b ! 3)) OR
          push_bit 24 (ucast (b ! 4)) OR push_bit 16 (ucast (b ! 5)) OR
          push_bit 8 (ucast (b ! 6)) OR ucast (b ! 7)))
      else Inl (InvalidByteCount bytelen))"

section \<open>Storing integers\<close>

text \<open>The assignment of an integer to a \<^verbatim>\<open>u8\<close> keeps its low byte.\<close>

definition u32_tobytes :: "nat \<Rightarrow> u32 \<Rightarrow> u8 list res" where
  "u32_tobytes bytelen num =
     (if bytelen = 1 then Inr [ucast num]
      else if bytelen = 2 then Inr [ucast (drop_bit 8 num), ucast num]
      else if bytelen = 3 then Inr [ucast (drop_bit 16 num), ucast (drop_bit 8 num), ucast num]
      else if bytelen = 4 then
        Inr [ucast (drop_bit 24 num), ucast (drop_bit 16 num), ucast (drop_bit 8 num), ucast num]
      else Inl (InvalidByteCount bytelen))"

definition u64_tobytes :: "nat \<Rightarrow> u64 \<Rightarrow> u8 list res" where
  "u64_tobytes bytelen num =
     (if bytelen = 1 then Inr [ucast num]
      else if bytelen = 2 then Inr [ucast (drop_bit 8 num), ucast num]
      else if bytelen = 3 then Inr [ucast (drop_bit 16 num), ucast (drop_bit 8 num), ucast num]
      else if bytelen = 4 then
        Inr [ucast (drop_bit 24 num), ucast (drop_bit 16 num), ucast (drop_bit 8 num), ucast num]
      else if bytelen = 5 then
        Inr [ucast (drop_bit 32 num), ucast (drop_bit 24 num), ucast (drop_bit 16 num),
             ucast (drop_bit 8 num), ucast num]
      else if bytelen = 6 then
        Inr [ucast (drop_bit 40 num), ucast (drop_bit 32 num), ucast (drop_bit 24 num),
             ucast (drop_bit 16 num), ucast (drop_bit 8 num), ucast num]
      else if bytelen = 7 then
        Inr [ucast (drop_bit 48 num), ucast (drop_bit 40 num), ucast (drop_bit 32 num),
             ucast (drop_bit 24 num), ucast (drop_bit 16 num), ucast (drop_bit 8 num), ucast num]
      else if bytelen = 8 then
        Inr [ucast (drop_bit 56 num), ucast (drop_bit 48 num), ucast (drop_bit 40 num),
             ucast (drop_bit 32 num), ucast (drop_bit 24 num), ucast (drop_bit 16 num),
             ucast (drop_bit 8 num), ucast num]
      else Inl (InvalidByteCount bytelen))"

section \<open>Words and batches\<close>

text \<open>
  \<^verbatim>\<open>switch (WORD_SIZE)\<close>: the configured size is a constant, the other branches call the
  64-bit functions with the word widened.
\<close>

definition word_tobytes :: "uSE \<Rightarrow> u8 list res" where
  "word_tobytes x =
     (if WORD_SIZE = 32 then u32_tobytes (WORD_SIZE div 8) x
      else if WORD_SIZE = 64 then u64_tobytes (WORD_SIZE div 8) (ucast x)
      else Inl UnsupportedWordSize)"

definition load_word :: "u8 list \<Rightarrow> nat \<Rightarrow> uSE res" where
  "load_word bytes bytelen =
     (if WORD_SIZE = 32 then load_u32 bytes bytelen
      else if WORD_SIZE = 64 then bindr (load_u64 bytes bytelen) (\<lambda>w. Inr (ucast w))
      else Inl UnsupportedWordSize)"

definition batch_tobytes :: "uSE list \<Rightarrow> u8 list res" where
  "batch_tobytes X =
     (if WORD_SIZE = 32 then
        foldM (\<lambda>i Xbstr. bindr (read_at X i) (\<lambda>x. bindr (u32_tobytes 4 x) (\<lambda>b. Inr (Xbstr @ b))))
          [0..<l_out] []
      else if WORD_SIZE = 64 then
        foldM (\<lambda>i Xbstr. bindr (read_at X i) (\<lambda>x. bindr (u64_tobytes 8 (ucast x)) (\<lambda>b. Inr (Xbstr @ b))))
          [0..<l_out] []
      else Inl UnsupportedWordSize)"

text \<open>
  The digest of the previous digest followed by a batch. The alignment of the local array
  does not matter, it is taken to be unaligned.
\<close>

definition hashchain :: "u8 list \<Rightarrow> uSE list \<Rightarrow> u8 list res" where
  "hashchain Hp X =
     bindr (batch_tobytes X) (\<lambda>Xbstr.
     bindr (read_bytes Hp HASH_INBYTES) (\<lambda>h.
       let msg = h @ Xbstr in Inr (crypto_hash ESCH_INST False msg)))"

section \<open>Big-endian numbers\<close>

text \<open>The number with the given base-256 digits, most significant first.\<close>

definition be_nat :: "u8 list \<Rightarrow> nat" where
  "be_nat bs = fold (\<lambda>b n. 256 * n + unat b) bs 0"

text \<open>The word the shifts of the sources assemble, and the bytes they take apart.\<close>

fun be_word :: "u8 list \<Rightarrow> 'a::len word" where
  "be_word [] = 0"
| "be_word (b # bs) = push_bit (8 * length bs) (ucast b) OR be_word bs"

fun be_bytes :: "nat \<Rightarrow> 'a::len word \<Rightarrow> u8 list" where
  "be_bytes 0 w = []"
| "be_bytes (Suc n) w = ucast (drop_bit (8 * n) w) # be_bytes n w"

lemma length_be_bytes [simp]: "length (be_bytes n w) = n"
  by (induction n) auto

lemma fold_be: "fold (\<lambda>b n. 256 * n + unat b) bs a = a * 256 ^ length bs + be_nat bs"
proof (induction bs arbitrary: a)
  case (Cons b bs)
  have "be_nat (b # bs) = unat b * 256 ^ length bs + be_nat bs"
    using Cons [of "unat b"] by (simp add: be_nat_def)
  then show ?case using Cons [of "256 * a + unat b"] by (simp add: algebra_simps)
qed (simp add: be_nat_def)

lemma be_nat_Cons: "be_nat (b # bs) = unat b * 256 ^ length bs + be_nat bs"
  by (simp add: be_nat_def [of "b # bs"] fold_be)

lemma be_nat_less: "be_nat bs < 256 ^ length bs"
proof (induction bs)
  case (Cons b bs)
  have "Suc (unat b) \<le> 256" using unsigned_less [of b, where 'a = nat] by simp
  then have "Suc (unat b) * 256 ^ length bs \<le> 256 * 256 ^ length bs" by (rule mult_le_mono1)
  then have "unat b * 256 ^ length bs + be_nat bs < 256 * 256 ^ length bs"
    using Cons unfolding mult_Suc by linarith
  then show ?case by (simp add: be_nat_Cons)
qed (simp add: be_nat_def)

lemma push_bit_or_nat: "y < 2 ^ k \<Longrightarrow> push_bit k x OR y = x * 2 ^ k + (y :: nat)"
proof -
  assume "y < 2 ^ k"
  then have "take_bit k y = y" by (rule take_bit_nat_eq_self)
  then have "\<not> bit y n" if "k \<le> n" for n
    using that bit_take_bit_iff [of k y n] by simp
  then have "push_bit k x AND y = 0"
    by (intro bit_eqI) (auto simp: bit_simps)
  then show ?thesis by (simp add: disjunctive_add_eq_or push_bit_eq_mult flip: disjunctive_add_eq_or)
qed

lemma unat_be_word:
  "8 * length bs \<le> LENGTH('a::len) \<Longrightarrow> unat (be_word bs :: 'a word) = be_nat bs"
proof (induction bs)
  case (Cons b bs)
  have p: "(256 :: nat) ^ length bs = 2 ^ (8 * length bs)" by (simp add: power_mult)
  have "unat b < 2 ^ 8" using unsigned_less [of b, where 'a = nat] by simp
  then have "unat b * 2 ^ (8 * length bs) < 2 ^ 8 * 2 ^ (8 * length bs)" by simp
  also have "\<dots> \<le> (2 :: nat) ^ LENGTH('a)"
    using Cons.prems by (subst power_add [symmetric]) (rule power_increasing, auto)
  finally have fits: "unat b * 2 ^ (8 * length bs) < 2 ^ LENGTH('a)" .
  have "unat b < 2 ^ LENGTH('a)"
    using fits by (rule le_less_trans [rotated]) simp
  then have "unat (ucast b :: 'a word) = unat b"
    by (simp add: unsigned_ucast_eq take_bit_nat_eq_self)
  then have "unat (push_bit (8 * length bs) (ucast b :: 'a word)) = push_bit (8 * length bs) (unat b)"
    using fits by (subst unsigned_push_bit_eq) (simp add: push_bit_eq_mult take_bit_nat_eq_self)
  then show ?case
    using Cons be_nat_less [of bs] p
    by (simp add: unsigned_or_eq push_bit_or_nat be_nat_Cons)
qed (simp add: be_nat_def)

lemma bit_be_word_less: "bit (be_word bs :: 'a::len word) n \<Longrightarrow> n < 8 * length bs"
proof (induction bs)
  case (Cons b bs)
  then show ?case
    by (cases "8 * length bs \<le> n") (auto simp: bit_simps dest: bit_imp_le_length)
qed simp

lemma be_word_bytes: "be_word (be_bytes n w) = take_bit (8 * n) (w :: 'a::len word)"
proof (induction n)
  case (Suc n)
  show ?case
  proof (rule bit_word_eqI)
    fix m assume m: "m < LENGTH('a)"
    consider "m < 8 * n" | "8 * n \<le> m" "m < 8 * Suc n" | "8 * Suc n \<le> m" by linarith
    then show "bit (be_word (be_bytes (Suc n) w) :: 'a word) m = bit (take_bit (8 * Suc n) w) m"
      by cases (use Suc m in \<open>auto simp: bit_simps\<close>)
  qed
qed simp

lemma be_bytes_cong:
  "take_bit (8 * n) v = take_bit (8 * n) (w :: 'a::len word) \<Longrightarrow> be_bytes n v = be_bytes n w"
proof (induction n)
  case (Suc n)
  have bits: "bit v m = bit w m" if "m < 8 * Suc n" for m
    using that arg_cong [OF Suc.prems, of "\<lambda>x. bit x m"] by (simp add: bit_simps)
  then have "be_bytes n v = be_bytes n w"
    by (intro Suc.IH bit_eqI) (auto simp: bit_simps)
  moreover have "ucast (drop_bit (8 * n) v) = (ucast (drop_bit (8 * n) w) :: u8)"
    by (rule bit_word_eqI) (use bits in \<open>auto simp: bit_simps\<close>)
  ultimately show ?case by simp
qed simp

lemma be_bytes_word:
  "8 * length bs \<le> LENGTH('a::len) \<Longrightarrow> be_bytes (length bs) (be_word bs :: 'a word) = bs"
proof (induction bs)
  case (Cons b bs)
  let ?w = "be_word (b # bs) :: 'a word"
  have "be_bytes (length bs) ?w = be_bytes (length bs) (be_word bs :: 'a word)"
    by (rule be_bytes_cong) (auto intro!: bit_eqI simp: bit_simps)
  moreover have "ucast (drop_bit (8 * length bs) ?w) = b"
    using Cons.prems
    by (intro bit_word_eqI) (auto simp: bit_simps dest: bit_be_word_less)
  ultimately show ?case using Cons by simp
qed simp

lemma be_nat_bytes:
  assumes "8 * n \<le> LENGTH('a::len)"
  shows "be_nat (be_bytes n (w :: 'a word)) = unat w mod 256 ^ n"
proof -
  have "be_nat (be_bytes n w) = unat (take_bit (8 * n) w)"
    using assms unat_be_word [of "be_bytes n w", where 'a = 'a] by (simp add: be_word_bytes)
  also have "\<dots> = take_bit (8 * n) (unat w)" by (rule unsigned_take_bit_eq)
  also have "\<dots> = unat w mod 256 ^ n" by (simp add: take_bit_eq_mod power_mult)
  finally show ?thesis .
qed

section \<open>The conversions are the big-endian ones\<close>

lemma read_bytes_eq_Inr [res_simps]:
  "read_bytes xs n = Inr ys \<longleftrightarrow> n \<le> length xs \<and> ys = take n xs"
  by (auto simp: read_bytes_def)

lemma be_bytes_numeral [byte_simps]:
  "be_bytes (numeral k) w =
     ucast (drop_bit (8 * pred_numeral k) w) # be_bytes (pred_numeral k) w"
  by (simp add: numeral_eq_Suc)

lemma up_to_4: "n \<in> {1..4} \<longleftrightarrow> n = 1 \<or> n = 2 \<or> n = 3 \<or> n = (4 :: nat)"
  by auto

lemma up_to_8:
  "n \<in> {1..8} \<longleftrightarrow> n = 1 \<or> n = 2 \<or> n = 3 \<or> n = 4 \<or> n = 5 \<or> n = 6 \<or> n = 7 \<or> n = (8 :: nat)"
  by auto

lemmas byte_list_simps = res_simps loop_simps Suc_le_length_iff take_Cons_numeral

lemma load_u32_be:
  assumes "n \<in> {1..4}"
  shows "load_u32 bs n = bindr (read_bytes bs n) (\<lambda>b. Inr (be_word b))"
  using assms unfolding up_to_4
  by (elim disjE; simp add: load_u32_def; intro bindr_cong; clarsimp simp: byte_list_simps)

lemma load_u64_be:
  assumes "n \<in> {1..8}"
  shows "load_u64 bs n = bindr (read_bytes bs n) (\<lambda>b. Inr (be_word b))"
  using assms unfolding up_to_8
  by (elim disjE; simp add: load_u64_def; intro bindr_cong; clarsimp simp: byte_list_simps)

lemma u32_tobytes_be: "n \<in> {1..4} \<Longrightarrow> u32_tobytes n w = Inr (be_bytes n w)"
  unfolding up_to_4 by (elim disjE) (simp_all add: u32_tobytes_def byte_simps)

lemma u64_tobytes_be: "n \<in> {1..8} \<Longrightarrow> u64_tobytes n w = Inr (be_bytes n w)"
  unfolding up_to_8 by (elim disjE) (simp_all add: u64_tobytes_def byte_simps)

lemma invalid_byte_count:
  "n \<notin> {1..4} \<Longrightarrow> load_u32 bs n = Inl (InvalidByteCount n)"
  "n \<notin> {1..4} \<Longrightarrow> u32_tobytes n w = Inl (InvalidByteCount n)"
  "n \<notin> {1..8} \<Longrightarrow> load_u64 bs n = Inl (InvalidByteCount n)"
  "n \<notin> {1..8} \<Longrightarrow> u64_tobytes n v = Inl (InvalidByteCount n)"
  by (auto simp: load_u32_def u32_tobytes_def load_u64_def u64_tobytes_def)

lemma load_u32_append [simp]:
  "n \<in> {1..4} \<Longrightarrow> length b = n \<Longrightarrow> load_u32 (b @ bs) n = Inr (be_word b)"
  by (simp add: load_u32_be)

lemma load_word_u32: "load_word = load_u32"
  by (simp add: load_word_def WORD_SIZE_def fun_eq_iff)

lemma word_tobytes_be: "word_tobytes x = Inr (be_bytes 4 x)"
  by (simp add: word_tobytes_def WORD_SIZE_def u32_tobytes_be)

lemma batch_tobytes_be:
  assumes "length X = l_out"
  shows "batch_tobytes X = Inr (concat (map (be_bytes 4) X))"
proof -
  have "foldM (\<lambda>i s. bindr (read_at X i) (\<lambda>x. bindr (u32_tobytes 4 x) (\<lambda>b. Inr (s @ b)))) [0..<n] []
      = Inr (concat (map (be_bytes 4) (take n X)))" if "n \<le> length X" for n
    using that
  proof (induction n)
    case (Suc n)
    then show ?case by (simp add: foldM_append u32_tobytes_be take_Suc_conv_app_nth)
  qed simp
  then show ?thesis using assms by (simp add: batch_tobytes_def WORD_SIZE_def)
qed

lemma hashchain_eq:
  assumes "length X = l_out" and "length Hp = HASH_INBYTES"
  shows "hashchain Hp X = Inr (crypto_hash ESCH_INST False (Hp @ concat (map (be_bytes 4) X)))"
  using assms by (simp add: hashchain_def batch_tobytes_be)

lemma length_crypto_hash [simp]: "length (crypto_hash ESCH_INST al msg) = HASH_INBYTES"
  using crypto_hash_length by (simp add: crypto_hash_def ESCH_INST_def HASH_INBYTES_def)

section \<open>Properties\<close>

text \<open>
  \<open>load_u32\<close> and \<open>load_u64\<close> return the number whose base-256 digits are the bytes
  (most significant first), for every admissible byte count; \<open>u32_tobytes\<close> and
  \<open>u64_tobytes\<close> write the digits of the number modulo \<open>256 ^ n\<close>; and loading undoes storing
  and storing undoes loading.
\<close>

theorem load_store_roundtrip:
  assumes "n \<in> {1..4}" and "k \<in> {1..8}" and "length b = n" and "length c = k"
  shows "(\<exists>w. load_u32 (b @ rest) n = Inr w \<and> unat w = be_nat b \<and> u32_tobytes n w = Inr b) \<and>
         (\<exists>w. load_u64 (c @ rest) k = Inr w \<and> unat w = be_nat c \<and> u64_tobytes k w = Inr c) \<and>
         (\<exists>d. u32_tobytes n x = Inr d \<and> length d = n \<and> be_nat d = unat x mod 256 ^ n) \<and>
         (\<exists>d. u64_tobytes k y = Inr d \<and> length d = k \<and> be_nat d = unat y mod 256 ^ k)"
proof (intro conjI)
  show "\<exists>w. load_u32 (b @ rest) n = Inr w \<and> unat w = be_nat b \<and> u32_tobytes n w = Inr b"
    using assms unat_be_word [of b, where 'a = 32] be_bytes_word [of b, where 'a = 32]
    by (auto simp: u32_tobytes_be)
  show "\<exists>w. load_u64 (c @ rest) k = Inr w \<and> unat w = be_nat c \<and> u64_tobytes k w = Inr c"
    using assms unat_be_word [of c, where 'a = 64] be_bytes_word [of c, where 'a = 64]
    by (auto simp: load_u64_be u64_tobytes_be)
  show "\<exists>d. u32_tobytes n x = Inr d \<and> length d = n \<and> be_nat d = unat x mod 256 ^ n"
    using assms(1) by (simp add: u32_tobytes_be be_nat_bytes)
  show "\<exists>d. u64_tobytes k y = Inr d \<and> length d = k \<and> be_nat d = unat y mod 256 ^ k"
    using assms(2) by (simp add: u64_tobytes_be be_nat_bytes)
qed

theorem load_store_roundtrip_witness:
  "(\<exists>w. load_u32 ([1, 2, 3] @ [9]) 3 = Inr w \<and> unat w = be_nat [1, 2, 3] \<and> u32_tobytes 3 w = Inr [1, 2, 3])"
  using load_store_roundtrip [of 3 1 "[1, 2, 3]" "[7]" "[9]" 5 6] by simp

end
