(* ===== verification/AEAD_Interface.thy ===== *)
theory AEAD_Interface
  imports Prelude
begin

text \<open>
  What the callers of an authenticated cipher rely on. The functions have the signature of
  \<^verbatim>\<open>crypto_aead_encrypt\<close> and \<^verbatim>\<open>crypto_aead_decrypt\<close> in the sources: message (or
  ciphertext with the tag behind it), associated data, nonce, key; decryption returns 0 or -1
  and the text it has written. \<open>ok\<close> says which nonces and keys have the right size. The
  contract is interpreted on SCHWAEMM, TinyJAMBU and Ascon.
\<close>

locale aead =
  fixes enc :: "u8 list \<Rightarrow> u8 list \<Rightarrow> u8 list \<Rightarrow> u8 list \<Rightarrow> u8 list"
    and dec :: "u8 list \<Rightarrow> u8 list \<Rightarrow> u8 list \<Rightarrow> u8 list \<Rightarrow> (int \<times> u8 list) res"
    and ok :: "u8 list \<Rightarrow> u8 list \<Rightarrow> bool"
    and tag_len :: nat
  assumes dec_enc: "ok n k \<Longrightarrow> dec (enc m ad n k) ad n k = Inr (0, m)"
    and enc_dec: "ok n k \<Longrightarrow> dec c ad n k = Inr (0, m) \<Longrightarrow> enc m ad n k = c"
    and length_enc: "ok n k \<Longrightarrow> length (enc m ad n k) = length m + tag_len"
begin

lemma dec_iff: "ok n k \<Longrightarrow> dec c ad n k = Inr (0, m) \<longleftrightarrow> c = enc m ad n k"
  by (rule iffI, erule (1) enc_dec [symmetric]) (simp add: dec_enc)

lemma enc_inject: "ok n k \<Longrightarrow> enc m ad n k = enc m' ad n k \<longleftrightarrow> m = m'"
  using dec_iff [of n k "enc m ad n k" ad m] dec_iff [of n k "enc m ad n k" ad m']
  by (cases "dec (enc m ad n k) ad n k") auto

lemma dec_rejects: "ok n k \<Longrightarrow> (\<And>m. c \<noteq> enc m ad n k) \<Longrightarrow> dec c ad n k \<noteq> Inr (0, m)"
  by (simp add: dec_iff)

lemma length_dec: "ok n k \<Longrightarrow> dec c ad n k = Inr (0, m) \<Longrightarrow> length c = length m + tag_len"
  using enc_dec [of n k c ad m] length_enc [of n k m ad] by auto

end

end
