(* ===== verification/Schwaemm.thy ===== *)
theory Schwaemm
  imports Sparkle AEAD_Interface
begin

text \<open>
  The authenticated cipher SCHWAEMM of \<^verbatim>\<open>runtime/sparkle/schwaemm/schwaemm.c\<close> (the file
  \<^verbatim>\<open>compiler/schwaemm/schwaemm/schwaemm.c\<close> is the same code calling the copy of
  \<open>sparkle\<close> beside it). All four instances the preprocessor can select are modelled: an
  instance is a value of \<open>schwaemm_inst\<close>, and \<open>SCHWAEMM_INST\<close> is the one the header
  selects. A \<^verbatim>\<open>const uint8_t *\<close> argument is the list of the bytes it points to, a
  \<^verbatim>\<open>uint8_t *out\<close> argument is a returned list of bytes. Whether a pointer is aligned for a
  cast to \<^verbatim>\<open>uint32_t *\<close> is a boolean argument, as the C code computes it from the address.
\<close>

section \<open>Instances\<close>

datatype schwaemm_inst = S128128 | S256128 | S192192 | S256256

definition SCHWAEMM_INST :: schwaemm_inst where
  "SCHWAEMM_INST = S256128"

fun STATE_BYTES :: "schwaemm_inst \<Rightarrow> nat" where
  "STATE_BYTES S128128 = 32"
| "STATE_BYTES S256128 = 48"
| "STATE_BYTES S192192 = 48"
| "STATE_BYTES S256256 = 64"

fun RATE_BYTES :: "schwaemm_inst \<Rightarrow> nat" where
  "RATE_BYTES S128128 = 16"
| "RATE_BYTES S256128 = 32"
| "RATE_BYTES S192192 = 24"
| "RATE_BYTES S256256 = 32"

fun STEPS_SLIM :: "schwaemm_inst \<Rightarrow> nat" where
  "STEPS_SLIM S128128 = 7"
| "STEPS_SLIM S256128 = 7"
| "STEPS_SLIM S192192 = 7"
| "STEPS_SLIM S256256 = 8"

fun STEPS_BIG :: "schwaemm_inst \<Rightarrow> nat" where
  "STEPS_BIG S128128 = 10"
| "STEPS_BIG S256128 = 11"
| "STEPS_BIG S192192 = 11"
| "STEPS_BIG S256256 = 12"

fun SCHWAEMM_KEY_BYTES :: "schwaemm_inst \<Rightarrow> nat" where
  "SCHWAEMM_KEY_BYTES S128128 = 16"
| "SCHWAEMM_KEY_BYTES S256128 = 16"
| "SCHWAEMM_KEY_BYTES S192192 = 24"
| "SCHWAEMM_KEY_BYTES S256256 = 32"

fun SCHWAEMM_NONCE_BYTES :: "schwaemm_inst \<Rightarrow> nat" where
  "SCHWAEMM_NONCE_BYTES S128128 = 16"
| "SCHWAEMM_NONCE_BYTES S256128 = 32"
| "SCHWAEMM_NONCE_BYTES S192192 = 24"
| "SCHWAEMM_NONCE_BYTES S256256 = 32"

fun SCHWAEMM_TAG_BYTES :: "schwaemm_inst \<Rightarrow> nat" where
  "SCHWAEMM_TAG_BYTES S128128 = 16"
| "SCHWAEMM_TAG_BYTES S256128 = 16"
| "SCHWAEMM_TAG_BYTES S192192 = 24"
| "SCHWAEMM_TAG_BYTES S256256 = 32"

definition SCHWAEMM_KEY_WORDS :: "schwaemm_inst \<Rightarrow> nat" where
  "SCHWAEMM_KEY_WORDS inst = SCHWAEMM_KEY_BYTES inst div 4"

definition SCHWAEMM_TAG_WORDS :: "schwaemm_inst \<Rightarrow> nat" where
  "SCHWAEMM_TAG_WORDS inst = SCHWAEMM_TAG_BYTES inst div 4"

definition STATE_BRANS :: "schwaemm_inst \<Rightarrow> nat" where
  "STATE_BRANS inst = STATE_BYTES inst div 8"

definition STATE_WORDS :: "schwaemm_inst \<Rightarrow> nat" where
  "STATE_WORDS inst = STATE_BYTES inst div 4"

definition RATE_WORDS :: "schwaemm_inst \<Rightarrow> nat" where
  "RATE_WORDS inst = RATE_BYTES inst div 4"

definition CAP_BYTES :: "schwaemm_inst \<Rightarrow> nat" where
  "CAP_BYTES inst = STATE_BYTES inst - RATE_BYTES inst"

definition CAP_BRANS :: "schwaemm_inst \<Rightarrow> nat" where
  "CAP_BRANS inst = CAP_BYTES inst div 8"

definition CAP_WORDS :: "schwaemm_inst \<Rightarrow> nat" where
  "CAP_WORDS inst = CAP_BYTES inst div 4"

definition CONST_A0 :: "schwaemm_inst \<Rightarrow> u32" where
  "CONST_A0 inst = push_bit 24 (0 XOR push_bit (CAP_BRANS inst) 1)"

definition CONST_A1 :: "schwaemm_inst \<Rightarrow> u32" where
  "CONST_A1 inst = push_bit 24 (1 XOR push_bit (CAP_BRANS inst) 1)"

definition CONST_M2 :: "schwaemm_inst \<Rightarrow> u32" where
  "CONST_M2 inst = push_bit 24 (2 XOR push_bit (CAP_BRANS inst) 1)"

definition CONST_M3 :: "schwaemm_inst \<Rightarrow> u32" where
  "CONST_M3 inst = push_bit 24 (3 XOR push_bit (CAP_BRANS inst) 1)"

definition CAP_INDEX :: "schwaemm_inst \<Rightarrow> nat \<Rightarrow> nat" where
  "CAP_INDEX inst i =
     (if RATE_WORDS inst > CAP_WORDS inst then i AND (CAP_WORDS inst - 1) else i)"

section \<open>Rho and rate whitening\<close>

text \<open>The loop counters: \<open>i\<close> runs over the first half of the rate, \<open>j\<close> over the second.\<close>

definition half :: "schwaemm_inst \<Rightarrow> nat" where
  "half inst = RATE_WORDS inst div 2"

definition rho_aut_step :: "schwaemm_inst \<Rightarrow> u32 list \<Rightarrow> nat \<Rightarrow> u32 list \<Rightarrow> u32 list" where
  "rho_aut_step inst in32 i state =
     (let j = half inst + i;
          tmp = state ! i;
          state = state[i := state ! j XOR in32 ! i XOR state ! (RATE_WORDS inst + i)];
          state = state[j := state ! j XOR
                     (tmp XOR in32 ! j XOR state ! (RATE_WORDS inst + CAP_INDEX inst j))]
      in state)"

definition rho_whi_aut :: "schwaemm_inst \<Rightarrow> u32 list \<Rightarrow> u8 list \<Rightarrow> bool \<Rightarrow> u32 list" where
  "rho_whi_aut inst state inp aligned =
     (let in32 = (if aligned then words_of_bytes inp
                  else let buffer = words_of_bytes (take (RATE_BYTES inst) inp) in buffer)
      in fold (rho_aut_step inst in32) [0..<half inst] state)"

definition rho_whi_aut_last :: "schwaemm_inst \<Rightarrow> u32 list \<Rightarrow> u8 list \<Rightarrow> u32 list" where
  "rho_whi_aut_last inst state inp =
     (let buffer = words_of_bytes (pad_block (RATE_BYTES inst) inp)
      in fold (rho_aut_step inst buffer) [0..<half inst] state)"

text \<open>
  One iteration of the encryption loop, on two different arrays (the aligned case) and in
  place on the buffer.
\<close>

definition rho_enc_state :: "schwaemm_inst \<Rightarrow> u32 list \<Rightarrow> nat \<Rightarrow> u32 list \<Rightarrow> u32 list" where
  "rho_enc_state inst in32 i state =
     (let j = half inst + i;
          tmp1 = state ! i;
          state = state[i := state ! j XOR in32 ! i XOR state ! (RATE_WORDS inst + i)];
          state = state[j := state ! j XOR
                     (tmp1 XOR in32 ! j XOR state ! (RATE_WORDS inst + CAP_INDEX inst j))]
      in state)"

definition rho_enc_step2 ::
    "schwaemm_inst \<Rightarrow> u32 list \<Rightarrow> nat \<Rightarrow> u32 list \<times> u32 list \<Rightarrow> u32 list \<times> u32 list" where
  "rho_enc_step2 inst in32 i so =
     (let (state, out32) = so;
          j = half inst + i;
          tmp1 = state ! i; tmp2 = state ! j;
          state = rho_enc_state inst in32 i state;
          out32 = out32[i := in32 ! i XOR tmp1];
          out32 = out32[j := in32 ! j XOR tmp2]
      in (state, out32))"

definition rho_enc_step ::
    "schwaemm_inst \<Rightarrow> nat \<Rightarrow> u32 list \<times> u32 list \<Rightarrow> u32 list \<times> u32 list" where
  "rho_enc_step inst i sb =
     (let (state, buffer) = sb;
          j = half inst + i;
          tmp1 = state ! i; tmp2 = state ! j;
          state = rho_enc_state inst buffer i state;
          buffer = buffer[i := buffer ! i XOR tmp1];
          buffer = buffer[j := buffer ! j XOR tmp2]
      in (state, buffer))"

text \<open>
  \<^verbatim>\<open>rho_whi_enc\<close>: the new state and the \<^verbatim>\<open>RATE_BYTES\<close> bytes written to \<^verbatim>\<open>out\<close>. In the
  aligned case every word of \<^verbatim>\<open>out32\<close> is written, so its contents before do not matter.
\<close>

definition rho_whi_enc ::
    "schwaemm_inst \<Rightarrow> u32 list \<Rightarrow> u8 list \<Rightarrow> bool \<Rightarrow> u32 list \<times> u8 list" where
  "rho_whi_enc inst state inp aligned =
     (if aligned
      then let in32 = words_of_bytes inp;
               out32 = replicate (RATE_WORDS inst) 0;
               (state, out32) = fold (rho_enc_step2 inst in32) [0..<half inst] (state, out32)
           in (state, bytes_of_words out32)
      else let buffer = words_of_bytes (take (RATE_BYTES inst) inp);
               (state, buffer) = fold (rho_enc_step inst) [0..<half inst] (state, buffer)
           in (state, bytes_of_words buffer))"

definition rho_whi_enc_last ::
    "schwaemm_inst \<Rightarrow> u32 list \<Rightarrow> u8 list \<Rightarrow> u32 list \<times> u8 list" where
  "rho_whi_enc_last inst state inp =
     (let buffer = words_of_bytes (pad_block (RATE_BYTES inst) inp);
          (state, buffer) = fold (rho_enc_step inst) [0..<half inst] (state, buffer)
      in (state, take (length inp) (bytes_of_words buffer)))"

definition rho_dec_state :: "schwaemm_inst \<Rightarrow> u32 list \<Rightarrow> nat \<Rightarrow> u32 list \<Rightarrow> u32 list" where
  "rho_dec_state inst in32 i state =
     (let j = half inst + i;
          tmp1 = state ! i;
          state = state[i := state ! i XOR
                     (state ! j XOR in32 ! i XOR state ! (RATE_WORDS inst + i))];
          state = state[j := tmp1 XOR in32 ! j XOR state ! (RATE_WORDS inst + CAP_INDEX inst j)]
      in state)"

definition rho_dec_step2 ::
    "schwaemm_inst \<Rightarrow> u32 list \<Rightarrow> nat \<Rightarrow> u32 list \<times> u32 list \<Rightarrow> u32 list \<times> u32 list" where
  "rho_dec_step2 inst in32 i so =
     (let (state, out32) = so;
          j = half inst + i;
          tmp1 = state ! i; tmp2 = state ! j;
          state = rho_dec_state inst in32 i state;
          out32 = out32[i := in32 ! i XOR tmp1];
          out32 = out32[j := in32 ! j XOR tmp2]
      in (state, out32))"

definition rho_dec_step ::
    "schwaemm_inst \<Rightarrow> nat \<Rightarrow> u32 list \<times> u32 list \<Rightarrow> u32 list \<times> u32 list" where
  "rho_dec_step inst i sb =
     (let (state, buffer) = sb;
          j = half inst + i;
          tmp1 = state ! i; tmp2 = state ! j;
          state = rho_dec_state inst buffer i state;
          buffer = buffer[i := buffer ! i XOR tmp1];
          buffer = buffer[j := buffer ! j XOR tmp2]
      in (state, buffer))"

definition rho_whi_dec ::
    "schwaemm_inst \<Rightarrow> u32 list \<Rightarrow> u8 list \<Rightarrow> bool \<Rightarrow> u32 list \<times> u8 list" where
  "rho_whi_dec inst state inp aligned =
     (if aligned
      then let in32 = words_of_bytes inp;
               out32 = replicate (RATE_WORDS inst) 0;
               (state, out32) = fold (rho_dec_step2 inst in32) [0..<half inst] (state, out32)
           in (state, bytes_of_words out32)
      else let buffer = words_of_bytes (take (RATE_BYTES inst) inp);
               (state, buffer) = fold (rho_dec_step inst) [0..<half inst] (state, buffer)
           in (state, bytes_of_words buffer))"

text \<open>
  The last block of the decryption is completed with the bytes of the state, and its first
  padding byte is flipped by \<^verbatim>\<open>0x80\<close>.
\<close>

definition pad_block_dec :: "nat \<Rightarrow> u32 list \<Rightarrow> u8 list \<Rightarrow> u8 list" where
  "pad_block_dec rate state inp =
     (if length inp < rate
      then let tail = take (rate - length inp) (drop (length inp) (bytes_of_words state))
           in inp @ tail[0 := tail ! 0 XOR 0x80]
      else inp)"

definition rho_whi_dec_last ::
    "schwaemm_inst \<Rightarrow> u32 list \<Rightarrow> u8 list \<Rightarrow> u32 list \<times> u8 list" where
  "rho_whi_dec_last inst state inp =
     (let buffer = words_of_bytes (pad_block_dec (RATE_BYTES inst) state inp);
          (state, buffer) = fold (rho_dec_step inst) [0..<half inst] (state, buffer)
      in (state, take (length inp) (bytes_of_words buffer)))"

section \<open>Low-level functions\<close>

text \<open>
  \<^verbatim>\<open>memcpy\<close> of the nonce to the start of the state and of the key behind the rate. The
  nonce has as many bytes as the rate and the key as many as the capacity, so the two
  copies fill the state.
\<close>

definition Initialize :: "schwaemm_inst \<Rightarrow> u8 list \<Rightarrow> u8 list \<Rightarrow> u32 list" where
  "Initialize inst key nonce =
     (let state = words_of_bytes (take (SCHWAEMM_NONCE_BYTES inst) nonce) @
                  words_of_bytes (take (SCHWAEMM_KEY_BYTES inst) key)
      in schwaemm_sparkle state (STATE_BRANS inst) (STEPS_BIG inst))"

lemma RATE_BYTES_pos [simp]: "0 < RATE_BYTES inst"
  by (cases inst) simp_all

lemma drop_rate_less [simp]:
  "RATE_BYTES inst < length xs \<Longrightarrow> length xs - RATE_BYTES inst < length xs"
  using RATE_BYTES_pos [of inst] by linarith

text \<open>The main loop of \<^verbatim>\<open>ProcessAssocData\<close>: the state and the bytes left for the last block.\<close>

function assoc_loop ::
    "schwaemm_inst \<Rightarrow> bool \<Rightarrow> u32 list \<Rightarrow> u8 list \<Rightarrow> u32 list \<times> u8 list" where
  "assoc_loop inst aligned state inp =
     (if length inp > RATE_BYTES inst
      then let state = rho_whi_aut inst state inp aligned;
               state = schwaemm_sparkle state (STATE_BRANS inst) (STEPS_SLIM inst)
           in assoc_loop inst aligned state (drop (RATE_BYTES inst) inp)
      else (state, inp))"
  by pat_completeness auto
termination
  by (relation "measure (\<lambda>(inst, aligned, state, inp). length inp)") auto

definition ProcessAssocData :: "schwaemm_inst \<Rightarrow> u32 list \<Rightarrow> u8 list \<Rightarrow> bool \<Rightarrow> u32 list" where
  "ProcessAssocData inst state inp aligned =
     (let (state, inp) = assoc_loop inst aligned state inp;
          l = STATE_WORDS inst - 1;
          state = state[l := state ! l XOR
                    (if length inp < RATE_BYTES inst then CONST_A0 inst else CONST_A1 inst)];
          state = rho_whi_aut_last inst state inp
      in schwaemm_sparkle state (STATE_BRANS inst) (STEPS_BIG inst))"

text \<open>
  The main loop of \<^verbatim>\<open>ProcessPlainText\<close>: the state, the bytes left for the last block and
  the bytes written to \<^verbatim>\<open>out\<close> so far.
\<close>

function enc_loop ::
    "schwaemm_inst \<Rightarrow> bool \<Rightarrow> u32 list \<Rightarrow> u8 list \<Rightarrow> u8 list \<Rightarrow> u32 list \<times> u8 list \<times> u8 list" where
  "enc_loop inst aligned state out inp =
     (if length inp > RATE_BYTES inst
      then let (state, blk) = rho_whi_enc inst state inp aligned;
               state = schwaemm_sparkle state (STATE_BRANS inst) (STEPS_SLIM inst)
           in enc_loop inst aligned state (out @ blk) (drop (RATE_BYTES inst) inp)
      else (state, out, inp))"
  by pat_completeness auto
termination
  by (relation "measure (\<lambda>(inst, aligned, state, out, inp). length inp)") auto

definition ProcessPlainText ::
    "schwaemm_inst \<Rightarrow> u32 list \<Rightarrow> u8 list \<Rightarrow> bool \<Rightarrow> u32 list \<times> u8 list" where
  "ProcessPlainText inst state inp aligned =
     (let (state, out, inp) = enc_loop inst aligned state [] inp;
          l = STATE_WORDS inst - 1;
          state = state[l := state ! l XOR
                    (if length inp < RATE_BYTES inst then CONST_M2 inst else CONST_M3 inst)];
          (state, blk) = rho_whi_enc_last inst state inp
      in (schwaemm_sparkle state (STATE_BRANS inst) (STEPS_BIG inst), out @ blk))"

definition Finalize :: "schwaemm_inst \<Rightarrow> u32 list \<Rightarrow> u8 list \<Rightarrow> u32 list" where
  "Finalize inst state key =
     (let buffer = words_of_bytes (take (SCHWAEMM_KEY_BYTES inst) key)
      in fold (\<lambda>i state. state[RATE_WORDS inst + i :=
                 state ! (RATE_WORDS inst + i) XOR buffer ! i])
           [0..<SCHWAEMM_KEY_WORDS inst] state)"

definition GenerateTag :: "schwaemm_inst \<Rightarrow> u32 list \<Rightarrow> u8 list" where
  "GenerateTag inst state =
     take (SCHWAEMM_TAG_BYTES inst) (bytes_of_words (drop (RATE_WORDS inst) state))"

definition VerifyTag :: "schwaemm_inst \<Rightarrow> u32 list \<Rightarrow> u8 list \<Rightarrow> int" where
  "VerifyTag inst state tag =
     (let buffer = words_of_bytes (take (SCHWAEMM_TAG_BYTES inst) tag);
          diff = fold (\<lambda>i diff. diff OR (state ! (RATE_WORDS inst + i) XOR buffer ! i))
                   [0..<SCHWAEMM_TAG_WORDS inst] (0 :: u32)
      in (if diff = 0 then 1 else 0) - 1)"

function dec_loop ::
    "schwaemm_inst \<Rightarrow> bool \<Rightarrow> u32 list \<Rightarrow> u8 list \<Rightarrow> u8 list \<Rightarrow> u32 list \<times> u8 list \<times> u8 list" where
  "dec_loop inst aligned state out inp =
     (if length inp > RATE_BYTES inst
      then let (state, blk) = rho_whi_dec inst state inp aligned;
               state = schwaemm_sparkle state (STATE_BRANS inst) (STEPS_SLIM inst)
           in dec_loop inst aligned state (out @ blk) (drop (RATE_BYTES inst) inp)
      else (state, out, inp))"
  by pat_completeness auto
termination
  by (relation "measure (\<lambda>(inst, aligned, state, out, inp). length inp)") auto

definition ProcessCipherText ::
    "schwaemm_inst \<Rightarrow> u32 list \<Rightarrow> u8 list \<Rightarrow> bool \<Rightarrow> u32 list \<times> u8 list" where
  "ProcessCipherText inst state inp aligned =
     (let (state, out, inp) = dec_loop inst aligned state [] inp;
          l = STATE_WORDS inst - 1;
          state = state[l := state ! l XOR
                    (if length inp < RATE_BYTES inst then CONST_M2 inst else CONST_M3 inst)];
          (state, blk) = rho_whi_dec_last inst state inp
      in (schwaemm_sparkle state (STATE_BRANS inst) (STEPS_BIG inst), out @ blk))"

section \<open>High-level functions\<close>

text \<open>
  The result is the bytes written to \<^verbatim>\<open>c\<close>; \<^verbatim>\<open>*clen\<close> is their number and the return value
  is always 0. The pair of booleans says whether the associated data, and the message and
  ciphertext buffers, are aligned.
\<close>

definition crypto_aead_encrypt ::
    "schwaemm_inst \<Rightarrow> bool \<times> bool \<Rightarrow> u8 list \<Rightarrow> u8 list \<Rightarrow> u8 list \<Rightarrow> u8 list \<Rightarrow> u8 list" where
  "crypto_aead_encrypt inst al m ad npub k =
     (let state = Initialize inst k npub;
          state = (if length ad \<noteq> 0 then ProcessAssocData inst state ad (fst al) else state);
          (state, c) = (if length m \<noteq> 0 then ProcessPlainText inst state m (snd al)
                        else (state, []));
          state = Finalize inst state k
      in c @ GenerateTag inst state)"

text \<open>
  Decryption: the return value (0 when the tag is right, -1 otherwise) and the bytes
  written to \<^verbatim>\<open>m\<close>; \<^verbatim>\<open>*mlen\<close> is their number. With fewer bytes than a tag the length
  \<^verbatim>\<open>clen - SCHWAEMM_TAG_BYTES\<close> wraps around and the code runs off the end of \<^verbatim>\<open>c\<close>.
\<close>

definition crypto_aead_decrypt ::
    "schwaemm_inst \<Rightarrow> bool \<times> bool \<Rightarrow> u8 list \<Rightarrow> u8 list \<Rightarrow> u8 list \<Rightarrow> u8 list \<Rightarrow>
     (int \<times> u8 list) res" where
  "crypto_aead_decrypt inst al c ad npub k =
     (if length c < SCHWAEMM_TAG_BYTES inst then Inl OutOfBounds
      else let csize = length c - SCHWAEMM_TAG_BYTES inst;
               state = Initialize inst k npub;
               state = (if length ad \<noteq> 0 then ProcessAssocData inst state ad (fst al) else state);
               (state, m) = (if csize \<noteq> 0 then ProcessCipherText inst state (take csize c) (snd al)
                             else (state, []));
               state = Finalize inst state k;
               retval = VerifyTag inst state (drop csize c)
           in Inr (retval, m))"

declare assoc_loop.simps [simp del] enc_loop.simps [simp del] dec_loop.simps [simp del]

section \<open>Sizes\<close>

lemmas inst_defs =
  SCHWAEMM_KEY_WORDS_def SCHWAEMM_TAG_WORDS_def STATE_BRANS_def STATE_WORDS_def
  RATE_WORDS_def CAP_BYTES_def CAP_BRANS_def CAP_WORDS_def CAP_INDEX_def half_def

lemma inst_sizes:
  "STATE_WORDS inst = 2 * STATE_BRANS inst"
  "RATE_WORDS inst = 2 * half inst"
  "RATE_BYTES inst = 4 * RATE_WORDS inst"
  "SCHWAEMM_NONCE_BYTES inst = RATE_BYTES inst"
  "SCHWAEMM_KEY_BYTES inst = 4 * (STATE_WORDS inst - RATE_WORDS inst)"
  "SCHWAEMM_TAG_BYTES inst = 4 * (STATE_WORDS inst - RATE_WORDS inst)"
  "SCHWAEMM_KEY_WORDS inst = STATE_WORDS inst - RATE_WORDS inst"
  "SCHWAEMM_TAG_WORDS inst = STATE_WORDS inst - RATE_WORDS inst"
  "RATE_WORDS inst < STATE_WORDS inst"
  "RATE_WORDS inst + half inst \<le> STATE_WORDS inst"
  by (cases inst; simp add: inst_defs)+

lemma sparkle_size_inst: "sparkle_size (STATE_BRANS inst)"
  by (cases inst) (simp_all add: inst_defs sparkle_size_def)

section \<open>The rho loops on word buffers\<close>

text \<open>
  The encryption loop turns the buffer into its exclusive or with the rate; the decryption
  loop on that result restores the buffer and reaches the same state, and the other way
  round.
\<close>

abbreviation rho_enc :: "schwaemm_inst \<Rightarrow> u32 list \<times> u32 list \<Rightarrow> u32 list \<times> u32 list" where
  "rho_enc inst \<equiv> fold (rho_enc_step inst) [0..<half inst]"

abbreviation rho_dec :: "schwaemm_inst \<Rightarrow> u32 list \<times> u32 list \<Rightarrow> u32 list \<times> u32 list" where
  "rho_dec inst \<equiv> fold (rho_dec_step inst) [0..<half inst]"

lemmas rho_defs = rho_enc_step_def rho_enc_state_def rho_dec_step_def rho_dec_state_def
  rho_enc_step2_def rho_dec_step2_def rho_aut_step_def

text \<open>The closed forms of the loops after \<open>n\<close> iterations.\<close>

definition enc_state_at :: "schwaemm_inst \<Rightarrow> nat \<Rightarrow> u32 list \<Rightarrow> u32 list \<Rightarrow> nat \<Rightarrow> u32" where
  "enc_state_at inst n st b k =
     (if k < n then st ! (half inst + k) XOR b ! k XOR st ! (RATE_WORDS inst + k)
      else if half inst \<le> k \<and> k < half inst + n
      then st ! k XOR (st ! (k - half inst) XOR b ! k XOR st ! (RATE_WORDS inst + CAP_INDEX inst k))
      else st ! k)"

definition dec_state_at :: "schwaemm_inst \<Rightarrow> nat \<Rightarrow> u32 list \<Rightarrow> u32 list \<Rightarrow> nat \<Rightarrow> u32" where
  "dec_state_at inst n st b k =
     (if k < n then st ! k XOR (st ! (half inst + k) XOR b ! k XOR st ! (RATE_WORDS inst + k))
      else if half inst \<le> k \<and> k < half inst + n
      then st ! (k - half inst) XOR b ! k XOR st ! (RATE_WORDS inst + CAP_INDEX inst k)
      else st ! k)"

definition buffer_at :: "schwaemm_inst \<Rightarrow> nat \<Rightarrow> u32 list \<Rightarrow> u32 list \<Rightarrow> nat \<Rightarrow> u32" where
  "buffer_at inst n st b k =
     (if k < n \<or> half inst \<le> k \<and> k < half inst + n then b ! k XOR st ! k else b ! k)"

lemma cap_index_bound:
  "j < RATE_WORDS inst \<Longrightarrow> RATE_WORDS inst + CAP_INDEX inst j < STATE_WORDS inst"
proof -
  assume j: "j < RATE_WORDS inst"
  have "j AND 3 = take_bit 2 j" by (simp add: take_bit_eq_mask mask_numeral numeral_3_eq_3)
  then have "j AND 3 < 4" using take_bit_nat_less_exp [of 2 j] by simp
  with j show ?thesis by (cases inst) (simp_all add: inst_defs)
qed

lemma rho_enc_closed:
  assumes "length st = STATE_WORDS inst" and "length b = RATE_WORDS inst" and "n \<le> half inst"
  shows "fold (rho_enc_step inst) [0..<n] (st, b) =
           (map (enc_state_at inst n st b) [0..<length st], map (buffer_at inst n st b) [0..<length b])"
  using assms(3)
proof (induction n)
  case 0
  then show ?case
    by (auto intro!: nth_equalityI simp: enc_state_at_def buffer_at_def)
next
  case (Suc n)
  have sz: "RATE_WORDS inst = 2 * half inst" "RATE_WORDS inst + half inst \<le> STATE_WORDS inst"
    by (rule inst_sizes)+
  have ci: "RATE_WORDS inst + CAP_INDEX inst (half inst + n) < STATE_WORDS inst"
    using Suc.prems sz by (intro cap_index_bound) simp
  show ?case using Suc assms(1,2) sz ci
    by (simp add: rho_enc_step_def rho_enc_state_def Let_def)
     (auto intro!: nth_equalityI simp: nth_update enc_state_at_def buffer_at_def)
qed

lemma rho_dec_closed:
  assumes "length st = STATE_WORDS inst" and "length b = RATE_WORDS inst" and "n \<le> half inst"
  shows "fold (rho_dec_step inst) [0..<n] (st, b) =
           (map (dec_state_at inst n st b) [0..<length st], map (buffer_at inst n st b) [0..<length b])"
  using assms(3)
proof (induction n)
  case 0
  then show ?case
    by (auto intro!: nth_equalityI simp: dec_state_at_def buffer_at_def)
next
  case (Suc n)
  have sz: "RATE_WORDS inst = 2 * half inst" "RATE_WORDS inst + half inst \<le> STATE_WORDS inst"
    by (rule inst_sizes)+
  have ci: "RATE_WORDS inst + CAP_INDEX inst (half inst + n) < STATE_WORDS inst"
    using Suc.prems sz by (intro cap_index_bound) simp
  show ?case using Suc assms(1,2) sz ci
    by (simp add: rho_dec_step_def rho_dec_state_def Let_def)
     (auto intro!: nth_equalityI simp: nth_update dec_state_at_def buffer_at_def)
qed

lemma rho_out:
  assumes "length st = STATE_WORDS inst" and "length b = RATE_WORDS inst"
  shows "snd (rho_enc inst (st, b)) = xor_list b (take (RATE_WORDS inst) st)"
    and "snd (rho_dec inst (st, b)) = xor_list b (take (RATE_WORDS inst) st)"
  using assms inst_sizes(2,9) [of inst]
  by (auto intro!: nth_equalityI simp: rho_enc_closed rho_dec_closed buffer_at_def)

lemma rho_inverse:
  assumes "length st = STATE_WORDS inst" and "length b = RATE_WORDS inst"
  shows "rho_dec inst (st, snd (rho_enc inst (st, b))) = (fst (rho_enc inst (st, b)), b)"
    and "rho_enc inst (st, snd (rho_dec inst (st, b))) = (fst (rho_dec inst (st, b)), b)"
  using assms inst_sizes(2,9) [of inst]
  by (auto intro!: nth_equalityI
      simp: rho_enc_closed rho_dec_closed buffer_at_def enc_state_at_def dec_state_at_def xor_ac)

text \<open>The loops on two arrays.\<close>

lemma rho_enc2_closed:
  assumes "length st = STATE_WORDS inst" and "RATE_WORDS inst \<le> length b"
    and "length out = RATE_WORDS inst" and "n \<le> half inst"
  shows "fold (rho_enc_step2 inst b) [0..<n] (st, out) =
           (map (enc_state_at inst n st b) [0..<length st],
            map (\<lambda>k. if k < n \<or> half inst \<le> k \<and> k < half inst + n
                     then b ! k XOR st ! k else out ! k) [0..<length out])"
  using assms(4)
proof (induction n)
  case 0
  then show ?case
    by (auto intro!: nth_equalityI simp: enc_state_at_def)
next
  case (Suc n)
  have sz: "RATE_WORDS inst = 2 * half inst" "RATE_WORDS inst + half inst \<le> STATE_WORDS inst"
    by (rule inst_sizes)+
  have ci: "RATE_WORDS inst + CAP_INDEX inst (half inst + n) < STATE_WORDS inst"
    using Suc.prems sz by (intro cap_index_bound) simp
  show ?case using Suc assms(1-3) sz ci
    by (simp add: rho_enc_step2_def rho_enc_state_def Let_def)
     (auto intro!: nth_equalityI simp: nth_update enc_state_at_def)
qed

lemma rho_dec2_closed:
  assumes "length st = STATE_WORDS inst" and "RATE_WORDS inst \<le> length b"
    and "length out = RATE_WORDS inst" and "n \<le> half inst"
  shows "fold (rho_dec_step2 inst b) [0..<n] (st, out) =
           (map (dec_state_at inst n st b) [0..<length st],
            map (\<lambda>k. if k < n \<or> half inst \<le> k \<and> k < half inst + n
                     then b ! k XOR st ! k else out ! k) [0..<length out])"
  using assms(4)
proof (induction n)
  case 0
  then show ?case
    by (auto intro!: nth_equalityI simp: dec_state_at_def)
next
  case (Suc n)
  have sz: "RATE_WORDS inst = 2 * half inst" "RATE_WORDS inst + half inst \<le> STATE_WORDS inst"
    by (rule inst_sizes)+
  have ci: "RATE_WORDS inst + CAP_INDEX inst (half inst + n) < STATE_WORDS inst"
    using Suc.prems sz by (intro cap_index_bound) simp
  show ?case using Suc assms(1-3) sz ci
    by (simp add: rho_dec_step2_def rho_dec_state_def Let_def)
     (auto intro!: nth_equalityI simp: nth_update dec_state_at_def)
qed

section \<open>Full blocks\<close>

lemma rate_block_words:
  assumes "RATE_BYTES inst \<le> length inp"
  shows "words_of_bytes (take (RATE_BYTES inst) inp) = take (RATE_WORDS inst) (words_of_bytes inp)"
    and "RATE_WORDS inst \<le> length inp div 4"
  using assms by (simp_all add: inst_sizes(3) words_of_bytes_take)

lemma rho_whi_enc_eq:
  assumes "length st = STATE_WORDS inst" and "RATE_BYTES inst \<le> length inp"
  shows "rho_whi_enc inst st inp al =
     (let b = words_of_bytes (take (RATE_BYTES inst) inp)
      in (fst (rho_enc inst (st, b)), bytes_of_words (snd (rho_enc inst (st, b)))))"
proof -
  have sz: "RATE_WORDS inst = 2 * half inst" "RATE_WORDS inst < STATE_WORDS inst"
    by (rule inst_sizes)+
  show ?thesis
    using assms sz rate_block_words [OF assms(2)]
    by (auto simp: rho_whi_enc_def Let_def rho_enc2_closed rho_enc_closed enc_state_at_def
        buffer_at_def min_def split: prod.split intro!: arg_cong [where f = bytes_of_words])
qed

lemma rho_whi_dec_eq:
  assumes "length st = STATE_WORDS inst" and "RATE_BYTES inst \<le> length inp"
  shows "rho_whi_dec inst st inp al =
     (let b = words_of_bytes (take (RATE_BYTES inst) inp)
      in (fst (rho_dec inst (st, b)), bytes_of_words (snd (rho_dec inst (st, b)))))"
proof -
  have sz: "RATE_WORDS inst = 2 * half inst" "RATE_WORDS inst < STATE_WORDS inst"
    by (rule inst_sizes)+
  show ?thesis
    using assms sz rate_block_words [OF assms(2)]
    by (auto simp: rho_whi_dec_def Let_def rho_dec2_closed rho_dec_closed dec_state_at_def
        buffer_at_def min_def split: prod.split intro!: arg_cong [where f = bytes_of_words])
qed

lemma length_rho:
  assumes "length st = STATE_WORDS inst" and "length b = RATE_WORDS inst"
  shows "length (fst (rho_enc inst (st, b))) = STATE_WORDS inst"
    and "length (fst (rho_dec inst (st, b))) = STATE_WORDS inst"
    and "length (snd (rho_enc inst (st, b))) = RATE_WORDS inst"
    and "length (snd (rho_dec inst (st, b))) = RATE_WORDS inst"
  using assms by (simp_all add: rho_enc_closed rho_dec_closed)

lemma length_rate_block:
  "RATE_BYTES inst \<le> length inp \<Longrightarrow>
   length (words_of_bytes (take (RATE_BYTES inst) inp)) = RATE_WORDS inst"
  by (simp add: inst_sizes(3))

lemma rho_whi_block:
  assumes "length st = STATE_WORDS inst" and "RATE_BYTES inst \<le> length inp"
  shows "length (fst (rho_whi_enc inst st inp al)) = STATE_WORDS inst"
    and "length (snd (rho_whi_enc inst st inp al)) = RATE_BYTES inst"
    and "length (fst (rho_whi_dec inst st inp al)) = STATE_WORDS inst"
    and "length (snd (rho_whi_dec inst st inp al)) = RATE_BYTES inst"
  using assms length_rate_block [OF assms(2)]
  by (simp_all add: rho_whi_enc_eq rho_whi_dec_eq Let_def length_rho inst_sizes(3))

lemma rho_whi_enc_dec:
  assumes "length st = STATE_WORDS inst" and "RATE_BYTES inst \<le> length inp"
    and enc: "rho_whi_enc inst st inp al = (st', out)"
  shows "rho_whi_dec inst st (out @ rest) al' = (st', take (RATE_BYTES inst) inp)"
proof -
  let ?b = "words_of_bytes (take (RATE_BYTES inst) inp)"
  have len: "length out = RATE_BYTES inst" "length ?b = RATE_WORDS inst"
    using rho_whi_block(2) [OF assms(1,2), of al] enc length_rate_block [OF assms(2)] by auto
  have out: "words_of_bytes out = snd (rho_enc inst (st, ?b))" "st' = fst (rho_enc inst (st, ?b))"
    using enc assms by (auto simp: rho_whi_enc_eq Let_def)
  have "4 dvd RATE_BYTES inst" by (simp add: inst_sizes(3))
  then show ?thesis
    using assms(1,2) len out by (simp add: rho_whi_dec_eq Let_def rho_inverse)
qed

lemma rho_whi_dec_enc:
  assumes "length st = STATE_WORDS inst" and "RATE_BYTES inst \<le> length inp"
    and dec: "rho_whi_dec inst st inp al = (st', out)"
  shows "rho_whi_enc inst st (out @ rest) al' = (st', take (RATE_BYTES inst) inp)"
proof -
  let ?b = "words_of_bytes (take (RATE_BYTES inst) inp)"
  have len: "length out = RATE_BYTES inst" "length ?b = RATE_WORDS inst"
    using rho_whi_block(4) [OF assms(1,2), of al] dec length_rate_block [OF assms(2)] by auto
  have out: "words_of_bytes out = snd (rho_dec inst (st, ?b))" "st' = fst (rho_dec inst (st, ?b))"
    using dec assms by (auto simp: rho_whi_dec_eq Let_def)
  have "4 dvd RATE_BYTES inst" by (simp add: inst_sizes(3))
  then show ?thesis
    using assms(1,2) len out by (simp add: rho_whi_enc_eq Let_def rho_inverse)
qed

section \<open>The last block\<close>

lemma length_pad_block_dec:
  "length inp \<le> rate \<Longrightarrow> rate \<le> 4 * length st \<Longrightarrow> length (pad_block_dec rate st inp) = rate"
  by (auto simp: pad_block_dec_def Let_def)

lemma take_pad_block [simp]:
  "take (length inp) (pad_block rate inp) = inp"
  "take (length inp) (pad_block_dec rate st inp) = inp"
  by (simp_all add: pad_block_def pad_block_dec_def Let_def)

text \<open>
  The padded ciphertext block is the exclusive or of the padded plaintext block with the
  bytes of the rate: completing it from the state undoes the padding of the plaintext.
\<close>

lemma pad_block_xor:
  assumes "length inp \<le> rate" and "length rb = rate" and "take rate (bytes_of_words st) = rb"
    and "rate \<le> 4 * length st"
  shows "pad_block_dec rate st (xor_list inp (take (length inp) rb)) = xor_list (pad_block rate inp) rb"
    and "pad_block rate (xor_list inp (take (length inp) rb)) = xor_list (pad_block_dec rate st inp) rb"
proof -
  have nth: "bytes_of_words st ! i = rb ! i" if "i < rate" for i
    using that assms(3) by (metis nth_take)
  have z: "(replicate k (0 :: u8))[0 := 128] ! i = (if i = 0 then 128 else 0)" if "i < k" for i k
    using that by (simp add: nth_update)
  show "pad_block_dec rate st (xor_list inp (take (length inp) rb)) = xor_list (pad_block rate inp) rb"
    using assms nth z
    by (intro nth_equalityI)
       (auto simp: pad_block_dec_def pad_block_def Let_def nth_append nth_update min_def xor_ac)
  show "pad_block rate (xor_list inp (take (length inp) rb)) = xor_list (pad_block_dec rate st inp) rb"
    using assms nth z
    by (intro nth_equalityI)
       (auto simp: pad_block_dec_def pad_block_def Let_def nth_append nth_update min_def xor_ac)
qed

lemma rho_last_bytes:
  assumes "length st = STATE_WORDS inst" and "length blk = RATE_BYTES inst"
  shows "bytes_of_words (snd (rho_enc inst (st, words_of_bytes blk)))
           = xor_list blk (take (RATE_BYTES inst) (bytes_of_words st))"
    and "bytes_of_words (snd (rho_dec inst (st, words_of_bytes blk)))
           = xor_list blk (take (RATE_BYTES inst) (bytes_of_words st))"
proof -
  have "4 dvd length blk" "length (words_of_bytes blk) = RATE_WORDS inst"
    "RATE_WORDS inst < STATE_WORDS inst"
    using assms(2) inst_sizes(3,9) [of inst] by simp_all
  then show "bytes_of_words (snd (rho_enc inst (st, words_of_bytes blk)))
           = xor_list blk (take (RATE_BYTES inst) (bytes_of_words st))"
    and "bytes_of_words (snd (rho_dec inst (st, words_of_bytes blk)))
           = xor_list blk (take (RATE_BYTES inst) (bytes_of_words st))"
    using assms inst_sizes(3) [of inst]
    by (simp_all add: rho_out bytes_of_words_xor bytes_of_words_take)
qed

lemma rho_whi_last:
  assumes st: "length st = STATE_WORDS inst" and inp: "length inp \<le> RATE_BYTES inst"
  shows "\<exists>st' out. rho_whi_enc_last inst st inp = (st', out) \<and> length out = length inp \<and>
           length st' = STATE_WORDS inst \<and> rho_whi_dec_last inst st out = (st', inp)"
    and "\<exists>st' out. rho_whi_dec_last inst st inp = (st', out) \<and> length out = length inp \<and>
           length st' = STATE_WORDS inst \<and> rho_whi_enc_last inst st out = (st', inp)"
proof -
  let ?rb = "take (RATE_BYTES inst) (bytes_of_words st)"
  let ?out = "xor_list inp (take (length inp) ?rb)"
  let ?p = "pad_block (RATE_BYTES inst) inp" and ?q = "pad_block_dec (RATE_BYTES inst) st inp"
  have sz: "RATE_BYTES inst = 4 * RATE_WORDS inst" "RATE_BYTES inst \<le> 4 * length st"
    using inst_sizes(3,9) [of inst] st by simp_all
  have rb: "length ?rb = RATE_BYTES inst" "length ?out = length inp" using sz inp by auto
  have p: "length ?p = RATE_BYTES inst" "length ?q = RATE_BYTES inst"
    using inp sz by (simp_all add: length_pad_block length_pad_block_dec)
  then have w: "length (words_of_bytes ?p) = RATE_WORDS inst"
      "length (words_of_bytes ?q) = RATE_WORDS inst" "4 dvd length ?p" "4 dvd length ?q"
    using sz by simp_all
  note pads = pad_block_xor [OF inp rb(1) refl sz(2)]
  have inv: "words_of_bytes (pad_block_dec (RATE_BYTES inst) st ?out)
               = snd (rho_enc inst (st, words_of_bytes ?p))"
            "words_of_bytes (pad_block (RATE_BYTES inst) ?out)
               = snd (rho_dec inst (st, words_of_bytes ?q))"
    using rho_last_bytes(1) [OF st p(1)] rho_last_bytes(2) [OF st p(2)] pads
    by (metis words_of_bytes_of_words)+
  have tk: "take (length inp) (xor_list ?p ?rb) = ?out" "take (length inp) (xor_list ?q ?rb) = ?out"
    by (simp_all add: take_xor_list)
  obtain x1 x2 where e: "rho_enc inst (st, words_of_bytes ?p) = (x1, x2)" by fastforce
  obtain y1 y2 where d: "rho_dec inst (st, words_of_bytes ?q) = (y1, y2)" by fastforce
  have outs: "rho_whi_enc_last inst st inp = (x1, ?out)" "rho_whi_dec_last inst st inp = (y1, ?out)"
    using rho_last_bytes(1) [OF st p(1)] rho_last_bytes(2) [OF st p(2)] tk e d
    by (simp_all add: rho_whi_enc_last_def rho_whi_dec_last_def)
  have "rho_whi_dec_last inst st ?out = (x1, inp)" "rho_whi_enc_last inst st ?out = (y1, inp)"
    using rho_inverse(1) [OF st w(1)] rho_inverse(2) [OF st w(2)] inv w(3,4) e d
    unfolding rho_whi_dec_last_def rho_whi_enc_last_def rb(2) by simp_all
  then show "\<exists>st' out. rho_whi_enc_last inst st inp = (st', out) \<and> length out = length inp \<and>
           length st' = STATE_WORDS inst \<and> rho_whi_dec_last inst st out = (st', inp)"
    and "\<exists>st' out. rho_whi_dec_last inst st inp = (st', out) \<and> length out = length inp \<and>
           length st' = STATE_WORDS inst \<and> rho_whi_enc_last inst st out = (st', inp)"
    using outs rb(2) length_rho(1) [OF st w(1)] length_rho(2) [OF st w(2)] e d by auto
qed

section \<open>Main loops\<close>

lemma length_schwaemm_sparkle [simp]:
  "length st = STATE_WORDS inst \<Longrightarrow>
   length (schwaemm_sparkle st (STATE_BRANS inst) steps) = STATE_WORDS inst"
  by (simp add: inst_sizes(1))

text \<open>
  What the two loops promise each other: decrypting the blocks written, followed by any
  last block of the right length, restores the blocks read and ends in the same state.
\<close>

lemma enc_loop_dec:
  assumes "length st = STATE_WORDS inst" and "enc_loop inst al st out inp = (st', out', rest)"
  shows "\<exists>c. out' = out @ c \<and> rest = drop (length c) inp \<and> length c \<le> length inp \<and>
           length rest \<le> RATE_BYTES inst \<and> length st' = STATE_WORDS inst \<and>
           (\<forall>tail outd. length tail = length rest \<longrightarrow>
              dec_loop inst al' st outd (c @ tail) = (st', outd @ take (length c) inp, tail))"
  using assms
proof (induction inst al st out inp rule: enc_loop.induct)
  case (1 inst al st out inp)
  show ?case
  proof (cases "length inp > RATE_BYTES inst")
    case False
    then have "st' = st" "out' = out" "rest = inp"
      using 1(3) by (auto simp: enc_loop.simps [of inst al st out inp])
    then show ?thesis using False 1(2)
      by (auto intro!: exI [of _ "[]"] simp: dec_loop.simps)
  next
    case True
    obtain s1 blk where blk: "rho_whi_enc inst st inp al = (s1, blk)" by fastforce
    let ?s2 = "schwaemm_sparkle s1 (STATE_BRANS inst) (STEPS_SLIM inst)"
    have len: "length s1 = STATE_WORDS inst" "length blk = RATE_BYTES inst"
      using rho_whi_block(1,2) [OF 1(2), of inp al] True blk by auto
    have rec: "enc_loop inst al ?s2 (out @ blk) (drop (RATE_BYTES inst) inp) = (st', out', rest)"
      using 1(3) True blk by (simp add: enc_loop.simps [of inst al st out inp] Let_def)
    obtain c where c: "out' = (out @ blk) @ c" "rest = drop (length c) (drop (RATE_BYTES inst) inp)"
        "length c \<le> length (drop (RATE_BYTES inst) inp)" "length rest \<le> RATE_BYTES inst"
        "length st' = STATE_WORDS inst"
        "\<And>tail outd. length tail = length rest \<Longrightarrow> dec_loop inst al' ?s2 outd (c @ tail)
            = (st', outd @ take (length c) (drop (RATE_BYTES inst) inp), tail)"
      using "1.IH" [OF True refl blk [symmetric] refl _ rec] len by auto
    have "dec_loop inst al' st outd ((blk @ c) @ tail)
            = (st', outd @ take (length (blk @ c)) inp, tail)"
      if t: "length tail = length rest" for tail outd
    proof -
      have "length ((blk @ c) @ tail) > RATE_BYTES inst" using True c t len by simp
      then show ?thesis
        using c(6) [OF t] len rho_whi_enc_dec [OF 1(2) _ blk] True
        by (simp add: dec_loop.simps [of inst al' st] Let_def take_add)
    qed
    then show ?thesis using c len True by (intro exI [of _ "blk @ c"]) (auto simp: add.commute)
  qed
qed

lemma dec_loop_enc:
  assumes "length st = STATE_WORDS inst" and "dec_loop inst al st out inp = (st', out', rest)"
  shows "\<exists>m. out' = out @ m \<and> rest = drop (length m) inp \<and> length m \<le> length inp \<and>
           length rest \<le> RATE_BYTES inst \<and> length st' = STATE_WORDS inst \<and>
           (\<forall>tail outd. length tail = length rest \<longrightarrow>
              enc_loop inst al' st outd (m @ tail) = (st', outd @ take (length m) inp, tail))"
  using assms
proof (induction inst al st out inp rule: dec_loop.induct)
  case (1 inst al st out inp)
  show ?case
  proof (cases "length inp > RATE_BYTES inst")
    case False
    then have "st' = st" "out' = out" "rest = inp"
      using 1(3) by (auto simp: dec_loop.simps [of inst al st out inp])
    then show ?thesis using False 1(2)
      by (auto intro!: exI [of _ "[]"] simp: enc_loop.simps)
  next
    case True
    obtain s1 blk where blk: "rho_whi_dec inst st inp al = (s1, blk)" by fastforce
    let ?s2 = "schwaemm_sparkle s1 (STATE_BRANS inst) (STEPS_SLIM inst)"
    have len: "length s1 = STATE_WORDS inst" "length blk = RATE_BYTES inst"
      using rho_whi_block(3,4) [OF 1(2), of inp al] True blk by auto
    have rec: "dec_loop inst al ?s2 (out @ blk) (drop (RATE_BYTES inst) inp) = (st', out', rest)"
      using 1(3) True blk by (simp add: dec_loop.simps [of inst al st out inp] Let_def)
    obtain m where m: "out' = (out @ blk) @ m" "rest = drop (length m) (drop (RATE_BYTES inst) inp)"
        "length m \<le> length (drop (RATE_BYTES inst) inp)" "length rest \<le> RATE_BYTES inst"
        "length st' = STATE_WORDS inst"
        "\<And>tail outd. length tail = length rest \<Longrightarrow> enc_loop inst al' ?s2 outd (m @ tail)
            = (st', outd @ take (length m) (drop (RATE_BYTES inst) inp), tail)"
      using "1.IH" [OF True refl blk [symmetric] refl _ rec] len by auto
    have "enc_loop inst al' st outd ((blk @ m) @ tail)
            = (st', outd @ take (length (blk @ m)) inp, tail)"
      if t: "length tail = length rest" for tail outd
    proof -
      have "length ((blk @ m) @ tail) > RATE_BYTES inst" using True m t len by simp
      then show ?thesis
        using m(6) [OF t] len rho_whi_dec_enc [OF 1(2) _ blk] True
        by (simp add: enc_loop.simps [of inst al' st] Let_def take_add)
    qed
    then show ?thesis using m len True by (intro exI [of _ "blk @ m"]) (auto simp: add.commute)
  qed
qed

lemma ProcessPlainText_inverse:
  assumes st: "length st = STATE_WORDS inst"
  shows "\<exists>st' c. ProcessPlainText inst st m al = (st', c) \<and> length c = length m \<and>
           length st' = STATE_WORDS inst \<and> ProcessCipherText inst st c al' = (st', m)"
proof -
  obtain s1 o1 rest where l: "enc_loop inst al st [] m = (s1, o1, rest)" using prod_cases3 by blast
  obtain c where c: "o1 = c" "rest = drop (length c) m" "length c \<le> length m"
      "length rest \<le> RATE_BYTES inst" "length s1 = STATE_WORDS inst"
      "\<And>tail. length tail = length rest \<Longrightarrow>
         dec_loop inst al' st [] (c @ tail) = (s1, take (length c) m, tail)"
    using enc_loop_dec [OF st l, of al'] by auto
  let ?l = "STATE_WORDS inst - 1"
  let ?s2 = "s1[?l := s1 ! ?l XOR
               (if length rest < RATE_BYTES inst then CONST_M2 inst else CONST_M3 inst)]"
  obtain s3 blk where b: "rho_whi_enc_last inst ?s2 rest = (s3, blk)" "length blk = length rest"
      "length s3 = STATE_WORDS inst" "rho_whi_dec_last inst ?s2 blk = (s3, rest)"
    using rho_whi_last(1) [of ?s2 inst rest] c by auto
  show ?thesis
    using l b(1,3,4) b(2) c(1,2,3) c(6) [OF b(2)]
    by (simp add: ProcessPlainText_def ProcessCipherText_def Let_def)
qed

lemma ProcessCipherText_inverse:
  assumes st: "length st = STATE_WORDS inst"
  shows "\<exists>st' m. ProcessCipherText inst st c al = (st', m) \<and> length m = length c \<and>
           length st' = STATE_WORDS inst \<and> ProcessPlainText inst st m al' = (st', c)"
proof -
  obtain s1 o1 rest where l: "dec_loop inst al st [] c = (s1, o1, rest)" using prod_cases3 by blast
  obtain m where m: "o1 = m" "rest = drop (length m) c" "length m \<le> length c"
      "length rest \<le> RATE_BYTES inst" "length s1 = STATE_WORDS inst"
      "\<And>tail. length tail = length rest \<Longrightarrow>
         enc_loop inst al' st [] (m @ tail) = (s1, take (length m) c, tail)"
    using dec_loop_enc [OF st l, of al'] by auto
  let ?l = "STATE_WORDS inst - 1"
  let ?s2 = "s1[?l := s1 ! ?l XOR
               (if length rest < RATE_BYTES inst then CONST_M2 inst else CONST_M3 inst)]"
  obtain s3 blk where b: "rho_whi_dec_last inst ?s2 rest = (s3, blk)" "length blk = length rest"
      "length s3 = STATE_WORDS inst" "rho_whi_enc_last inst ?s2 blk = (s3, rest)"
    using rho_whi_last(2) [of ?s2 inst rest] m by auto
  show ?thesis
    using l b(1,3,4) b(2) m(1,2,3) m(6) [OF b(2)]
    by (simp add: ProcessPlainText_def ProcessCipherText_def Let_def)
qed

section \<open>Tags\<close>

lemma length_Finalize [simp]: "length (Finalize inst st key) = length st"
  unfolding Finalize_def Let_def
  by (rule fold_invariant_set [where P = "\<lambda>s. length s = length st"]) simp_all

lemma length_GenerateTag:
  "length st = STATE_WORDS inst \<Longrightarrow> length (GenerateTag inst st) = SCHWAEMM_TAG_BYTES inst"
  by (simp add: GenerateTag_def inst_sizes(6))

lemma VerifyTag_values: "VerifyTag inst st tag = 0 \<or> VerifyTag inst st tag = -1"
  by (simp add: VerifyTag_def Let_def)

lemma VerifyTag_correct:
  assumes st: "length st = STATE_WORDS inst" and tag: "length tag = SCHWAEMM_TAG_BYTES inst"
  shows "VerifyTag inst st tag = 0 \<longleftrightarrow> tag = GenerateTag inst st"
proof -
  let ?d = "drop (RATE_WORDS inst) st" and ?n = "SCHWAEMM_TAG_WORDS inst"
  have sz: "length tag = 4 * ?n" "length ?d = ?n" "RATE_WORDS inst < STATE_WORDS inst"
    using st tag inst_sizes(6,8,9) [of inst] by simp_all
  have "VerifyTag inst st tag = 0 \<longleftrightarrow> (\<forall>i<?n. st ! (RATE_WORDS inst + i) = words_of_bytes tag ! i)"
    using tag by (auto simp: VerifyTag_def Let_def fold_or_eq_0)
  also have "\<dots> \<longleftrightarrow> ?d = words_of_bytes tag"
    using sz st by (auto simp: list_eq_iff_nth_eq)
  also have "\<dots> \<longleftrightarrow> tag = bytes_of_words ?d"
    using sz by (metis bytes_of_words_of_bytes dvd_triv_left words_of_bytes_of_words)
  finally show ?thesis using sz by (simp add: GenerateTag_def tag [symmetric])
qed

section \<open>Associated data\<close>

lemma rho_aut_closed:
  assumes "length st = STATE_WORDS inst" and "RATE_WORDS inst \<le> length b" and "n \<le> half inst"
  shows "fold (rho_aut_step inst b) [0..<n] st = map (enc_state_at inst n st b) [0..<length st]"
  using assms(3)
proof (induction n)
  case 0
  then show ?case by (auto intro!: nth_equalityI simp: enc_state_at_def)
next
  case (Suc n)
  have sz: "RATE_WORDS inst = 2 * half inst" "RATE_WORDS inst + half inst \<le> STATE_WORDS inst"
    by (rule inst_sizes)+
  have ci: "RATE_WORDS inst + CAP_INDEX inst (half inst + n) < STATE_WORDS inst"
    using Suc.prems sz by (intro cap_index_bound) simp
  show ?case using Suc assms(1,2) sz ci
    by (simp add: rho_aut_step_def Let_def)
     (auto intro!: nth_equalityI simp: nth_update enc_state_at_def)
qed

lemma rho_whi_aut_aligned:
  assumes "length st = STATE_WORDS inst" and "RATE_BYTES inst \<le> length inp"
  shows "rho_whi_aut inst st inp True = rho_whi_aut inst st inp False"
  using assms rate_block_words [OF assms(2)] inst_sizes(2) [of inst]
  by (simp add: rho_whi_aut_def rho_aut_closed enc_state_at_def min_def)

lemma length_rho_aut:
  "length (rho_whi_aut inst st inp al) = length st"
  "length (rho_whi_aut_last inst st inp) = length st"
  unfolding rho_whi_aut_def rho_whi_aut_last_def Let_def rho_aut_step_def
  by (rule fold_invariant_set [where P = "\<lambda>s. length s = length st"]; simp)+

lemma assoc_loop_aligned:
  "length st = STATE_WORDS inst \<Longrightarrow> assoc_loop inst True st inp = assoc_loop inst False st inp"
proof (induction inst "True" st inp rule: assoc_loop.induct)
  case (1 inst st inp)
  then show ?case
    by (simp add: assoc_loop.simps [of inst _ st inp] rho_whi_aut_aligned length_rho_aut Let_def)
qed

lemma length_assoc_loop:
  "length st = STATE_WORDS inst \<Longrightarrow> length (fst (assoc_loop inst al st inp)) = STATE_WORDS inst"
proof (induction inst al st inp rule: assoc_loop.induct)
  case (1 inst al st inp)
  then show ?case
    by (simp add: assoc_loop.simps [of inst al st inp] length_rho_aut Let_def)
qed

lemma length_ProcessAssocData [simp]:
  "length st = STATE_WORDS inst \<Longrightarrow> length (ProcessAssocData inst st inp al) = STATE_WORDS inst"
  using length_assoc_loop [of st inst al inp]
  by (cases "assoc_loop inst al st inp") (simp add: ProcessAssocData_def Let_def length_rho_aut)

lemma ProcessAssocData_aligned:
  "length st = STATE_WORDS inst \<Longrightarrow> ProcessAssocData inst st inp al = ProcessAssocData inst st inp False"
  using assoc_loop_aligned [of st inst inp] by (cases al) (simp_all add: ProcessAssocData_def)

lemma length_Initialize [simp]:
  "length k = SCHWAEMM_KEY_BYTES inst \<Longrightarrow> length n = SCHWAEMM_NONCE_BYTES inst \<Longrightarrow>
   length (Initialize inst k n) = STATE_WORDS inst"
  using inst_sizes [of inst] by (simp add: Initialize_def)

section \<open>The AEAD contract\<close>

text \<open>
  The state the message is processed from: it depends on the key, the nonce and the
  associated data only, and is the same for both directions.
\<close>

definition message_state ::
    "schwaemm_inst \<Rightarrow> bool \<Rightarrow> u8 list \<Rightarrow> u8 list \<Rightarrow> u8 list \<Rightarrow> u32 list" where
  "message_state inst al ad npub k =
     (let state = Initialize inst k npub
      in if length ad \<noteq> 0 then ProcessAssocData inst state ad al else state)"

lemma message_state_facts:
  assumes "length k = SCHWAEMM_KEY_BYTES inst" and "length n = SCHWAEMM_NONCE_BYTES inst"
  shows "length (message_state inst al ad n k) = STATE_WORDS inst"
    and "message_state inst al ad n k = message_state inst False ad n k"
  using assms by (simp_all add: message_state_def Let_def ProcessAssocData_aligned [of _ _ _ al])

lemma crypto_aead_message_state:
  "crypto_aead_encrypt inst al m ad n k =
     (let (st, c) = (if m = [] then (message_state inst (fst al) ad n k, [])
                     else ProcessPlainText inst (message_state inst (fst al) ad n k) m (snd al))
      in c @ GenerateTag inst (Finalize inst st k))"
  "crypto_aead_decrypt inst al c ad n k =
     (if length c < SCHWAEMM_TAG_BYTES inst then Inl OutOfBounds
      else let csize = length c - SCHWAEMM_TAG_BYTES inst;
               (st, m) = (if csize = 0 then (message_state inst (fst al) ad n k, [])
                          else ProcessCipherText inst (message_state inst (fst al) ad n k)
                                 (take csize c) (snd al))
           in Inr (VerifyTag inst (Finalize inst st k) (drop csize c), m))"
  by (simp_all add: crypto_aead_encrypt_def crypto_aead_decrypt_def message_state_def Let_def
      split: prod.split)

lemma encrypt_decrypt_res:
  assumes "length k = SCHWAEMM_KEY_BYTES inst" and "length n = SCHWAEMM_NONCE_BYTES inst"
  shows "length (crypto_aead_encrypt inst al m ad n k) = length m + SCHWAEMM_TAG_BYTES inst"
    and "crypto_aead_decrypt inst al' (crypto_aead_encrypt inst al m ad n k) ad n k = Inr (0, m)"
proof -
  let ?s = "message_state inst False ad n k"
  note ms = message_state_facts [OF assms]
  obtain s1 c where c: "ProcessPlainText inst ?s m (snd al) = (s1, c)" "length c = length m"
      "length s1 = STATE_WORDS inst" "ProcessCipherText inst ?s c (snd al') = (s1, m)"
    using ProcessPlainText_inverse [OF ms(1)] by blast
  define s2 where "s2 = Finalize inst (if m = [] then ?s else s1) k"
  have len: "length s2 = STATE_WORDS inst" using c ms by (simp add: s2_def)
  have enc: "crypto_aead_encrypt inst al m ad n k = c @ GenerateTag inst s2"
    using c ms(2) [of "fst al" ad]
    by (auto simp: crypto_aead_message_state s2_def)
  show "length (crypto_aead_encrypt inst al m ad n k) = length m + SCHWAEMM_TAG_BYTES inst"
    using enc c len by (simp add: length_GenerateTag)
  show "crypto_aead_decrypt inst al' (crypto_aead_encrypt inst al m ad n k) ad n k = Inr (0, m)"
    using enc c len ms(2) [of "fst al'" ad] VerifyTag_correct [OF len, of "GenerateTag inst s2"]
    by (auto simp: crypto_aead_message_state(2) s2_def length_GenerateTag)
qed

lemma decrypt_encrypt_res:
  assumes "length k = SCHWAEMM_KEY_BYTES inst" and "length n = SCHWAEMM_NONCE_BYTES inst"
    and dec: "crypto_aead_decrypt inst al c ad n k = Inr (0, m)"
  shows "crypto_aead_encrypt inst al' m ad n k = c"
proof -
  let ?s = "message_state inst False ad n k" and ?tl = "SCHWAEMM_TAG_BYTES inst"
  let ?b = "take (length c - ?tl) c" and ?tag = "drop (length c - ?tl) c"
  note ms = message_state_facts [OF assms(1,2)]
  have tl: "?tl \<le> length c" using dec by (auto simp: crypto_aead_decrypt_def split: if_splits)
  obtain s1 m' where m': "ProcessCipherText inst ?s ?b (snd al) = (s1, m')"
      "length m' = length ?b" "length s1 = STATE_WORDS inst"
      "ProcessPlainText inst ?s m' (snd al') = (s1, ?b)"
    using ProcessCipherText_inverse [OF ms(1)] by blast
  define s2 where "s2 = Finalize inst (if ?b = [] then ?s else s1) k"
  have len: "length s2 = STATE_WORDS inst" using m' ms by (simp add: s2_def)
  have "VerifyTag inst s2 ?tag = 0 \<and> m = m'"
    using dec tl m' ms(2) [of "fst al" ad]
    by (auto simp: crypto_aead_message_state(2) s2_def Let_def split: if_splits)
  then have "?tag = GenerateTag inst s2" "m = m'" using VerifyTag_correct [OF len, of ?tag] tl by auto
  then show ?thesis
    using m' ms(2) [of "fst al'" ad] append_take_drop_id [of "length c - ?tl" c]
    by (auto simp: crypto_aead_message_state(1) s2_def split: if_splits)
qed

lemma decrypt_values:
  assumes "length n = SCHWAEMM_NONCE_BYTES inst" and "length k = SCHWAEMM_KEY_BYTES inst"
    and "SCHWAEMM_TAG_BYTES inst \<le> length c"
  shows "\<exists>r m. crypto_aead_decrypt inst al c ad n k = Inr (r, m) \<and> (r = 0 \<or> r = -1) \<and>
           length m + SCHWAEMM_TAG_BYTES inst = length c"
proof -
  let ?b = "take (length c - SCHWAEMM_TAG_BYTES inst) c"
  have "length (message_state inst (fst al) ad n k) = STATE_WORDS inst"
    using message_state_facts [OF assms(2,1)] by blast
  then obtain s1 m where "ProcessCipherText inst (message_state inst (fst al) ad n k) ?b (snd al)
      = (s1, m)" "length m = length ?b"
    using ProcessCipherText_inverse by blast
  then show ?thesis
    using assms(3) VerifyTag_values [of inst]
    by (cases "length c = SCHWAEMM_TAG_BYTES inst") (simp_all add: crypto_aead_message_state(2) Let_def)
qed

definition key_nonce_ok :: "schwaemm_inst \<Rightarrow> u8 list \<Rightarrow> u8 list \<Rightarrow> bool" where
  "key_nonce_ok inst n k \<longleftrightarrow>
     length n = SCHWAEMM_NONCE_BYTES inst \<and> length k = SCHWAEMM_KEY_BYTES inst"

interpretation schwaemm: aead
  "crypto_aead_encrypt inst al" "crypto_aead_decrypt inst al" "key_nonce_ok inst"
  "SCHWAEMM_TAG_BYTES inst"
  for inst al
  by unfold_locales
    (auto simp: key_nonce_ok_def encrypt_decrypt_res decrypt_encrypt_res)

section \<open>Properties\<close>

text \<open>
  C16: for every instance, every key and nonce of the instance's size, every associated
  data and every message (the empty ones included), decrypting an encryption returns 0
  and the message, whatever the alignment of the buffers on either side; the ciphertext
  is one tag longer than the message.
\<close>

theorem aead_roundtrip:
  assumes "length n = SCHWAEMM_NONCE_BYTES inst" and "length k = SCHWAEMM_KEY_BYTES inst"
  shows "crypto_aead_decrypt inst al' (crypto_aead_encrypt inst al m ad n k) ad n k = Inr (0, m)
       \<and> length (crypto_aead_encrypt inst al m ad n k) = length m + SCHWAEMM_TAG_BYTES inst"
  using assms by (simp add: encrypt_decrypt_res)

theorem aead_roundtrip_witness:
  "length (replicate 32 (1 :: u8)) = SCHWAEMM_NONCE_BYTES S256128 \<and>
   length (replicate 16 (2 :: u8)) = SCHWAEMM_KEY_BYTES S256128 \<and>
   crypto_aead_decrypt S256128 (True, False)
     (crypto_aead_encrypt S256128 (False, True) [1, 2, 3] [4] (replicate 32 1) (replicate 16 2))
     [4] (replicate 32 1) (replicate 16 2) = Inr (0, [1, 2, 3])"
proof -
  have "length (replicate 32 (1 :: u8)) = SCHWAEMM_NONCE_BYTES S256128"
    and "length (replicate 16 (2 :: u8)) = SCHWAEMM_KEY_BYTES S256128" by simp_all
  then show ?thesis using aead_roundtrip by blast
qed

text \<open>
  C2: decryption accepts nothing but encryptions. Any ciphertext at least one tag long is
  decrypted to a text one tag shorter, the return value is 0 or -1, and it is 0 exactly
  when the ciphertext is the encryption of that text under the same associated data,
  nonce and key: no other bytes, however close, are accepted.
\<close>

theorem aead_authentic:
  assumes "length n = SCHWAEMM_NONCE_BYTES inst" and "length k = SCHWAEMM_KEY_BYTES inst"
    and "SCHWAEMM_TAG_BYTES inst \<le> length c"
  shows "\<exists>r m. crypto_aead_decrypt inst al c ad n k = Inr (r, m) \<and>
           length m + SCHWAEMM_TAG_BYTES inst = length c \<and> (r = 0 \<or> r = -1) \<and>
           (r = 0 \<longleftrightarrow> crypto_aead_encrypt inst al' m ad n k = c)"
proof -
  obtain r m where d: "crypto_aead_decrypt inst al c ad n k = Inr (r, m)" "r = 0 \<or> r = -1"
      "length m + SCHWAEMM_TAG_BYTES inst = length c"
    using decrypt_values [OF assms] by blast
  moreover have "r = 0" if "crypto_aead_encrypt inst al' m ad n k = c"
    using that d encrypt_decrypt_res(2) [OF assms(2,1), of al al' m ad] by simp
  ultimately show ?thesis
    using decrypt_encrypt_res [OF assms(2,1), of al c ad m al']
    by (intro exI [of _ r] exI [of _ m]) auto
qed

theorem aead_authentic_witness:
  "\<exists>r m. crypto_aead_decrypt S128128 (True, True) (replicate 20 5) [1] (replicate 16 0) (replicate 16 0)
           = Inr (r, m) \<and> length m + 16 = 20 \<and> (r = 0 \<or> r = -1) \<and>
           (r = 0 \<longleftrightarrow> crypto_aead_encrypt S128128 (False, False) m [1] (replicate 16 0) (replicate 16 0)
              = replicate 20 5)"
  using aead_authentic [of "replicate 16 0" S128128 "replicate 16 0" "replicate 20 5" "(True, True)" "[1]"
      "(False, False)"] by simp

text \<open>
  The aligned paths, which read and write the caller's buffers directly, and the
  unaligned paths, which work in place on a copy, compute the same ciphertext.
\<close>

theorem aead_alignment_irrelevant:
  assumes "length n = SCHWAEMM_NONCE_BYTES inst" and "length k = SCHWAEMM_KEY_BYTES inst"
  shows "crypto_aead_encrypt inst (b1, b2) m ad n k = crypto_aead_encrypt inst (b3, b4) m ad n k"
  using decrypt_encrypt_res [OF assms(2,1) encrypt_decrypt_res(2) [OF assms(2,1)]] by metis

theorem aead_alignment_irrelevant_witness:
  "crypto_aead_encrypt S192192 (True, True) [1, 2] [3] (replicate 24 0) (replicate 24 0) =
   crypto_aead_encrypt S192192 (False, False) [1, 2] [3] (replicate 24 0) (replicate 24 0)"
  by (rule aead_alignment_irrelevant) simp_all

end
