(* ===== verification/SEalgo.thy ===== *)
theory SEalgo
  imports Utils Schwaemm
begin

text \<open>
  The secure element: \<^verbatim>\<open>runtime/SEalgo.c\<close>, the structures of
  \<^verbatim>\<open>runtime/multi_instruction.h\<close> and the codes of \<^verbatim>\<open>runtime/opcode.h\<close>. Every
  \<^verbatim>\<open>exit(EXIT_FAILURE)\<close> is an error value. The global \<^verbatim>\<open>ptr\<close> into the instructions is
  the list of the bytes not yet read, threaded through the functions that move it.
  Registers are options, \<open>None\<close> being a cell of \<^verbatim>\<open>malloc\<close> that was never written. An
  \<^verbatim>\<open>EWORD\<close> is the list of its leading initialised bytes: all 20 after an encryption, 4
  after \<^verbatim>\<open>EWORD_encode\<close>, none after \<^verbatim>\<open>malloc\<close>. The function \<^verbatim>\<open>crypto_box_seal_open\<close> of
  libsodium is a parameter, \<open>seal_open\<close>. Buffers handed to the cipher are taken to be
  unaligned, which changes no result.
\<close>

section \<open>Data\<close>

record ID =
  instrID :: u32
  outputID :: u32

record AELLS =
  reveal_flag :: u8
  inp_count :: u32
  out_count :: u32
  inputIDs :: "ID list"
  aells_instrID :: u32
  bytelen :: u32
  bytecode :: "u8 list"

type_synonym EWORD = "u8 list"
type_synonym regs = "uSE option list"

definition op_NOP :: u8 where "op_NOP = 0"
definition op_MOV :: u8 where "op_MOV = 1"
definition op_XOR :: u8 where "op_XOR = 2"
definition op_OR :: u8 where "op_OR = 3"
definition op_AND :: u8 where "op_AND = 4"
definition op_LSL :: u8 where "op_LSL = 5"
definition op_LSR :: u8 where "op_LSR = 6"
definition op_LT :: u8 where "op_LT = 7"
definition op_ADD :: u8 where "op_ADD = 8"
definition op_SUB :: u8 where "op_SUB = 9"
definition op_MUL :: u8 where "op_MUL = 10"
definition op_EQ :: u8 where "op_EQ = 11"
definition op_DIV :: u8 where "op_DIV = 13"
definition op_MOD :: u8 where "op_MOD = 14"
definition op_CMOV :: u8 where "op_CMOV = 15"

definition fl_INN :: u8 where "fl_INN = 0"
definition fl_IRN :: u8 where "fl_IRN = 1"
definition fl_IRR :: u8 where "fl_IRR = 2"
definition fl_IRI :: u8 where "fl_IRI = 3"
definition fl_IIN :: u8 where "fl_IIN = 4"
definition fl_IIR :: u8 where "fl_IIR = 5"
definition fl_III :: u8 where "fl_III = 6"
definition fl_RNN :: u8 where "fl_RNN = 7"
definition fl_RRN :: u8 where "fl_RRN = 8"
definition fl_RRI :: u8 where "fl_RRI = 9"
definition fl_RRR :: u8 where "fl_RRR = 10"
definition fl_RII :: u8 where "fl_RII = 11"
definition fl_RIR :: u8 where "fl_RIR = 12"
definition fl_RIN :: u8 where "fl_RIN = 13"

lemmas opcode_defs =
  op_NOP_def op_MOV_def op_XOR_def op_OR_def op_AND_def op_LSL_def op_LSR_def op_LT_def op_ADD_def
  op_SUB_def op_MUL_def op_EQ_def op_DIV_def op_MOD_def op_CMOV_def

lemmas flag_defs =
  fl_INN_def fl_IRN_def fl_IRR_def fl_IRI_def fl_IIN_def fl_IIR_def fl_III_def fl_RNN_def fl_RRN_def
  fl_RRI_def fl_RRR_def fl_RII_def fl_RIR_def fl_RIN_def

definition pubkey :: "u8 list" where
  "pubkey = [0xC4, 0x82, 0x46, 0x24, 0x5F, 0x2E, 0x8D, 0x45,
             0x6F, 0x14, 0x1D, 0x07, 0x4A, 0x3A, 0x97, 0x12,
             0x59, 0x0D, 0x54, 0xA4, 0x44, 0x04, 0x9C, 0xE9,
             0xBA, 0xCB, 0x59, 0xD0, 0xDD, 0xC4, 0x76, 0x62]"

definition prvkey :: "u8 list" where
  "prvkey = [0x2D, 0xC8, 0x72, 0x0F, 0xD4, 0x96, 0x4E, 0x38,
             0x74, 0x92, 0x22, 0xAA, 0xF5, 0x00, 0x6B, 0xC8,
             0xAF, 0x6D, 0x4C, 0xC6, 0x78, 0x85, 0xB0, 0x08,
             0x31, 0x83, 0x80, 0xC9, 0xC0, 0x14, 0x79, 0xB0]"

definition seckey :: "u8 list" where
  "seckey = [0x2, 0x2, 0x2, 0x2, 0x2, 0x2, 0x2, 0x2,
             0x2, 0x2, 0x2, 0x2, 0x2, 0x2, 0x2, 0x2]"

section \<open>Auxiliary functions\<close>

text \<open>The cipher as the secure element calls it.\<close>

abbreviation aenc :: "u8 list \<Rightarrow> u8 list \<Rightarrow> u8 list \<Rightarrow> u8 list \<Rightarrow> u8 list" where
  "aenc \<equiv> crypto_aead_encrypt SCHWAEMM_INST (False, False)"

abbreviation adec :: "u8 list \<Rightarrow> u8 list \<Rightarrow> u8 list \<Rightarrow> u8 list \<Rightarrow> (int \<times> u8 list) res" where
  "adec \<equiv> crypto_aead_decrypt SCHWAEMM_INST (False, False)"

text \<open>Reading a cell that may not have been written.\<close>

definition initialised :: "'a option \<Rightarrow> 'a res" where
  "initialised x = (case x of None \<Rightarrow> Inl Uninitialised | Some v \<Rightarrow> Inr v)"

text \<open>Reading \<open>n\<close> bytes of an encrypted word.\<close>

definition eword_bytes :: "EWORD \<Rightarrow> nat \<Rightarrow> u8 list res" where
  "eword_bytes w n = (if n \<le> length w then Inr (take n w) else Inl Uninitialised)"

definition hash_withprefix :: "u32 \<Rightarrow> u8 list \<Rightarrow> u8 list res" where
  "hash_withprefix prefix msg =
     bindr (u32_tobytes 4 prefix) (\<lambda>p. Inr (crypto_hash ESCH_INST False (p @ msg)))"

text \<open>
  The associated data of a multi-instruction. The buffer has \<^verbatim>\<open>adlen\<close> bytes, a product of
  32-bit integers: if it wraps around, the loop writes behind the buffer.
\<close>

definition LLS_ad :: "AELLS \<Rightarrow> nat \<Rightarrow> nat \<Rightarrow> u8 list res" where
  "LLS_ad aells lb_m lb_o =
     (let adlen = of_nat U32_INBYTES + of_nat FLAG_INBYTES + of_nat lb_m * 2 +
                  (of_nat U32_INBYTES + of_nat lb_o) * inp_count aells :: u32
      in bindr (u32_tobytes U32_INBYTES (aells_instrID aells)) (\<lambda>instrID_bstr.
         bindr (u32_tobytes FLAG_INBYTES (ucast (reveal_flag aells))) (\<lambda>rf.
         bindr (u32_tobytes lb_m (inp_count aells)) (\<lambda>ic.
         bindr (foldM (\<lambda>i ad.
                  bindr (read_at (inputIDs aells) i) (\<lambda>id.
                  bindr (u32_tobytes U32_INBYTES (instrID id)) (\<lambda>a.
                  bindr (u32_tobytes lb_o (outputID id)) (\<lambda>b. Inr (ad @ a @ b)))))
                [0..<unat (inp_count aells)] (instrID_bstr @ rf @ ic)) (\<lambda>ad.
         bindr (u32_tobytes lb_m (out_count aells)) (\<lambda>oc.
           let ad = ad @ oc
           in if length ad = unat adlen then Inr ad else Inl OutOfBounds))))))"

definition LLS_decrypt :: "AELLS \<Rightarrow> u8 list \<Rightarrow> nat \<Rightarrow> nat \<Rightarrow> u8 list res" where
  "LLS_decrypt aells shared_key lb_m lb_o =
     bindr (u32_tobytes U32_INBYTES (aells_instrID aells)) (\<lambda>instrID_bstr.
       let nonce = replicate (NONCE_INBYTES - U32_INBYTES) 0 @ instrID_bstr
       in bindr (LLS_ad aells lb_m lb_o) (\<lambda>ad.
          bindr (read_bytes (bytecode aells) (unat (bytelen aells))) (\<lambda>c.
          bindr (adec c ad nonce shared_key) (\<lambda>(ret, m).
            if ret \<noteq> 0 \<or> length m \<noteq> unat (bytelen aells - of_nat MAC_INBYTES)
            then Inl LLSDecryptFailed else Inr m))))"

text \<open>The associated data of an encrypted word: its two identifiers and the execution.\<close>

definition word_ad :: "u32 \<Rightarrow> u32 \<Rightarrow> u8 list \<Rightarrow> u8 list res" where
  "word_ad instr outp execID =
     bindr (u32_tobytes U32_INBYTES instr) (\<lambda>a.
     bindr (u32_tobytes U32_INBYTES outp) (\<lambda>b.
     bindr (read_bytes execID HASH_INBYTES) (\<lambda>e. Inr (a @ b @ e))))"

definition EWORD_decrypt :: "regs \<Rightarrow> AELLS \<Rightarrow> u8 list \<Rightarrow> EWORD list \<Rightarrow> regs res" where
  "EWORD_decrypt reg aells execID Cx =
     foldM (\<lambda>i reg.
       bindr (read_at (inputIDs aells) i) (\<lambda>id.
       bindr (word_ad (instrID id) (outputID id) execID) (\<lambda>ad.
       bindr (hash_withprefix 3 ad) (\<lambda>nonce.
       bindr (read_at Cx i) (\<lambda>w.
       bindr (eword_bytes w C_INBYTES) (\<lambda>c.
       bindr (adec c ad nonce seckey) (\<lambda>(ret, bword).
         if ret \<noteq> 0 \<or> length bword \<noteq> WORD_INBYTES
         then Inl (WordDecryptFailed (aells_instrID aells) (instrID id) (outputID id))
         else bindr (load_word bword WORD_INBYTES) (\<lambda>word.
              write_at reg i (Some word)))))))))
     [0..<unat (inp_count aells)] reg"

text \<open>Register \<^verbatim>\<open>reg[r-l_out+i]\<close>, the index in 32-bit arithmetic.\<close>

definition out_register :: "regs \<Rightarrow> u32 \<Rightarrow> nat \<Rightarrow> uSE res" where
  "out_register reg r i =
     bindr (read_at reg (unat (r - of_nat l_out + of_nat i))) initialised"

definition EWORD_encrypt :: "AELLS \<Rightarrow> u8 list \<Rightarrow> regs \<Rightarrow> u32 \<Rightarrow> EWORD list res" where
  "EWORD_encrypt aells execID reg r =
     mapM (\<lambda>i.
       bindr (out_register reg r i) (\<lambda>x.
       bindr (word_tobytes x) (\<lambda>bword.
       bindr (word_ad (aells_instrID aells) (of_nat i) execID) (\<lambda>ad.
       bindr (hash_withprefix 3 ad) (\<lambda>nonce.
         let c = aenc bword ad nonce seckey
         in if length c \<noteq> C_INBYTES then Inl WordEncryptFailed else Inr c)))))
     [0..<unat (out_count aells)]"

definition EWORD_encode :: "AELLS \<Rightarrow> regs \<Rightarrow> u32 \<Rightarrow> EWORD list res" where
  "EWORD_encode aells reg r =
     mapM (\<lambda>i. bindr (out_register reg r i) word_tobytes) [0..<unat (out_count aells)]"

section \<open>Executing a low-level snippet\<close>

text \<open>
  C gives no meaning to a shift by 32 or more and to a division by zero; these are the
  errors \<open>BadShift\<close> and \<open>DivisionByZero\<close>.
\<close>

definition instruction_execute :: "u8 \<Rightarrow> uSE \<Rightarrow> uSE \<Rightarrow> uSE \<Rightarrow> uSE res" where
  "instruction_execute opcode operand1 operand2 operand3 =
     (if opcode = op_MOV then Inr operand1
      else if opcode = op_XOR then Inr (operand1 XOR operand2)
      else if opcode = op_OR then Inr (operand1 OR operand2)
      else if opcode = op_AND then Inr (operand1 AND operand2)
      else if opcode = op_LSL then
        (if operand2 < 32 then Inr (push_bit (unat operand2) operand1) else Inl BadShift)
      else if opcode = op_LSR then
        (if operand2 < 32 then Inr (drop_bit (unat operand2) operand1) else Inl BadShift)
      else if opcode = op_LT then Inr (if operand1 < operand2 then 1 else 0)
      else if opcode = op_ADD then Inr (operand1 + operand2)
      else if opcode = op_SUB then Inr (operand1 - operand2)
      else if opcode = op_MUL then Inr (operand1 * operand2)
      else if opcode = op_EQ then Inr (if operand1 = operand2 then 1 else 0)
      else if opcode = op_DIV then
        (if operand2 = 0 then Inl DivisionByZero else Inr (operand1 div operand2))
      else if opcode = op_MOD then
        (if operand2 = 0 then Inl DivisionByZero else Inr (operand1 mod operand2))
      else if opcode = op_CMOV then Inr (if operand1 \<noteq> 0 then operand2 else operand3)
      else Inl (InvalidOpcode (unat opcode)))"

text \<open>Both loads return the value and the bytes behind it (the moved \<^verbatim>\<open>ptr\<close>).\<close>

definition load_regvalue :: "nat \<Rightarrow> regs \<Rightarrow> u8 list \<Rightarrow> (uSE \<times> u8 list) res" where
  "load_regvalue n reg ptr =
     bindr (load_u32 ptr n) (\<lambda>src.
     bindr (read_at reg (unat src)) (\<lambda>cell.
     bindr (initialised cell) (\<lambda>val. Inr (val, drop n ptr))))"

definition load_immvalue :: "nat \<Rightarrow> u8 list \<Rightarrow> (uSE \<times> u8 list) res" where
  "load_immvalue n ptr = bindr (load_word ptr n) (\<lambda>val. Inr (val, drop n ptr))"

text \<open>The switch on the flag: the three values and the moved pointer.\<close>

definition LLS_operands ::
    "u8 \<Rightarrow> nat \<Rightarrow> nat \<Rightarrow> regs \<Rightarrow> u8 list \<Rightarrow> (uSE \<times> uSE \<times> uSE \<times> u8 list) res" where
  "LLS_operands flag lb_c lb_r reg ptr =
     (if flag = fl_INN then
        bindr (load_immvalue lb_c ptr) (\<lambda>(val1, ptr). Inr (val1, 0, 0, ptr))
      else if flag = fl_IRN then
        bindr (load_immvalue lb_c ptr) (\<lambda>(val1, ptr).
        bindr (load_regvalue lb_r reg ptr) (\<lambda>(val2, ptr). Inr (val1, val2, 0, ptr)))
      else if flag = fl_IRR then
        bindr (load_immvalue lb_c ptr) (\<lambda>(val1, ptr).
        bindr (load_regvalue lb_r reg ptr) (\<lambda>(val2, ptr).
        bindr (load_regvalue lb_r reg ptr) (\<lambda>(val3, ptr). Inr (val1, val2, val3, ptr))))
      else if flag = fl_IRI then
        bindr (load_immvalue lb_c ptr) (\<lambda>(val1, ptr).
        bindr (load_regvalue lb_r reg ptr) (\<lambda>(val2, ptr).
        bindr (load_immvalue lb_c ptr) (\<lambda>(val3, ptr). Inr (val1, val2, val3, ptr))))
      else if flag = fl_IIN then
        bindr (load_immvalue lb_c ptr) (\<lambda>(val1, ptr).
        bindr (load_immvalue lb_c ptr) (\<lambda>(val2, ptr). Inr (val1, val2, 0, ptr)))
      else if flag = fl_IIR then
        bindr (load_immvalue lb_c ptr) (\<lambda>(val1, ptr).
        bindr (load_immvalue lb_c ptr) (\<lambda>(val2, ptr).
        bindr (load_regvalue lb_r reg ptr) (\<lambda>(val3, ptr). Inr (val1, val2, val3, ptr))))
      else if flag = fl_III then
        bindr (load_immvalue lb_c ptr) (\<lambda>(val1, ptr).
        bindr (load_immvalue lb_c ptr) (\<lambda>(val2, ptr).
        bindr (load_immvalue lb_c ptr) (\<lambda>(val3, ptr). Inr (val1, val2, val3, ptr))))
      else if flag = fl_RNN then
        bindr (load_regvalue lb_r reg ptr) (\<lambda>(val1, ptr). Inr (val1, 0, 0, ptr))
      else if flag = fl_RRN then
        bindr (load_regvalue lb_r reg ptr) (\<lambda>(val1, ptr).
        bindr (load_regvalue lb_r reg ptr) (\<lambda>(val2, ptr). Inr (val1, val2, 0, ptr)))
      else if flag = fl_RRI then
        bindr (load_regvalue lb_r reg ptr) (\<lambda>(val1, ptr).
        bindr (load_regvalue lb_r reg ptr) (\<lambda>(val2, ptr).
        bindr (load_immvalue lb_c ptr) (\<lambda>(val3, ptr). Inr (val1, val2, val3, ptr))))
      else if flag = fl_RRR then
        bindr (load_regvalue lb_r reg ptr) (\<lambda>(val1, ptr).
        bindr (load_regvalue lb_r reg ptr) (\<lambda>(val2, ptr).
        bindr (load_regvalue lb_r reg ptr) (\<lambda>(val3, ptr). Inr (val1, val2, val3, ptr))))
      else if flag = fl_RII then
        bindr (load_regvalue lb_r reg ptr) (\<lambda>(val1, ptr).
        bindr (load_immvalue lb_c ptr) (\<lambda>(val2, ptr).
        bindr (load_immvalue lb_c ptr) (\<lambda>(val3, ptr). Inr (val1, val2, val3, ptr))))
      else if flag = fl_RIR then
        bindr (load_regvalue lb_r reg ptr) (\<lambda>(val1, ptr).
        bindr (load_immvalue lb_c ptr) (\<lambda>(val2, ptr).
        bindr (load_regvalue lb_r reg ptr) (\<lambda>(val3, ptr). Inr (val1, val2, val3, ptr))))
      else if flag = fl_RIN then
        bindr (load_regvalue lb_r reg ptr) (\<lambda>(val1, ptr).
        bindr (load_immvalue lb_c ptr) (\<lambda>(val2, ptr). Inr (val1, val2, 0, ptr)))
      else Inl (InvalidFlag (unat flag)))"

text \<open>One instruction: the moved pointer and the registers. The first byte is \<open>b\<close>.\<close>

definition LLS_step :: "nat \<Rightarrow> nat \<Rightarrow> u8 \<Rightarrow> u8 list \<Rightarrow> regs \<Rightarrow> (u8 list \<times> regs) res" where
  "LLS_step lb_c lb_r b ptr reg =
     (let opcode = drop_bit 4 (b AND 0xF0); flag = b AND 0x0F
      in if opcode = op_NOP then Inr (ptr, reg)
         else bindr (load_u32 ptr lb_r) (\<lambda>dst.
              bindr (LLS_operands flag lb_c lb_r reg (drop lb_r ptr)) (\<lambda>(val1, val2, val3, ptr).
              bindr (instruction_execute opcode val1 val2 val3) (\<lambda>ret.
              bindr (write_at reg (unat dst) (Some ret)) (\<lambda>reg. Inr (ptr, reg))))))"

lemma load_length:
  "load_regvalue n reg ptr = Inr (v, p) \<Longrightarrow> length p \<le> length ptr"
  "load_immvalue n ptr = Inr (v, p) \<Longrightarrow> length p \<le> length ptr"
  by (auto simp: load_regvalue_def load_immvalue_def res_simps)

lemma LLS_operands_length:
  "LLS_operands flag lb_c lb_r reg ptr = Inr (v1, v2, v3, p) \<Longrightarrow> length p \<le> length ptr"
  unfolding LLS_operands_def
  by (auto simp: res_simps split: if_splits dest!: load_length intro: le_trans)

lemma LLS_step_length: "LLS_step lb_c lb_r b ptr reg = Inr (p, r) \<Longrightarrow> length p \<le> length ptr"
  by (auto simp: LLS_step_def Let_def res_simps split: if_splits dest!: LLS_operands_length)

text \<open>
  The loop ends when \<^verbatim>\<open>ptr\<close> reaches the end of the bytes; an instruction cut off by the
  end reads behind it and is an error, so the end is never jumped over.
\<close>

function LLS_loop :: "nat \<Rightarrow> nat \<Rightarrow> nat \<Rightarrow> u8 list \<Rightarrow> regs \<Rightarrow> regs res" where
  "LLS_loop lb_c lb_r counter [] reg = Inr reg"
| "LLS_loop lb_c lb_r counter (b # ptr) reg =
     (if Suc counter > LLS_MAX_LENGTH then Inl LLSTooLong
      else bindr (LLS_step lb_c lb_r b ptr reg) (\<lambda>(ptr, reg).
             LLS_loop lb_c lb_r (Suc counter) ptr reg))"
  by pat_completeness auto
termination
  by (relation "measure (\<lambda>(lb_c, lb_r, counter, ptr, reg). length ptr)")
     (auto dest: LLS_step_length)

definition LLS_execute :: "regs \<Rightarrow> u8 list \<Rightarrow> nat \<Rightarrow> nat \<Rightarrow> regs res" where
  "LLS_execute reg lls_bytecode lb_c lb_r = LLS_loop lb_c lb_r 0 lls_bytecode reg"

section \<open>The interface of the secure element\<close>

text \<open>
  \<^verbatim>\<open>SEstart\<close>: the encrypted shared key, the execution identifier and the last input token
  \<open>Cin\<close>. \<open>header\<close> is the bytecode from the header on: the sealed key followed by the input
  count. The sum \<^verbatim>\<open>n + l_out - 1\<close> wraps around.
\<close>

definition SEstart ::
    "(u8 list \<Rightarrow> u8 list \<Rightarrow> u8 list \<Rightarrow> u8 list option) \<Rightarrow> u8 list \<Rightarrow> nat \<Rightarrow> u8 list \<Rightarrow>
     (u8 list \<times> u8 list \<times> u8 list) res" where
  "SEstart seal_open header lb_m hash =
     (let header_inbytes = CT_SEPUB_INBYTES + lb_m
      in bindr (read_bytes hash HASH_INBYTES) (\<lambda>h.
         bindr (read_bytes header header_inbytes) (\<lambda>hd.
         bindr (hash_withprefix 0 (h @ hd)) (\<lambda>execID.
         case seal_open (take CT_SEPUB_INBYTES header) pubkey prvkey of
           None \<Rightarrow> Inl HeaderDecryptFailed
         | Some shared_key \<Rightarrow>
             bindr (hash_withprefix 1 execID) (\<lambda>nonce.
             let esharedkey = aenc (take SHAREDKEY_INBYTES shared_key) [] nonce seckey
             in if length esharedkey \<noteq> ENCRYPTED_SHAREDKEY_INBYTES then Inl SharedKeyEncryptFailed
                else
                  bindr (load_u32 (drop CT_SEPUB_INBYTES header) lb_m) (\<lambda>n.
                  let L = (n + of_nat l_out - 1) div of_nat l_out
                  in bindr (u32_tobytes U32_INBYTES L) (\<lambda>Lbstr.
                     let ad = h @ Lbstr @ execID
                     in bindr (hash_withprefix 2 (execID @ Lbstr)) (\<lambda>nonce.
                        let Cin = aenc [] ad nonce seckey
                        in if length Cin \<noteq> CIN_INBYTES then Inl CinEncryptFailed
                           else Inr (esharedkey, execID, Cin)))))))))"

text \<open>
  \<^verbatim>\<open>SEinput\<close>: the previous input token and the encrypted words of the batch \<open>X\<close>.
\<close>

definition SEinput ::
    "u8 list \<Rightarrow> u32 \<Rightarrow> u8 list \<Rightarrow> uSE list \<Rightarrow> u8 list \<Rightarrow> (u8 list \<times> EWORD list) res" where
  "SEinput execID i Hp X Cinc =
     (if i < 1 then Inl BadBatchIndex
      else bindr (read_bytes Hp HASH_INBYTES) (\<lambda>hp.
           if i = 1 \<and> fold (\<lambda>j sum. sum + ucast (hp ! j)) [0..<HASH_INBYTES] (0 :: u32) \<noteq> 0
           then Inl BadInitialHash
           else
             bindr (hashchain Hp X) (\<lambda>Hc.
             bindr (u32_tobytes U32_INBYTES i) (\<lambda>ibstr.
             bindr (hash_withprefix 2 (execID @ ibstr)) (\<lambda>nonce.
             bindr (read_bytes Cinc CIN_INBYTES) (\<lambda>cin.
             bindr (adec cin (Hc @ ibstr @ execID) nonce seckey) (\<lambda>(ret, m).
             if ret \<noteq> 0 \<or> length m \<noteq> 0 then Inl CinDecryptFailed
             else
               bindr (u32_tobytes U32_INBYTES (i - 1)) (\<lambda>pbstr.
               bindr (hash_withprefix 2 (execID @ pbstr)) (\<lambda>nonce.
               let Cinp = aenc [] (hp @ pbstr @ execID) nonce seckey
               in bindr (mapM (\<lambda>j.
                    bindr (word_ad i (of_nat j) execID) (\<lambda>ad.
                    bindr (hash_withprefix 3 ad) (\<lambda>nonce.
                    bindr (read_at X j) (\<lambda>x.
                    bindr (word_tobytes x) (\<lambda>bword.
                      let c = aenc (take U32_INBYTES bword) ad nonce seckey
                      in if length c \<noteq> C_INBYTES then Inl WordEncryptFailed else Inr c)))))
                    [0..<l_out]) (\<lambda>C. Inr (Cinp, C))))))))))) "

text \<open>\<^verbatim>\<open>SEeval\<close>: the output words, revealed or encrypted.\<close>

definition SEeval ::
    "u8 list \<Rightarrow> u8 list \<Rightarrow> AELLS \<Rightarrow> EWORD list \<Rightarrow> u32 \<Rightarrow> nat \<Rightarrow> nat \<Rightarrow> nat \<Rightarrow> nat \<Rightarrow> EWORD list res" where
  "SEeval execID esharedkey aells Cx r lb_m lb_r lb_c lb_o =
     bindr (hash_withprefix 1 execID) (\<lambda>nonce.
     bindr (read_bytes esharedkey ENCRYPTED_SHAREDKEY_INBYTES) (\<lambda>ek.
     bindr (adec ek [] nonce seckey) (\<lambda>(ret, shared_key).
     if ret \<noteq> 0 \<or> length shared_key \<noteq> SHAREDKEY_INBYTES then Inl SharedKeyDecryptFailed
     else
       bindr (LLS_decrypt aells shared_key lb_m lb_o) (\<lambda>lls_bytecode.
       bindr (EWORD_decrypt (replicate (unat r) None) aells execID Cx) (\<lambda>reg.
       bindr (LLS_execute reg lls_bytecode lb_c lb_r) (\<lambda>reg.
       if reveal_flag aells \<noteq> 0 then EWORD_encode aells reg r
       else EWORD_encrypt aells execID reg r))))))"

end
