(* ===== verification/Serializer.thy ===== *)
theory Serializer
  imports SEalgo
begin

text \<open>
  The instruction format: the instructions of the compiler's low-level representation
  (\<^verbatim>\<open>compiler/src/IR.py\<close>), their encoding by \<^verbatim>\<open>compiler/src/code_gen/serializer.py\<close>, and
  their meaning on the registers as arithmetic on integers. The main result is that the
  byte-level loop of the secure element run on an encoding does what the instructions
  mean, error for error.
\<close>

section \<open>Instructions and their encoding\<close>

datatype opcode =
  O_NOP | O_MOV | O_XOR | O_OR | O_AND | O_LSL | O_LSR | O_LT | O_ADD | O_SUB | O_MUL | O_EQ
  | O_DIV | O_MOD | O_CMOV

fun opcode_value :: "opcode \<Rightarrow> nat" where
  "opcode_value O_NOP = 0"
| "opcode_value O_MOV = 1"
| "opcode_value O_XOR = 2"
| "opcode_value O_OR = 3"
| "opcode_value O_AND = 4"
| "opcode_value O_LSL = 5"
| "opcode_value O_LSR = 6"
| "opcode_value O_LT = 7"
| "opcode_value O_ADD = 8"
| "opcode_value O_SUB = 9"
| "opcode_value O_MUL = 10"
| "opcode_value O_EQ = 11"
| "opcode_value O_DIV = 13"
| "opcode_value O_MOD = 14"
| "opcode_value O_CMOV = 15"

datatype operand = ImmOperand nat | RegOperand nat

text \<open>\<^verbatim>\<open>src2\<close> and \<^verbatim>\<open>src3\<close> may be absent, and the constructor asserts that \<^verbatim>\<open>src3\<close> is when
  \<^verbatim>\<open>src2\<close> is.\<close>

datatype srcs = Src1 operand | Src2 operand operand | Src3 operand operand operand

datatype LLI = LLI opcode nat srcs

fun operand_code :: "srcs \<Rightarrow> nat" where
  "operand_code (Src1 (ImmOperand _)) = 0"
| "operand_code (Src2 (ImmOperand _) (RegOperand _)) = 1"
| "operand_code (Src3 (ImmOperand _) (RegOperand _) (RegOperand _)) = 2"
| "operand_code (Src3 (ImmOperand _) (RegOperand _) (ImmOperand _)) = 3"
| "operand_code (Src2 (ImmOperand _) (ImmOperand _)) = 4"
| "operand_code (Src3 (ImmOperand _) (ImmOperand _) (RegOperand _)) = 5"
| "operand_code (Src3 (ImmOperand _) (ImmOperand _) (ImmOperand _)) = 6"
| "operand_code (Src1 (RegOperand _)) = 7"
| "operand_code (Src2 (RegOperand _) (RegOperand _)) = 8"
| "operand_code (Src3 (RegOperand _) (RegOperand _) (ImmOperand _)) = 9"
| "operand_code (Src3 (RegOperand _) (RegOperand _) (RegOperand _)) = 10"
| "operand_code (Src3 (RegOperand _) (ImmOperand _) (ImmOperand _)) = 11"
| "operand_code (Src3 (RegOperand _) (ImmOperand _) (RegOperand _)) = 12"
| "operand_code (Src2 (RegOperand _) (ImmOperand _)) = 13"

text \<open>
  Python's \<^verbatim>\<open>to_bytes\<close> with \<^verbatim>\<open>byteorder='big'\<close>, which raises when the number does not fit;
  \<open>None\<close> is an exception. \<open>create_memdict\<close> is the dictionary as a function: a key outside
  it raises.
\<close>

fun nat_bytes :: "nat \<Rightarrow> nat \<Rightarrow> u8 list" where
  "nat_bytes 0 n = []"
| "nat_bytes (Suc k) n = of_nat (n div 256 ^ k) # nat_bytes k n"

lemma nat_bytes_numeral [byte_simps]:
  "nat_bytes (numeral k) n = of_nat (n div 256 ^ pred_numeral k) # nat_bytes (pred_numeral k) n"
  by (simp add: numeral_eq_Suc)

definition uint_tobytes :: "nat \<Rightarrow> nat \<Rightarrow> u8 list option" where
  "uint_tobytes n len = (if n < 256 ^ len then Some (nat_bytes len n) else None)"

definition create_memdict :: "nat \<Rightarrow> nat \<Rightarrow> nat \<Rightarrow> u8 list option" where
  "create_memdict count len m = (if m < count then uint_tobytes m len else None)"

fun operand_bytes :: "nat \<Rightarrow> nat \<Rightarrow> operand \<Rightarrow> u8 list option" where
  "operand_bytes r lb_r (ImmOperand v) = uint_tobytes v (WORD_SIZE div 8)"
| "operand_bytes r lb_r (RegOperand k) = create_memdict r lb_r k"

fun srcs_bytes :: "nat \<Rightarrow> nat \<Rightarrow> srcs \<Rightarrow> u8 list option" where
  "srcs_bytes r lb_r (Src1 a) = operand_bytes r lb_r a"
| "srcs_bytes r lb_r (Src2 a b) =
     Option.bind (operand_bytes r lb_r a) (\<lambda>x.
     Option.bind (operand_bytes r lb_r b) (\<lambda>y. Some (x @ y)))"
| "srcs_bytes r lb_r (Src3 a b c) =
     Option.bind (operand_bytes r lb_r a) (\<lambda>x.
     Option.bind (operand_bytes r lb_r b) (\<lambda>y.
     Option.bind (operand_bytes r lb_r c) (\<lambda>z. Some (x @ y @ z))))"

text \<open>
  One instruction. The branch for \<^verbatim>\<open>NOP\<close> looks up \<^verbatim>\<open>opdict[Opcode.NOP.value]\<close> in a
  dictionary keyed by names, so it raises.
\<close>

fun serialize_lli :: "nat \<Rightarrow> nat \<Rightarrow> LLI \<Rightarrow> u8 list option" where
  "serialize_lli r lb_r (LLI opcode dst srcs) =
     (if opcode = O_NOP then None
      else Option.bind (create_memdict r lb_r dst) (\<lambda>dst_code.
           Option.bind (srcs_bytes r lb_r srcs) (\<lambda>src_code.
             Some (of_nat (16 * opcode_value opcode + operand_code srcs) # dst_code @ src_code))))"

fun serialize_lls :: "nat \<Rightarrow> nat \<Rightarrow> LLI list \<Rightarrow> u8 list option" where
  "serialize_lls r lb_r [] = Some []"
| "serialize_lls r lb_r (lli # lls) =
     Option.bind (serialize_lli r lb_r lli) (\<lambda>b.
     Option.bind (serialize_lls r lb_r lls) (\<lambda>bs. Some (b @ bs)))"

section \<open>Meaning\<close>

text \<open>The operations on integers, reduced modulo \<open>2 ^ 32\<close> by the conversion to a word.\<close>

fun alu :: "opcode \<Rightarrow> uSE \<Rightarrow> uSE \<Rightarrow> uSE \<Rightarrow> uSE res" where
  "alu O_NOP a b c = Inl (InvalidOpcode 0)"
| "alu O_MOV a b c = Inr a"
| "alu O_XOR a b c = Inr (word_of_int (uint a XOR uint b))"
| "alu O_OR a b c = Inr (word_of_int (uint a OR uint b))"
| "alu O_AND a b c = Inr (word_of_int (uint a AND uint b))"
| "alu O_LSL a b c =
     (if uint b < 32 then Inr (word_of_int (uint a * 2 ^ nat (uint b))) else Inl BadShift)"
| "alu O_LSR a b c =
     (if uint b < 32 then Inr (word_of_int (uint a div 2 ^ nat (uint b))) else Inl BadShift)"
| "alu O_LT a b c = Inr (of_bool (uint a < uint b))"
| "alu O_ADD a b c = Inr (word_of_int (uint a + uint b))"
| "alu O_SUB a b c = Inr (word_of_int (uint a - uint b))"
| "alu O_MUL a b c = Inr (word_of_int (uint a * uint b))"
| "alu O_EQ a b c = Inr (of_bool (uint a = uint b))"
| "alu O_DIV a b c =
     (if uint b = 0 then Inl DivisionByZero else Inr (word_of_int (uint a div uint b)))"
| "alu O_MOD a b c =
     (if uint b = 0 then Inl DivisionByZero else Inr (word_of_int (uint a mod uint b)))"
| "alu O_CMOV a b c = Inr (if uint a \<noteq> 0 then b else c)"

fun operand_value :: "regs \<Rightarrow> operand \<Rightarrow> uSE res" where
  "operand_value reg (ImmOperand v) = Inr (of_nat v)"
| "operand_value reg (RegOperand k) = bindr (read_at reg k) initialised"

fun srcs_values :: "regs \<Rightarrow> srcs \<Rightarrow> (uSE \<times> uSE \<times> uSE) res" where
  "srcs_values reg (Src1 a) = bindr (operand_value reg a) (\<lambda>x. Inr (x, 0, 0))"
| "srcs_values reg (Src2 a b) =
     bindr (operand_value reg a) (\<lambda>x.
     bindr (operand_value reg b) (\<lambda>y. Inr (x, y, 0)))"
| "srcs_values reg (Src3 a b c) =
     bindr (operand_value reg a) (\<lambda>x.
     bindr (operand_value reg b) (\<lambda>y.
     bindr (operand_value reg c) (\<lambda>z. Inr (x, y, z))))"

fun exec_lli :: "LLI \<Rightarrow> regs \<Rightarrow> regs res" where
  "exec_lli (LLI opcode dst srcs) reg =
     (if opcode = O_NOP then Inr reg
      else bindr (srcs_values reg srcs) (\<lambda>(a, b, c).
           bindr (alu opcode a b c) (\<lambda>v. write_at reg dst (Some v))))"

section \<open>Decoding an encoding\<close>

lemma nat_bytes_be:
  assumes "8 * k \<le> LENGTH('a::len)"
  shows "nat_bytes k n = be_bytes k (of_nat n :: 'a word)"
  using assms
proof (induction k)
  case (Suc k)
  have "(of_nat (n div 256 ^ k) :: u8) = ucast (drop_bit (8 * k) (of_nat n :: 'a word))"
  proof (rule bit_word_eqI)
    fix m assume "m < LENGTH(8)"
    moreover have "n div 256 ^ k = drop_bit (8 * k) n" by (simp add: drop_bit_eq_div power_mult)
    ultimately show "bit (of_nat (n div 256 ^ k) :: u8) m =
        bit (ucast (drop_bit (8 * k) (of_nat n :: 'a word)) :: u8) m"
      using Suc.prems by (simp add: bit_simps)
  qed
  with Suc show ?case by simp
qed simp

lemma alu_bitwise:
  "word_of_int (uint a XOR uint b) = (a XOR b :: 'a::len word)"
  "word_of_int (uint a OR uint b) = (a OR b :: 'a::len word)"
  "word_of_int (uint a AND uint b) = (a AND b :: 'a::len word)"
  by (simp_all flip: unsigned_xor_eq unsigned_or_eq unsigned_and_eq)

lemma alu_shift:
  "word_of_int (uint a div 2 ^ k) = (drop_bit k a :: 'a::len word)"
proof -
  have "uint a div 2 ^ k = uint (drop_bit k a)"
    by (simp add: unsigned_drop_bit_eq take_bit_int_eq_self flip: drop_bit_eq_div)
  then show ?thesis by simp
qed

lemma uint_less_32: "uint (b :: u32) < 32 \<longleftrightarrow> b < 32"
  by (simp add: word_less_def)

lemma instruction_execute_alu:
  assumes "opcode \<noteq> O_NOP"
  shows "instruction_execute (of_nat (opcode_value opcode)) a b c = alu opcode a b c"
  using assms
  by (cases opcode)
     (simp_all add: instruction_execute_def opcode_defs alu_bitwise alu_shift uint_less_32
        push_bit_eq_mult word_less_def [symmetric] word_div_def word_mod_def uint_0_iff
        flip: word_uint_eq_iff)

lemma head_byte:
  assumes "op < 16" and "fl < 16"
  shows "drop_bit 4 (of_nat (16 * op + fl) AND 0xF0 :: u8) = of_nat op"
    and "(of_nat (16 * op + fl) AND 0x0F :: u8) = of_nat fl"
proof -
  let ?b = "of_nat (16 * op + fl) :: u8"
  have b: "unat ?b = 16 * op + fl" using assms by (subst unat_of_nat) simp
  have "drop_bit 4 (?b AND 0xF0) = drop_bit 4 ?b"
  proof (rule bit_word_eqI)
    fix n assume "n < LENGTH(8)"
    then have "n + 4 < 8 \<Longrightarrow> bit (0xF0 :: u8) (n + 4)"
      by (cases n; simp; rename_tac m; case_tac m; simp; rename_tac m; case_tac m; simp;
          rename_tac m; case_tac m; simp)
    then show "bit (drop_bit 4 (?b AND 0xF0)) n = bit (drop_bit 4 ?b) n"
      by (cases "n + 4 < 8") (auto simp: bit_simps add.commute)
  qed
  also have "\<dots> = of_nat op"
  proof (rule word_unat_eq_iff [THEN iffD2])
    show "unat (drop_bit 4 ?b) = unat (of_nat op :: u8)"
      using assms unfolding unsigned_drop_bit_eq b
      by (simp add: take_bit_nat_eq_self drop_bit_eq_div unat_of_nat)
  qed
  finally show "drop_bit 4 (?b AND 0xF0) = of_nat op" .
  have "?b AND 0x0F = take_bit 4 ?b" by (simp add: take_bit_eq_mask mask_eq_exp_minus_1)
  also have "\<dots> = of_nat fl"
  proof (rule word_unat_eq_iff [THEN iffD2])
    show "unat (take_bit 4 ?b) = unat (of_nat fl :: u8)"
      using assms unfolding unsigned_take_bit_eq b by (simp add: take_bit_eq_mod unat_of_nat)
  qed
  finally show "?b AND 0x0F = of_nat fl" .
qed

lemma opcode_value_less: "opcode_value opcode < 16"
  by (cases opcode) simp_all

lemma operand_code_less: "operand_code srcs < 16"
  by (cases srcs rule: operand_code.cases) simp_all

lemma uint_tobytes_word:
  assumes "uint_tobytes n k = Some bs" and "k \<le> 4"
  shows "length bs = k" and "be_word bs = (of_nat n :: u32)" and "n < 2 ^ 32"
proof -
  have n: "n < 256 ^ k" and bs: "bs = be_bytes k (of_nat n :: u32)"
    using assms nat_bytes_be [where 'a = 32, of k n] by (auto simp: uint_tobytes_def split: if_splits)
  show "length bs = k" by (simp add: bs)
  have "(256 :: nat) ^ k \<le> 256 ^ 4" using assms(2) by (intro power_increasing) auto
  with n show "n < 2 ^ 32" by simp
  then have "unat (of_nat n :: u32) = n" by (simp add: unat_of_nat)
  with n have "take_bit (8 * k) (of_nat n :: u32) = of_nat n"
    by (intro word_unat_eq_iff [THEN iffD2])
       (simp add: unsigned_take_bit_eq take_bit_nat_eq_self power_mult)
  then show "be_word bs = (of_nat n :: u32)" by (simp add: bs be_word_bytes)
qed

lemma load_u32_uint:
  assumes "uint_tobytes n k = Some bs" and "k \<in> {1..4}"
  shows "load_u32 (bs @ rest) k = Inr (of_nat n)" and "drop k (bs @ rest) = rest"
  using uint_tobytes_word [OF assms(1)] assms(2) by simp_all

lemma load_imm_encoded:
  assumes "uint_tobytes v (WORD_SIZE div 8) = Some bs"
  shows "load_immvalue 4 (bs @ rest) = Inr (of_nat v, rest)"
proof -
  have v: "uint_tobytes v 4 = Some bs" using assms by (simp add: WORD_SIZE_def)
  then show ?thesis
    using load_u32_uint [OF v] uint_tobytes_word(1) [OF v]
    by (simp add: load_immvalue_def load_word_u32)
qed

lemma load_reg_encoded:
  assumes "create_memdict r lb_r k = Some bs" and "lb_r \<in> {1..4}"
  shows "load_regvalue lb_r reg (bs @ rest) =
    bindr (bindr (read_at reg k) initialised) (\<lambda>v. Inr (v, rest))"
proof -
  have k: "uint_tobytes k lb_r = Some bs"
    using assms(1) by (auto simp: create_memdict_def split: if_splits)
  have "unat (of_nat k :: u32) = k" using uint_tobytes_word(3) [OF k] assms(2) by (simp add: unat_of_nat)
  then show ?thesis
    using load_u32_uint [OF k assms(2)] by (simp add: load_regvalue_def bindr_assoc)
qed

lemmas encoded_simps =
  load_imm_encoded load_reg_encoded load_imm_encoded [where rest = "[]", simplified]
  load_reg_encoded [where rest = "[]", simplified]

lemma LLS_operands_encoded:
  assumes "srcs_bytes r lb_r srcs = Some bs" and "lb_r \<in> {1..4}"
  shows "LLS_operands (of_nat (operand_code srcs)) 4 lb_r reg (bs @ rest) =
    bindr (srcs_values reg srcs) (\<lambda>(a, b, c). Inr (a, b, c, rest))"
  using assms
  by (cases srcs rule: operand_code.cases)
     (auto simp: LLS_operands_def flag_defs bind_eq_Some_conv bindr_assoc encoded_simps
        del: atLeastAtMost_iff)

lemma LLS_step_encoded:
  assumes "serialize_lli r lb_r lli = Some (b # bs)" and "lb_r \<in> {1..4}"
  shows "LLS_step 4 lb_r b (bs @ rest) reg = bindr (exec_lli lli reg) (\<lambda>reg. Inr (rest, reg))"
proof (cases lli)
  case (LLI opcode dst srcs)
  obtain d s where d: "create_memdict r lb_r dst = Some d" and s: "srcs_bytes r lb_r srcs = Some s"
      and b: "b = of_nat (16 * opcode_value opcode + operand_code srcs)" "bs = d @ s"
      and op: "opcode \<noteq> O_NOP"
    using assms(1) LLI by (auto simp: bind_eq_Some_conv split: if_splits)
  have dst: "uint_tobytes dst lb_r = Some d"
    using d by (auto simp: create_memdict_def split: if_splits)
  have "unat (of_nat dst :: u32) = dst"
    using uint_tobytes_word(3) [OF dst] assms(2) by (simp add: unat_of_nat)
  moreover have "(of_nat (opcode_value opcode) :: u8) \<noteq> op_NOP"
    using op by (cases opcode) (simp_all add: op_NOP_def)
  ultimately show ?thesis
    using LLI b op load_u32_uint [OF dst assms(2), of "s @ rest"]
      head_byte [OF opcode_value_less operand_code_less, of opcode srcs]
    by (simp add: LLS_step_def LLS_operands_encoded [OF s assms(2)] bindr_assoc
        instruction_execute_alu case_prod_beta' del: of_nat_add of_nat_mult)
qed

lemma serialize_lli_Cons: "serialize_lli r lb_r lli = Some bs \<Longrightarrow> \<exists>b bs'. bs = b # bs'"
  by (cases lli) (auto simp: bind_eq_Some_conv split: if_splits)

lemma LLS_loop_encoded:
  assumes "serialize_lls r lb_r lls = Some bs" and "lb_r \<in> {1..4}" and "counter \<le> LLS_MAX_LENGTH"
  shows "LLS_loop 4 lb_r counter bs reg =
    bindr (foldM exec_lli (take (LLS_MAX_LENGTH - counter) lls) reg) (\<lambda>reg.
      if counter + length lls \<le> LLS_MAX_LENGTH then Inr reg else Inl LLSTooLong)"
  using assms
proof (induction lls arbitrary: bs counter reg)
  case (Cons lli lls)
  obtain b c bs' where bs: "bs = (b # c) @ bs'" "serialize_lli r lb_r lli = Some (b # c)"
      "serialize_lls r lb_r lls = Some bs'"
    using Cons.prems(1) serialize_lli_Cons by (fastforce simp: bind_eq_Some_conv)
  show ?case
  proof (cases "counter = LLS_MAX_LENGTH")
    case True
    then show ?thesis by (simp add: bs)
  next
    case False
    then obtain d where d: "LLS_MAX_LENGTH - counter = Suc d" "LLS_MAX_LENGTH - Suc counter = d"
      using Cons.prems(3) by (metis Suc_diff_Suc le_neq_implies_less)
    have "LLS_loop 4 lb_r (Suc counter) bs' reg' =
        bindr (foldM exec_lli (take d lls) reg') (\<lambda>reg.
          if Suc counter + length lls \<le> LLS_MAX_LENGTH then Inr reg else Inl LLSTooLong)" for reg'
      using Cons.IH [OF bs(3) Cons.prems(2), of "Suc counter" reg'] False Cons.prems(3) d by simp
    then show ?thesis
      using False Cons.prems(3)
      by (simp add: bs(1) d LLS_step_encoded [OF bs(2) Cons.prems(2)] bindr_assoc)
  qed
qed simp

section \<open>Properties\<close>

text \<open>
  C3: running the encoding of a sequence of instructions on any register file does what the
  instructions mean one after the other, with the error of the first one that has one; a
  sequence longer than \<open>LLS_MAX_LENGTH\<close> is executed up to that length and then refused.
\<close>

theorem LLS_execute_serialized:
  assumes "serialize_lls r lb_r lls = Some bs" and "lb_r \<in> {1..4}"
  shows "LLS_execute reg bs 4 lb_r =
    bindr (foldM exec_lli (take LLS_MAX_LENGTH lls) reg) (\<lambda>reg.
      if length lls \<le> LLS_MAX_LENGTH then Inr reg else Inl LLSTooLong)"
  using LLS_loop_encoded [OF assms, of 0 reg] by (simp add: LLS_execute_def)

theorem LLS_execute_serialized_witness:
  "serialize_lls 40 1 [LLI O_ADD 2 (Src2 (RegOperand 0) (ImmOperand 5))]
     = Some [0x8D, 2, 0, 0, 0, 0, 5] \<and>
   LLS_execute [Some 7, None, None] [0x8D, 2, 0, 0, 0, 0, 5] 4 1 = Inr [Some 7, None, Some 12]"
proof -
  have s: "serialize_lls 40 1 [LLI O_ADD 2 (Src2 (RegOperand 0) (ImmOperand 5))]
     = Some [0x8D, 2, 0, 0, 0, 0, 5]"
    by (simp add: create_memdict_def uint_tobytes_def WORD_SIZE_def byte_simps)
  have "(1 :: nat) \<in> {1..4}" by simp
  from LLS_execute_serialized [OF s this, of "[Some 7, None, None]"] s show ?thesis
    by (simp add: initialised_def LLS_MAX_LENGTH_def SE_SIZE_def)
qed

end
