(* ===== verification/SEcorrect.thy ===== *)
theory SEcorrect
  imports Serializer
begin

text \<open>
  What the secure element computes, without its error paths: the ciphertext of a word
  under its identifiers, the input tokens, and from them exact characterisations of
  \<open>EWORD_decrypt\<close>, \<open>SEinput\<close> and \<open>SEeval\<close>. The facts about the cipher come from the
  interpretation of the locale \<open>aead\<close> in \<open>Schwaemm\<close>.
\<close>

section \<open>Closed forms\<close>

definition hashp :: "u32 \<Rightarrow> u8 list \<Rightarrow> u8 list" where
  "hashp prefix msg = crypto_hash ESCH_INST False (be_bytes 4 prefix @ msg)"

definition wad :: "u32 \<Rightarrow> u32 \<Rightarrow> u8 list \<Rightarrow> u8 list" where
  "wad i j e = be_bytes 4 i @ be_bytes 4 j @ e"

text \<open>The encryption of word \<open>w\<close> as output \<open>j\<close> of instruction \<open>i\<close> in execution \<open>e\<close>.\<close>

definition enc_word :: "u8 list \<Rightarrow> u32 \<Rightarrow> u32 \<Rightarrow> uSE \<Rightarrow> EWORD" where
  "enc_word e i j w = aenc (be_bytes 4 w) (wad i j e) (hashp 3 (wad i j e)) seckey"

text \<open>The token that authenticates the hash \<open>h\<close> of the first \<open>i\<close> batches.\<close>

definition token :: "u8 list \<Rightarrow> u32 \<Rightarrow> u8 list \<Rightarrow> u8 list" where
  "token e i h = aenc [] (h @ be_bytes 4 i @ e) (hashp 2 (e @ be_bytes 4 i)) seckey"

definition batch_hash :: "u8 list \<Rightarrow> uSE list \<Rightarrow> u8 list" where
  "batch_hash Hp X = crypto_hash ESCH_INST False (Hp @ concat (map (be_bytes 4) X))"

lemma length_hashp [simp]: "length (hashp p m) = HASH_INBYTES"
  by (simp add: hashp_def)

lemma length_batch_hash [simp]: "length (batch_hash h X) = HASH_INBYTES"
  by (simp add: batch_hash_def)

lemma hash_withprefix_eq [simp]: "hash_withprefix p m = Inr (hashp p m)"
  by (simp add: hash_withprefix_def hashp_def u32_tobytes_be)

lemma u32_tobytes_4 [simp]: "u32_tobytes U32_INBYTES w = Inr (be_bytes 4 w)"
  by (simp add: U32_INBYTES_def u32_tobytes_be)

lemma word_ad_eq [simp]: "length e = HASH_INBYTES \<Longrightarrow> word_ad i j e = Inr (wad i j e)"
  by (simp add: word_ad_def wad_def)

section \<open>The cipher of the secure element\<close>

lemma se_sizes:
  "HASH_INBYTES = 32" "C_INBYTES = 20" "CIN_INBYTES = 16" "WORD_INBYTES = 4" "U32_INBYTES = 4"
  "SHAREDKEY_INBYTES = 16" "ENCRYPTED_SHAREDKEY_INBYTES = 32" "MAC_INBYTES = 16"
  "NONCE_INBYTES = 32" "CT_SEPUB_INBYTES = 64" "FLAG_INBYTES = 1"
  by (simp_all add: config_defs)

lemma ok_sizes: "length n = 32 \<Longrightarrow> length k = 16 \<Longrightarrow> key_nonce_ok SCHWAEMM_INST n k"
  by (simp add: key_nonce_ok_def SCHWAEMM_INST_def)

lemma length_seckey [simp]: "length seckey = 16"
  by (simp add: seckey_def)

lemma tag_bytes [simp]: "SCHWAEMM_TAG_BYTES SCHWAEMM_INST = 16"
  by (simp add: SCHWAEMM_INST_def)

lemma adec_total:
  assumes "length n = 32" and "length k = 16" and "16 \<le> length c"
  obtains r m where "adec c ad n k = Inr (r, m)" "length m + 16 = length c"
    "r = 0 \<longleftrightarrow> c = aenc m ad n k"
proof -
  obtain r m where d: "adec c ad n k = Inr (r, m)" "length m + 16 = length c"
    using decrypt_values [of n SCHWAEMM_INST k c "(False, False)" ad] assms
    by (auto simp: SCHWAEMM_INST_def)
  have "r = 0 \<longleftrightarrow> c = aenc m ad n k"
    using schwaemm.dec_iff [OF ok_sizes [OF assms(1,2)], of "(False, False)" c ad m] d(1)
      schwaemm.dec_iff [OF ok_sizes [OF assms(1,2)], of "(False, False)" c ad] by auto
  with d show thesis using that by blast
qed

lemma adec_aenc [simp]:
  "length n = 32 \<Longrightarrow> length k = 16 \<Longrightarrow> adec (aenc m ad n k) ad n k = Inr (0, m)"
  by (simp add: schwaemm.dec_enc ok_sizes)

lemma length_aenc [simp]:
  "length n = 32 \<Longrightarrow> length k = 16 \<Longrightarrow> length (aenc m ad n k) = length m + 16"
  using schwaemm.length_enc [OF ok_sizes] by simp

lemma aenc_inject:
  "length n = 32 \<Longrightarrow> length k = 16 \<Longrightarrow> aenc m ad n k = aenc m' ad n k \<longleftrightarrow> m = m'"
  by (simp add: schwaemm.enc_inject ok_sizes)

lemma length_enc_word [simp]: "length (enc_word e i j w) = 20"
  by (simp add: enc_word_def se_sizes)

lemma length_token [simp]: "length (token e i h) = 16"
  by (simp add: token_def se_sizes)

lemma be_word_bytes_4 [simp]: "be_word (be_bytes 4 w) = (w :: u32)"
  by (simp add: be_word_bytes take_bit_word_eq_self)

lemma be_bytes_4_inject: "be_bytes 4 v = be_bytes 4 (w :: u32) \<longleftrightarrow> v = w"
proof
  assume "be_bytes 4 v = be_bytes 4 w"
  then have "(be_word (be_bytes 4 v) :: u32) = be_word (be_bytes 4 w)" by simp
  then show "v = w" by simp
qed simp

lemma enc_word_inject: "enc_word e i j v = enc_word e i j w \<longleftrightarrow> v = w"
  by (simp add: enc_word_def aenc_inject se_sizes be_bytes_4_inject)

section \<open>Decrypting words\<close>

lemma load_word_4 [simp]: "length b = 4 \<Longrightarrow> load_word b WORD_INBYTES = Inr (be_word b)"
  using load_u32_append [of 4 b "[]"] by (simp add: load_word_u32 se_sizes)

lemma be_bytes_4_word: "length b = 4 \<Longrightarrow> be_bytes 4 (be_word b :: u32) = b"
  using be_bytes_word [of b, where 'a = 32] by simp

text \<open>One iteration of the loop of \<open>EWORD_decrypt\<close>.\<close>

definition decrypt_word :: "AELLS \<Rightarrow> u8 list \<Rightarrow> EWORD list \<Rightarrow> nat \<Rightarrow> regs \<Rightarrow> regs res" where
  "decrypt_word aells execID Cx i reg =
     bindr (read_at (inputIDs aells) i) (\<lambda>id.
     bindr (word_ad (instrID id) (outputID id) execID) (\<lambda>ad.
     bindr (hash_withprefix 3 ad) (\<lambda>nonce.
     bindr (read_at Cx i) (\<lambda>w.
     bindr (eword_bytes w C_INBYTES) (\<lambda>c.
     bindr (adec c ad nonce seckey) (\<lambda>(ret, bword).
       if ret \<noteq> 0 \<or> length bword \<noteq> WORD_INBYTES
       then Inl (WordDecryptFailed (aells_instrID aells) (instrID id) (outputID id))
       else bindr (load_word bword WORD_INBYTES) (\<lambda>word. write_at reg i (Some word))))))))"

lemma EWORD_decrypt_loop:
  "EWORD_decrypt reg aells execID Cx =
     foldM (decrypt_word aells execID Cx) [0..<unat (inp_count aells)] reg"
  by (simp add: EWORD_decrypt_def decrypt_word_def [abs_def])

text \<open>Input \<open>i\<close> is present and is the encryption of \<open>w\<close> under the identifiers it is read with.\<close>

definition word_at :: "ID list \<Rightarrow> u8 list \<Rightarrow> EWORD list \<Rightarrow> nat \<Rightarrow> uSE \<Rightarrow> bool" where
  "word_at ids execID Cx i w \<longleftrightarrow>
     i < length ids \<and> i < length Cx \<and> 20 \<le> length (Cx ! i) \<and>
     take 20 (Cx ! i) = enc_word execID (instrID (ids ! i)) (outputID (ids ! i)) w"

lemma decrypt_word_iff:
  assumes e: "length execID = HASH_INBYTES"
  shows "decrypt_word aells execID Cx i reg = Inr reg' \<longleftrightarrow>
    (\<exists>w. word_at (inputIDs aells) execID Cx i w \<and> i < length reg \<and> reg' = reg[i := Some w])"
proof (cases "i < length (inputIDs aells) \<and> i < length Cx \<and> 20 \<le> length (Cx ! i)")
  case False
  then show ?thesis
    by (auto simp: decrypt_word_def word_at_def eword_bytes_def se_sizes res_simps)
next
  case True
  let ?id = "inputIDs aells ! i" and ?c = "take 20 (Cx ! i)"
  let ?ad = "wad (instrID ?id) (outputID ?id) execID"
  obtain r m where d: "adec ?c ?ad (hashp 3 ?ad) seckey = Inr (r, m)" "length m + 16 = length ?c"
      and ok: "r = 0 \<longleftrightarrow> ?c = aenc m ?ad (hashp 3 ?ad) seckey"
    by (rule adec_total [of "hashp 3 ?ad" seckey ?c ?ad]) (use True in \<open>auto simp: se_sizes\<close>)
  have m: "length m = 4" using d True by simp
  have w: "r = 0 \<longleftrightarrow> (\<exists>w. ?c = enc_word execID (instrID ?id) (outputID ?id) w)"
  proof
    assume "r = 0"
    then have "?c = enc_word execID (instrID ?id) (outputID ?id) (be_word m)"
      using ok m by (simp add: enc_word_def be_bytes_4_word)
    then show "\<exists>w. ?c = enc_word execID (instrID ?id) (outputID ?id) w" ..
  next
    assume "\<exists>w. ?c = enc_word execID (instrID ?id) (outputID ?id) w"
    then obtain w where "?c = enc_word execID (instrID ?id) (outputID ?id) w" ..
    then show "r = 0" using d(1) by (simp add: enc_word_def se_sizes)
  qed
  have "?c = enc_word execID (instrID ?id) (outputID ?id) w \<longleftrightarrow> r = 0 \<and> w = be_word m" for w
    using ok m by (auto simp: enc_word_def be_bytes_4_word be_bytes_4_inject aenc_inject se_sizes w)
  then show ?thesis
    using True d(1) m e
    by (auto simp: decrypt_word_def word_at_def eword_bytes_def se_sizes [symmetric] res_simps)
qed

lemma EWORD_decrypt_loop_iff:
  assumes e: "length execID = HASH_INBYTES" and "n \<le> length reg"
  shows "foldM (decrypt_word aells execID Cx) [0..<n] reg = Inr reg' \<longleftrightarrow>
    (\<exists>ws. length ws = n \<and> (\<forall>i<n. word_at (inputIDs aells) execID Cx i (ws ! i)) \<and>
       reg' = map Some ws @ drop n reg)"
  using assms(2)
proof (induction n arbitrary: reg')
  case (Suc n)
  have step: "foldM (decrypt_word aells execID Cx) [0..<Suc n] reg = Inr reg' \<longleftrightarrow>
      (\<exists>ws w. length ws = n \<and> (\<forall>i<n. word_at (inputIDs aells) execID Cx i (ws ! i)) \<and>
         word_at (inputIDs aells) execID Cx n w \<and> reg' = (map Some ws @ drop n reg)[n := Some w])"
    (is "_ \<longleftrightarrow> ?R")
  proof
    assume "foldM (decrypt_word aells execID Cx) [0..<Suc n] reg = Inr reg'"
    then show ?R using Suc by (auto simp: foldM_append res_simps decrypt_word_iff [OF e])
  next
    assume ?R
    then obtain ws w where "length ws = n" "\<forall>i<n. word_at (inputIDs aells) execID Cx i (ws ! i)"
        "word_at (inputIDs aells) execID Cx n w" "reg' = (map Some ws @ drop n reg)[n := Some w]"
      by blast
    moreover from this have "foldM (decrypt_word aells execID Cx) [0..<n] reg = Inr (map Some ws @ drop n reg)"
      using Suc by auto
    ultimately show "foldM (decrypt_word aells execID Cx) [0..<Suc n] reg = Inr reg'"
      using Suc.prems by (auto simp: foldM_append res_simps decrypt_word_iff [OF e])
  qed
  have upd: "length ws = n \<Longrightarrow>
      (map Some ws @ drop n reg)[n := Some w] = map Some (ws @ [w]) @ drop (Suc n) reg" for ws w
    using Suc.prems by (simp add: list_update_append Cons_nth_drop_Suc [symmetric])
  show ?case
  proof
    assume "foldM (decrypt_word aells execID Cx) [0..<Suc n] reg = Inr reg'"
    then obtain ws w where "length ws = n" "\<forall>i<n. word_at (inputIDs aells) execID Cx i (ws ! i)"
        "word_at (inputIDs aells) execID Cx n w" "reg' = (map Some ws @ drop n reg)[n := Some w]"
      unfolding step by blast
    then show "\<exists>ws. length ws = Suc n \<and>
        (\<forall>i<Suc n. word_at (inputIDs aells) execID Cx i (ws ! i)) \<and>
        reg' = map Some ws @ drop (Suc n) reg"
      by (intro exI [of _ "ws @ [w]"]) (auto simp: upd nth_append less_Suc_eq)
  next
    assume "\<exists>ws. length ws = Suc n \<and>
        (\<forall>i<Suc n. word_at (inputIDs aells) execID Cx i (ws ! i)) \<and>
        reg' = map Some ws @ drop (Suc n) reg"
    then obtain ws where ws: "length ws = Suc n"
        "\<forall>i<Suc n. word_at (inputIDs aells) execID Cx i (ws ! i)"
        "reg' = map Some ws @ drop (Suc n) reg" by blast
    have eq: "take n ws @ [ws ! n] = ws" using ws(1) by (simp add: take_Suc_conv_app_nth [symmetric])
    have "reg' = (map Some (take n ws) @ drop n reg)[n := Some (ws ! n)]"
      using upd [of "take n ws" "ws ! n"] ws(1,3) unfolding eq by simp
    with ws(1,2) show "foldM (decrypt_word aells execID Cx) [0..<Suc n] reg = Inr reg'"
      unfolding step by (intro exI [of _ "take n ws"] exI [of _ "ws ! n"]) simp
  qed
qed auto

lemma EWORD_decrypt_exceeds:
  assumes e: "length execID = HASH_INBYTES" and "length reg < n"
  shows "foldM (decrypt_word aells execID Cx) [0..<n] reg \<noteq> Inr reg'"
proof
  let ?f = "decrypt_word aells execID Cx"
  assume "foldM ?f [0..<n] reg = Inr reg'"
  moreover have "[0..<n] = [0..<length reg] @ length reg # [Suc (length reg)..<n]"
    using assms(2) by (metis le_add1 le_add_same_cancel1 less_imp_le_nat upt_add_eq_append upt_conv_Cons
        le_add_diff_inverse plus_nat.add_0)
  ultimately obtain r1 r2 where "foldM ?f [0..<length reg] reg = Inr r1"
      "?f (length reg) r1 = Inr r2"
    by (auto simp: foldM_append res_simps)
  then show False
    using EWORD_decrypt_loop_iff [OF e order_refl] by (auto simp: decrypt_word_iff [OF e])
qed

lemma EWORD_decrypt_iff:
  assumes e: "length execID = HASH_INBYTES"
  shows "EWORD_decrypt (replicate r None) aells execID Cx = Inr reg \<longleftrightarrow>
    unat (inp_count aells) \<le> r \<and>
    (\<exists>ws. length ws = unat (inp_count aells) \<and>
       (\<forall>i<length ws. word_at (inputIDs aells) execID Cx i (ws ! i)) \<and>
       reg = map Some ws @ replicate (r - length ws) None)"
proof (cases "unat (inp_count aells) \<le> r")
  case True
  then show ?thesis
    using EWORD_decrypt_loop_iff [OF e, of "unat (inp_count aells)" "replicate r None"]
    by (simp add: EWORD_decrypt_loop) (metis (no_types, lifting))
next
  case False
  then show ?thesis
    using EWORD_decrypt_exceeds [OF e, of "replicate r None"] by (simp add: EWORD_decrypt_loop)
qed

section \<open>Accepting a batch of inputs\<close>

lemma sum_bytes_zero:
  assumes "length (bs :: u8 list) \<le> 32"
  shows "fold (\<lambda>j sum. sum + ucast (bs ! j)) [0..<length bs] (0 :: u32) = 0 \<longleftrightarrow> (\<forall>b\<in>set bs. b = 0)"
proof -
  have "unat (fold (\<lambda>j sum. sum + ucast (bs ! j)) [0..<n] (0 :: u32)) = (\<Sum>j<n. unat (bs ! j))
      \<and> (\<Sum>j<n. unat (bs ! j)) \<le> 255 * n" if "n \<le> 32" for n
    using that
  proof (induction n)
    case (Suc n)
    have b: "unat (bs ! n) \<le> 255" using unsigned_less [of "bs ! n", where 'a = nat] by simp
    then have "unat (ucast (bs ! n) :: u32) = unat (bs ! n)"
      by (simp add: unsigned_ucast_eq take_bit_nat_eq_self)
    with Suc b show ?case by (simp add: unat_word_ariths lessThan_Suc)
  qed simp
  from this [OF assms] have "fold (\<lambda>j sum. sum + ucast (bs ! j)) [0..<length bs] (0 :: u32) = 0
      \<longleftrightarrow> (\<Sum>j<length bs. unat (bs ! j)) = 0"
    by (simp add: word_unat_eq_iff)
  also have "\<dots> \<longleftrightarrow> (\<forall>b\<in>set bs. b = 0)"
    by (auto simp: all_set_conv_all_nth unat_eq_zero)
  finally show ?thesis .
qed

lemma all_zero_replicate: "(\<forall>b\<in>set bs. b = 0) \<longleftrightarrow> bs = replicate (length bs) 0"
  by (metis in_set_replicate replicate_eqI)

text \<open>
  A batch is accepted exactly when its token is the one for the hash of the batch behind the
  given previous hash; the result is the token of the previous hash and the encryption of
  every word under the number of the batch and its position.
\<close>

lemma SEinput_iff:
  assumes e: "length e = HASH_INBYTES" and h: "length Hp = HASH_INBYTES" and X: "length X = l_out"
    and c: "length Cinc = CIN_INBYTES"
  shows "SEinput e i Hp X Cinc = Inr (Cinp, C) \<longleftrightarrow>
    i \<noteq> 0 \<and> (i = 1 \<longrightarrow> Hp = replicate HASH_INBYTES 0) \<and> Cinc = token e i (batch_hash Hp X) \<and>
    Cinp = token e (i - 1) Hp \<and> C = map (\<lambda>j. enc_word e i (of_nat j) (X ! j)) [0..<l_out]"
proof -
  let ?n = "hashp 2 (e @ be_bytes 4 i)" and ?ad = "batch_hash Hp X @ be_bytes 4 i @ e"
  obtain r m where d: "adec Cinc ?ad ?n seckey = Inr (r, m)" "length m + 16 = length Cinc"
      and ok: "r = 0 \<longleftrightarrow> Cinc = aenc m ?ad ?n seckey"
    by (rule adec_total [of ?n seckey Cinc ?ad]) (use c in \<open>auto simp: se_sizes\<close>)
  have m: "m = []" using d(2) c by (simp add: se_sizes)
  have words: "mapM (\<lambda>j. bindr (word_ad i (of_nat j) e) (\<lambda>ad. bindr (hash_withprefix 3 ad) (\<lambda>nonce.
        bindr (read_at X j) (\<lambda>x. bindr (word_tobytes x) (\<lambda>bword.
          let c = aenc (take U32_INBYTES bword) ad nonce seckey
          in if length c \<noteq> C_INBYTES then Inl WordEncryptFailed else Inr c))))) [0..<l_out]
      = Inr (map (\<lambda>j. enc_word e i (of_nat j) (X ! j)) [0..<l_out])"
    by (rule mapM_eq_map) (use e X in \<open>simp add: word_tobytes_be enc_word_def se_sizes\<close>)
  have z: "fold (\<lambda>j sum. sum + ucast (Hp ! j)) [0..<HASH_INBYTES] (0 :: u32) = 0 \<longleftrightarrow>
      Hp = replicate HASH_INBYTES 0"
    using sum_bytes_zero [of Hp] all_zero_replicate [of Hp] h by (simp add: se_sizes)
  have i: "i < 1 \<longleftrightarrow> i = 0" by (simp add: word_less_1)
  have tok: "r = 0 \<longleftrightarrow> Cinc = token e i (batch_hash Hp X)" using ok m by (simp add: token_def)
  show ?thesis
    unfolding SEinput_def words
    using d(1) m h X c tok z e
    by (auto simp: i hashchain_eq batch_hash_def [symmetric] token_def)
qed

end
