(* ===== verification/Interpreter.thy ===== *)
theory Interpreter
  imports SEcorrect
begin

text \<open>
  The interpreter: \<^verbatim>\<open>runtime/interpreter.c\<close> and the structures of \<^verbatim>\<open>runtime/program.h\<close>
  and \<^verbatim>\<open>runtime/multi_instruction.h\<close>. The global \<^verbatim>\<open>bcptr\<close> is the list of the bytes of
  the bytecode not yet read, threaded through the reading functions; moving it behind the
  end of the bytecode is the error \<open>OutOfBounds\<close>. Memory of \<^verbatim>\<open>malloc\<close> is a list of the
  requested length and \<^verbatim>\<open>malloc\<close> is taken to succeed.
\<close>

section \<open>Data\<close>

record LLMI =
  llmi_inp_count :: u32
  llmi_out_count :: u32
  mem_inps :: "u32 list"
  mem_outs :: "u32 list"
  aells :: AELLS

record Program =
  prog_inp_count :: u32
  prog_out_count :: u32
  prog_mem_inps :: "u32 list"
  prog_mem_outs :: "u32 list"
  llmi_count :: u32
  llmis :: "LLMI list"

section \<open>Reading the bytecode\<close>

text \<open>
  The shifts of \<^verbatim>\<open>load_bytes\<close> are on \<^verbatim>\<open>int\<close>, the result is converted to \<^verbatim>\<open>u32\<close>; a leading
  byte from \<^verbatim>\<open>0x80\<close> on is shifted into the sign bit, which the compilers in use define as
  the two's complement value modelled here.
\<close>

definition load_bytes :: "nat \<Rightarrow> u8 list \<Rightarrow> (u32 \<times> u8 list) res" where
  "load_bytes n bcptr =
     (if n = 1 then
        bindr (read_bytes bcptr 1) (\<lambda>b. Inr (ucast (b ! 0), drop 1 bcptr))
      else if n = 2 then
        bindr (read_bytes bcptr 2) (\<lambda>b. Inr (
          push_bit 8 (ucast (b ! 0)) OR ucast (b ! 1), drop 2 bcptr))
      else if n = 3 then
        bindr (read_bytes bcptr 3) (\<lambda>b. Inr (
          push_bit 16 (ucast (b ! 0)) OR push_bit 8 (ucast (b ! 1)) OR ucast (b ! 2), drop 3 bcptr))
      else if n = 4 then
        bindr (read_bytes bcptr 4) (\<lambda>b. Inr (
          push_bit 24 (ucast (b ! 0)) OR push_bit 16 (ucast (b ! 1)) OR
          push_bit 8 (ucast (b ! 2)) OR ucast (b ! 3), drop 4 bcptr))
      else Inl (InvalidByteCount n))"

text \<open>\<^verbatim>\<open>bcptr += n\<close>\<close>

definition skip_bytes :: "nat \<Rightarrow> u8 list \<Rightarrow> u8 list res" where
  "skip_bytes n bcptr = (if n \<le> length bcptr then Inr (drop n bcptr) else Inl OutOfBounds)"

text \<open>A loop that reads \<open>n\<close> items one after the other.\<close>

fun repeatM :: "nat \<Rightarrow> ('s \<Rightarrow> ('a \<times> 's) res) \<Rightarrow> 's \<Rightarrow> ('a list \<times> 's) res" where
  "repeatM 0 f s = Inr ([], s)"
| "repeatM (Suc n) f s =
     bindr (f s) (\<lambda>(x, s). bindr (repeatM n f s) (\<lambda>(xs, s). Inr (x # xs, s)))"

definition interpret_meta :: "u8 list \<Rightarrow> (u32 \<times> u8 list) res" where
  "interpret_meta bcptr =
     bindr (load_bytes 4 bcptr) (\<lambda>(version, bcptr).
     if version \<noteq> of_nat VERSION then Inl (InvalidVersion version) else
     bindr (load_bytes 4 bcptr) (\<lambda>(word_size, bcptr).
     if word_size \<noteq> of_nat WORD_SIZE then Inl (InvalidWordSize word_size) else
     bindr (load_bytes 4 bcptr) (\<lambda>(lin_bc, bcptr).
     if lin_bc \<noteq> of_nat LLMI_MAX_INPUT_COUNT then Inl (InvalidInputMax lin_bc) else
     bindr (load_bytes 4 bcptr) (\<lambda>(lout_bc, bcptr).
     if lout_bc \<noteq> of_nat LLMI_MAX_OUTPUT_COUNT then Inl (InvalidOutputMax lout_bc) else
     bindr (load_bytes 4 bcptr) (\<lambda>(r_bc, bcptr).
     if r_bc \<noteq> of_nat REGISTER_COUNT then Inl (InvalidRegisterCount r_bc) else
     bindr (load_bytes 4 bcptr) (\<lambda>(s_bc, bcptr).
     if s_bc \<noteq> of_nat LLS_MAX_LENGTH then Inl (InvalidLLSMax s_bc) else
     load_bytes 4 bcptr))))))"

text \<open>One multi-instruction.\<close>

definition interpret_llmi :: "nat \<Rightarrow> nat \<Rightarrow> u8 list \<Rightarrow> (LLMI \<times> u8 list) res" where
  "interpret_llmi lb_m lb_o bcptr =
     bindr (load_bytes lb_m bcptr) (\<lambda>(ic, bcptr).
     bindr (repeatM (unat ic) (load_bytes lb_m) bcptr) (\<lambda>(mi, bcptr).
     bindr (load_bytes lb_m bcptr) (\<lambda>(oc, bcptr).
     bindr (repeatM (unat oc) (load_bytes lb_m) bcptr) (\<lambda>(mo, bcptr).
     bindr (load_bytes 4 bcptr) (\<lambda>(iid, bcptr).
     bindr (load_bytes 1 bcptr) (\<lambda>(rf, bcptr).
     bindr (repeatM (unat ic) (\<lambda>bcptr.
              bindr (load_bytes 4 bcptr) (\<lambda>(a, bcptr).
              bindr (load_bytes lb_o bcptr) (\<lambda>(b, bcptr).
                Inr (\<lparr>instrID = a, outputID = b\<rparr>, bcptr)))) bcptr) (\<lambda>(ids, bcptr).
     bindr (load_bytes 4 bcptr) (\<lambda>(bl, bcptr).
       let bc = bcptr
       in bindr (skip_bytes (unat bl) bcptr) (\<lambda>bcptr.
          Inr (\<lparr>llmi_inp_count = ic, llmi_out_count = oc, mem_inps = mi, mem_outs = mo,
                aells = \<lparr>reveal_flag = ucast rf, inp_count = ic, out_count = oc, inputIDs = ids,
                         aells_instrID = iid, bytelen = bl, bytecode = bc\<rparr>\<rparr>, bcptr))))))))))"

definition interpret_prog :: "nat \<Rightarrow> nat \<Rightarrow> u8 list \<Rightarrow> (Program \<times> u8 list) res" where
  "interpret_prog lb_m lb_o bcptr =
     bindr (load_bytes lb_m bcptr) (\<lambda>(ic, bcptr).
     bindr (repeatM (unat ic) (load_bytes lb_m) bcptr) (\<lambda>(mi, bcptr).
     bindr (load_bytes lb_m bcptr) (\<lambda>(oc, bcptr).
     bindr (repeatM (unat oc) (load_bytes lb_m) bcptr) (\<lambda>(mo, bcptr).
     bindr (load_bytes 4 bcptr) (\<lambda>(lc, bcptr).
     bindr (repeatM (unat lc) (interpret_llmi lb_m lb_o) bcptr) (\<lambda>(ls, bcptr).
       Inr (\<lparr>prog_inp_count = ic, prog_out_count = oc, prog_mem_inps = mi, prog_mem_outs = mo,
             llmi_count = lc, llmis = ls\<rparr>, bcptr)))))))"

section \<open>Byte lengths\<close>

text \<open>
  \<^verbatim>\<open>(u32) ceilf(log2f(n))\<close> in single precision. The argument is first rounded to 24
  significant bits, ties to even. The logarithm of a number just above \<open>2 ^ k\<close> is rounded
  down to \<open>k\<close> when it is nearer to \<open>k\<close> than to the next float, that is when
  \<open>log2 (1 + d / 2 ^ k) < 2 ^ (e - 24)\<close> for the exponent \<open>e\<close> of \<open>k\<close>; with
  \<open>ln 2 = 0.693147\<close> this is \<open>d < 0.693147 * 2 ^ k / 2 ^ (24 - e)\<close>. Elsewhere the ceiling
  is the exact one. The logarithm of 0 is minus infinity, whose conversion is undefined.
\<close>

fun ilog2 :: "nat \<Rightarrow> nat" where
  "ilog2 n = (if n \<le> 1 then 0 else Suc (ilog2 (n div 2)))"

declare ilog2.simps [simp del]

definition float_of_u32 :: "nat \<Rightarrow> nat" where
  "float_of_u32 n =
     (if n < 2 ^ 24 then n
      else let e = ilog2 n - 23; q = n div 2 ^ e; rest = n mod 2 ^ e; half = 2 ^ (e - 1)
           in if half < rest \<or> (half = rest \<and> odd q) then (q + 1) * 2 ^ e else q * 2 ^ e)"

definition ceilf_log2f :: "nat \<Rightarrow> nat res" where
  "ceilf_log2f n =
     (if n = 0 then Inl BadConversion
      else let f = float_of_u32 n; k = ilog2 f; d = f - 2 ^ k
           in if d = 0 then Inr k
              else if 1 \<le> k \<and> d * 1000000 * 2 ^ (24 - ilog2 k) < 693147 * 2 ^ k then Inr k
              else Inr (k + 1))"

definition byte_length :: "nat \<Rightarrow> nat res" where
  "byte_length n = bindr (ceilf_log2f n) (\<lambda>c. Inr ((c + 7) div 8))"

section \<open>Running a program\<close>

text \<open>Step 1: the batches, the last one filled up with zeros. Batch \<open>i\<close> is \<^verbatim>\<open>X[i+1]\<close>.\<close>

definition make_batches :: "nat \<Rightarrow> nat \<Rightarrow> uSE option list \<Rightarrow> uSE list list res" where
  "make_batches L n prog_inps =
     mapM (\<lambda>i. mapM (\<lambda>j. let k = i * l_out + j
                in if k < n then bindr (read_at prog_inps k) initialised else Inr 0) [0..<l_out])
       [0..<L]"

text \<open>The hashes \<open>H[0]\<close> to \<open>H[L]\<close>.\<close>

definition make_hashes :: "uSE list list \<Rightarrow> u8 list list res" where
  "make_hashes X =
     foldM (\<lambda>x H. bindr (hashchain (last H) x) (\<lambda>h. Inr (H @ [h]))) X [replicate HASH_INBYTES 0]"

text \<open>
  Step 3: the calls of \<^verbatim>\<open>SEinput\<close> from the last batch to the first. \<open>Cin\<close> is the token of
  the call before, \<open>C\<close> the encrypted words of the batches done.
\<close>

definition input_loop ::
    "u8 list \<Rightarrow> uSE list list \<Rightarrow> u8 list list \<Rightarrow> u8 list \<Rightarrow> (u8 list \<times> EWORD list) res" where
  "input_loop execID X H Cin =
     foldM (\<lambda>i (Cin, C).
         bindr (SEinput execID (of_nat (i + 1)) (H ! i) (X ! i) Cin) (\<lambda>(Cinp, Ci).
           Inr (Cinp, Ci @ C)))
       (rev [0..<length X]) (Cin, [])"

text \<open>\<^verbatim>\<open>memory[cells[i]] = ws[i]\<close> for every \<open>i < n\<close>.\<close>

definition store_words :: "nat \<Rightarrow> u32 list \<Rightarrow> EWORD list \<Rightarrow> EWORD list \<Rightarrow> EWORD list res" where
  "store_words n cells ws memory =
     foldM (\<lambda>i memory.
         bindr (read_at cells i) (\<lambda>a. bindr (read_at ws i) (\<lambda>w. write_at memory (unat a) w)))
       [0..<n] memory"

text \<open>Step 4: one multi-instruction.\<close>

definition eval_llmi ::
    "u8 list \<Rightarrow> u8 list \<Rightarrow> nat \<Rightarrow> nat \<Rightarrow> nat \<Rightarrow> nat \<Rightarrow> LLMI \<Rightarrow> EWORD list \<Rightarrow> EWORD list res" where
  "eval_llmi execID esharedkey lb_m lb_r lb_c lb_o llmi memory =
     bindr (mapM (\<lambda>a. read_at memory (unat a)) (mem_inps llmi)) (\<lambda>inps.
     bindr (SEeval execID esharedkey (aells llmi) inps (of_nat REGISTER_COUNT) lb_m lb_r lb_c lb_o)
       (\<lambda>outs. store_words (unat (llmi_out_count llmi)) (mem_outs llmi) outs memory))"

text \<open>The outputs: the first four bytes of each output cell.\<close>

definition load_output :: "EWORD list \<Rightarrow> u32 \<Rightarrow> uSE res" where
  "load_output memory a =
     bindr (read_at memory (unat a)) (\<lambda>w.
     bindr (eword_bytes w WORD_INBYTES) (\<lambda>b. load_word b WORD_INBYTES))"

definition interpret_bytecode ::
    "(u8 list \<Rightarrow> u8 list \<Rightarrow> u8 list \<Rightarrow> u8 list option) \<Rightarrow> u8 list \<Rightarrow> uSE option list \<Rightarrow> u32 \<Rightarrow> u32 \<Rightarrow>
     uSE list res" where
  "interpret_bytecode seal_open bc prog_inps prog_inpcount prog_outcount =
     bindr (interpret_meta bc) (\<lambda>(memory_count, bcptr).
     bindr (byte_length (unat memory_count)) (\<lambda>lb_m.
     bindr (byte_length REGISTER_COUNT) (\<lambda>lb_r.
     bindr (byte_length l_out) (\<lambda>lb_o.
     let lb_c = WORD_SIZE div 8; header = bcptr
     in bindr (skip_bytes CT_SEPUB_INBYTES bcptr) (\<lambda>bcptr.
        bindr (interpret_prog lb_m lb_o bcptr) (\<lambda>(program, bcptr).
        if bcptr \<noteq> [] then Inl TrailingBytecode
        else if prog_inpcount \<noteq> prog_inp_count program
        then Inl (InvalidInputCount prog_inpcount (prog_inp_count program))
        else if prog_outcount \<noteq> prog_out_count program
        then Inl (InvalidOutputCount prog_outcount (prog_out_count program))
        else
          let L = (prog_inp_count program + of_nat l_out - 1) div of_nat l_out
          in bindr (make_batches (unat L) (unat (prog_inp_count program)) prog_inps) (\<lambda>X.
             bindr (make_hashes X) (\<lambda>H.
             bindr (SEstart seal_open header lb_m (last H)) (\<lambda>(esharedkey, execID, Cin).
             bindr (input_loop execID X H Cin) (\<lambda>(_, C).
             bindr (store_words (unat (prog_inp_count program)) (prog_mem_inps program) C
                      (replicate (unat memory_count) [])) (\<lambda>memory.
             bindr (foldM (eval_llmi execID esharedkey lb_m lb_r lb_c lb_o) (llmis program) memory)
               (\<lambda>memory.
             mapM (load_output memory) (prog_mem_outs program)))))))))))))"

section \<open>Byte lengths are exact up to 16777216 cells\<close>

lemma ilog2_bounds: "0 < n \<Longrightarrow> 2 ^ ilog2 n \<le> n \<and> n < 2 ^ Suc (ilog2 n)"
proof (induction n rule: ilog2.induct)
  case (1 n)
  show ?case
  proof (cases "n \<le> 1")
    case True
    with 1 show ?thesis by (simp add: ilog2.simps [of n])
  next
    case False
    then have "2 ^ ilog2 (n div 2) \<le> n div 2 \<and> n div 2 < 2 ^ Suc (ilog2 (n div 2))"
      using 1 by simp
    moreover have "2 * (n div 2) \<le> n" "n < 2 * (n div 2) + 2" by auto
    ultimately show ?thesis using False unfolding ilog2.simps [of n] by simp linarith
  qed
qed

lemma ilog2_unique: "2 ^ k \<le> n \<Longrightarrow> n < 2 ^ Suc k \<Longrightarrow> ilog2 n = k"
proof -
  assume n: "2 ^ k \<le> n" "n < 2 ^ Suc k"
  then have "0 < n" using less_le_trans [OF _ n(1), of 0] by simp
  note b = ilog2_bounds [OF this]
  have "(2 :: nat) ^ ilog2 n < 2 ^ Suc k" using b n by linarith
  moreover have "(2 :: nat) ^ k < 2 ^ Suc (ilog2 n)" using b n by linarith
  ultimately show ?thesis by (simp only: power_strict_increasing_iff numeral_less_iff)
qed

lemma ilog2_numeral: "ilog2 (numeral k) = (if numeral k \<le> (1 :: nat) then 0 else Suc (ilog2 (numeral k div 2)))"
  by (rule ilog2.simps)

lemma ceilf_log2f_small:
  assumes "0 < n" "n < 2 ^ 24"
  shows "\<exists>c. ceilf_log2f n = Inr c \<and> (c = ilog2 n \<or> c = Suc (ilog2 n)) \<and>
           (c = ilog2 n \<longrightarrow> n = 2 ^ ilog2 n \<or> 21 \<le> ilog2 n)
           \<and> (c = Suc (ilog2 n) \<longrightarrow> n \<noteq> 2 ^ ilog2 n)"
proof -
  let ?k = "ilog2 n" and ?d = "n - 2 ^ ilog2 n"
  have b: "2 ^ ?k \<le> n" "n < 2 ^ Suc ?k" using ilog2_bounds assms by auto
  have "(2 :: nat) ^ ?k < 2 ^ 24" using b assms by linarith
  then have k: "?k < 24" using power_less_imp_less_exp [of "2 :: nat" ?k 24] by simp
  have near: "21 \<le> ?k" if "1 \<le> ?k" "?d \<noteq> 0" "?d * 1000000 * 2 ^ (24 - ilog2 ?k) < 693147 * 2 ^ ?k"
  proof (rule ccontr)
    assume "\<not> 21 \<le> ?k"
    then have "(2 :: nat) ^ ?k \<le> 2 ^ 20" by (intro power_increasing) auto
    have "ilog2 ?k \<le> 4"
    proof (rule ccontr)
      assume "\<not> ilog2 ?k \<le> 4"
      then have "(2 :: nat) ^ 5 \<le> 2 ^ ilog2 ?k" by (intro power_increasing) auto
      then show False using ilog2_bounds [of ?k] that(1) k by simp
    qed
    then have "(2 :: nat) ^ 20 \<le> 2 ^ (24 - ilog2 ?k)" by (intro power_increasing) auto
    then have "1 * 1000000 * 2 ^ 20 \<le> ?d * 1000000 * 2 ^ (24 - ilog2 ?k)"
      using that(2) by (intro mult_mono) auto
    with that(3) \<open>2 ^ ?k \<le> 2 ^ 20\<close> show False by simp
  qed
  show ?thesis
    using assms b near by (auto simp: ceilf_log2f_def float_of_u32_def Let_def)
qed

lemma byte_length_exact_lemma:
  assumes "0 < n" "n \<le> 2 ^ 24"
  shows "\<exists>b. byte_length n = Inr b \<and> b \<le> 3 \<and> n \<le> 256 ^ b \<and> (0 < b \<longrightarrow> 256 ^ (b - 1) < n)"
proof (cases "n < 2 ^ 24")
  case True
  let ?k = "ilog2 n"
  obtain c where c: "ceilf_log2f n = Inr c" "c = ?k \<or> c = Suc ?k"
      "c = ?k \<longrightarrow> n = 2 ^ ?k \<or> 21 \<le> ?k" "c = Suc ?k \<longrightarrow> n \<noteq> 2 ^ ?k"
    using ceilf_log2f_small assms True by blast
  have b: "2 ^ ?k \<le> n" "n < 2 ^ Suc ?k" using ilog2_bounds assms by auto
  have "(2 :: nat) ^ ?k < 2 ^ 24" using b True by linarith
  then have k: "?k < 24" using power_less_imp_less_exp [of "2 :: nat" ?k 24] by simp
  let ?b = "(c + 7) div 8"
  have p: "(256 :: nat) ^ m = 2 ^ (8 * m)" for m by (simp add: power_mult)
  have up: "n \<le> 2 ^ (8 * ?b)"
  proof (cases "c = ?k \<and> n \<noteq> 2 ^ ?k")
    case True
    then have "8 * ?b = 24" using c(3) k by auto
    then show ?thesis using assms(2) by simp
  next
    case False
    then have "n \<le> 2 ^ c" using c(2) b by (auto simp: less_imp_le)
    also have "\<dots> \<le> 2 ^ (8 * ?b)" by (intro power_increasing) auto
    finally show ?thesis .
  qed
  moreover have "2 ^ (8 * (?b - 1)) < n" if "0 < ?b"
  proof (cases "8 * (?b - 1) < ?k")
    case True
    then have "(2 :: nat) ^ (8 * (?b - 1)) < 2 ^ ?k" by (intro power_strict_increasing) auto
    with b show ?thesis by linarith
  next
    case False
    then have "c = Suc ?k" "8 * (?b - 1) = ?k" using c(2) that by auto
    then show ?thesis using c(4) b(1) by auto
  qed
  moreover have "?b \<le> 3" using c(2) k by auto
  ultimately show ?thesis using c(1) by (simp add: byte_length_def p)
next
  case False
  then have n: "n = 2 ^ 24" using assms by simp
  have i: "ilog2 (2 ^ 24) = 24" by (rule ilog2_unique) simp_all
  show ?thesis
    unfolding n by (simp add: byte_length_def ceilf_log2f_def float_of_u32_def Let_def i [simplified])
qed

end
