(* ===== verification/Program_Serializer.thy ===== *)
theory Program_Serializer
  imports Interpreter
begin

text \<open>
  The encoding of a whole program by \<^verbatim>\<open>serialize\<close> of
  \<^verbatim>\<open>compiler/src/code_gen/serializer.py\<close>, the meaning of a program on a plain memory of
  words, and the discipline on revealed cells that the runtime relies on. \<open>None\<close> is a
  Python exception. The sealed shared key (\<^verbatim>\<open>crypto_box_seal\<close>) is an argument.
\<close>

section \<open>Programs\<close>

record ir_llmi =
  ir_seq :: "LLI list"
  ir_inputs :: "nat list"
  ir_outputs :: "nat list"

record LLIRProgram =
  ir_instrs :: "ir_llmi list"
  ir_prog_inputs :: "nat list"
  ir_prog_outputs :: "nat list"
  ir_memory_count :: nat

text \<open>Where the word in a memory cell was last produced: (instrID, outputID).\<close>

type_synonym id_dict = "nat \<rightharpoonup> nat \<times> nat"

section \<open>Encoding\<close>

text \<open>\<^verbatim>\<open>((ceil(log2(n)) + 7) & (-8)) // 8\<close>; Python's \<^verbatim>\<open>log2\<close> of 0 raises.\<close>

definition ceil_log2 :: "nat \<Rightarrow> nat" where
  "ceil_log2 n = (if n = 2 ^ ilog2 n then ilog2 n else ilog2 n + 1)"

definition py_byte_length :: "nat \<Rightarrow> nat option" where
  "py_byte_length n = (if n = 0 then None else Some ((ceil_log2 n + 7) div 8))"

fun concat_opt :: "'a list option list \<Rightarrow> 'a list option" where
  "concat_opt [] = Some []"
| "concat_opt (x # xs) =
     Option.bind x (\<lambda>a. Option.bind (concat_opt xs) (\<lambda>b. Some (a @ b)))"

definition serialize_metadata :: "u8 list option" where
  "serialize_metadata =
     concat_opt [uint_tobytes VERSION 4, uint_tobytes WORD_SIZE 4,
       uint_tobytes LLMI_MAX_INPUT_COUNT 4, uint_tobytes LLMI_MAX_OUTPUT_COUNT 4,
       uint_tobytes REGISTER_COUNT 4, uint_tobytes LLS_MAX_LENGTH 4]"

definition input_ids :: "nat list \<Rightarrow> id_dict" where
  "input_ids inputs =
     fold (\<lambda>(idx, m) d. d(m \<mapsto> (idx div l_out + 1, idx mod l_out))) (enumerate 0 inputs) Map.empty"

definition output_ids :: "nat \<Rightarrow> nat list \<Rightarrow> id_dict \<Rightarrow> id_dict" where
  "output_ids instr outs d = fold (\<lambda>(j, m) d. d(m \<mapsto> (instr, j))) (enumerate 0 outs) d"

definition id_bytes :: "nat \<Rightarrow> nat \<times> nat \<Rightarrow> u8 list option" where
  "id_bytes lb_o p = concat_opt [uint_tobytes (fst p) 4, uint_tobytes (snd p) lb_o]"

definition reveal :: "nat list \<Rightarrow> nat list \<Rightarrow> bool" where
  "reveal prog_outputs outs \<longleftrightarrow> (\<exists>a\<in>set outs. a \<in> set prog_outputs)"

definition serialize_llmi ::
    "u8 list \<Rightarrow> nat \<Rightarrow> nat \<Rightarrow> nat \<Rightarrow> nat \<Rightarrow> nat list \<Rightarrow> nat \<Rightarrow> id_dict \<Rightarrow> ir_llmi \<Rightarrow> u8 list option" where
  "serialize_llmi key lb_m lb_o lb_r mc prog_outputs instr d llmi =
     Option.bind (uint_tobytes (length (ir_inputs llmi)) lb_m) (\<lambda>input_count_bstr.
     Option.bind (concat_opt (map (create_memdict mc lb_m) (ir_inputs llmi))) (\<lambda>inputs_bstr.
     Option.bind (those (map d (ir_inputs llmi))) (\<lambda>ids.
     Option.bind (uint_tobytes (length (ir_outputs llmi)) lb_m) (\<lambda>output_count_bstr.
     Option.bind (concat_opt (map (create_memdict mc lb_m) (ir_outputs llmi))) (\<lambda>outputs_bstr.
     Option.bind (uint_tobytes instr 4) (\<lambda>instrID_bstr.
     Option.bind (uint_tobytes (if reveal prog_outputs (ir_outputs llmi) then 1 else 0) 1) (\<lambda>rflag_bstr.
     Option.bind (concat_opt (map (id_bytes lb_o) ids)) (\<lambda>inputIDs_bstr.
     Option.bind (serialize_lls REGISTER_COUNT lb_r (ir_seq llmi)) (\<lambda>msg.
     Option.bind (uint_tobytes instr 32) (\<lambda>nonce.
       let ad = instrID_bstr @ rflag_bstr @ input_count_bstr @ inputIDs_bstr @ output_count_bstr;
           c = aenc msg ad nonce key
       in Option.bind (uint_tobytes (length c) 4) (\<lambda>lls_bytelen_bstr.
          Some (input_count_bstr @ inputs_bstr @ output_count_bstr @ outputs_bstr @ instrID_bstr @
                rflag_bstr @ inputIDs_bstr @ lls_bytelen_bstr @ c))))))))))))"

text \<open>The loop over the multi-instructions; the identifiers of the outputs are added to the
  dictionary after the inputs were looked up.\<close>

fun serialize_llmis ::
    "u8 list \<Rightarrow> nat \<Rightarrow> nat \<Rightarrow> nat \<Rightarrow> nat \<Rightarrow> nat list \<Rightarrow> nat \<Rightarrow> id_dict \<Rightarrow> ir_llmi list \<Rightarrow> u8 list option" where
  "serialize_llmis key lb_m lb_o lb_r mc prog_outputs instr d [] = Some []"
| "serialize_llmis key lb_m lb_o lb_r mc prog_outputs instr d (llmi # ls) =
     Option.bind (serialize_llmi key lb_m lb_o lb_r mc prog_outputs instr d llmi) (\<lambda>b.
     Option.bind (serialize_llmis key lb_m lb_o lb_r mc prog_outputs (Suc instr)
         (output_ids instr (ir_outputs llmi) d) ls) (\<lambda>bs. Some (b @ bs)))"

definition serialize :: "u8 list \<Rightarrow> u8 list \<Rightarrow> LLIRProgram \<Rightarrow> u8 list option" where
  "serialize ct_sk key ir =
     (let n = length (ir_prog_inputs ir); mc = ir_memory_count ir
      in Option.bind (py_byte_length l_out) (\<lambda>lb_o.
         Option.bind (py_byte_length mc) (\<lambda>lb_m.
         Option.bind (py_byte_length REGISTER_COUNT) (\<lambda>lb_r.
         concat_opt
           [serialize_metadata, uint_tobytes mc 4, Some ct_sk,
            uint_tobytes n lb_m, concat_opt (map (create_memdict mc lb_m) (ir_prog_inputs ir)),
            uint_tobytes (length (ir_prog_outputs ir)) lb_m,
            concat_opt (map (create_memdict mc lb_m) (ir_prog_outputs ir)),
            uint_tobytes (length (ir_instrs ir)) 4,
            serialize_llmis key lb_m lb_o lb_r mc (ir_prog_outputs ir) (1 + (n div l_out + 1))
              (input_ids (ir_prog_inputs ir)) (ir_instrs ir)]))))"

section \<open>Meaning\<close>

text \<open>A plain memory: the word in every cell that was written.\<close>

type_synonym plain = "nat \<rightharpoonup> uSE"

definition store_plain :: "nat list \<Rightarrow> uSE list \<Rightarrow> plain \<Rightarrow> plain" where
  "store_plain cells ws m = fold (\<lambda>(a, w) m. m(a \<mapsto> w)) (zip cells ws) m"

definition eval_plain :: "ir_llmi \<Rightarrow> plain \<Rightarrow> plain res" where
  "eval_plain llmi m =
     (if REGISTER_COUNT < length (ir_inputs llmi) then Inl OutOfBounds
      else if l_out < length (ir_outputs llmi) then Inl OutOfBounds
      else if LLS_MAX_LENGTH < length (ir_seq llmi) then Inl LLSTooLong
      else bindr (mapM (\<lambda>a. initialised (m a)) (ir_inputs llmi)) (\<lambda>ws.
           bindr (foldM exec_lli (ir_seq llmi)
                    (map Some ws @ replicate (REGISTER_COUNT - length ws) None)) (\<lambda>reg.
           bindr (mapM (\<lambda>j. bindr (read_at reg (REGISTER_COUNT - l_out + j)) initialised)
                    [0..<length (ir_outputs llmi)]) (\<lambda>outs.
             Inr (store_plain (ir_outputs llmi) outs m)))))"

definition run_plain :: "LLIRProgram \<Rightarrow> uSE list \<Rightarrow> uSE list res" where
  "run_plain ir inps =
     bindr (foldM eval_plain (ir_instrs ir) (store_plain (ir_prog_inputs ir) inps Map.empty)) (\<lambda>m.
       mapM (\<lambda>a. initialised (m a)) (ir_prog_outputs ir))"

text \<open>
  The discipline: no cell is read by a multi-instruction after it was written in clear, and
  every output of the program is in clear at the end. \<open>cs\<close> are the cells in clear.
\<close>

definition clear_cells :: "nat list \<Rightarrow> nat list \<Rightarrow> nat set \<Rightarrow> nat set" where
  "clear_cells prog_outputs outs cs =
     (if reveal prog_outputs outs then cs \<union> set outs else cs - set outs)"

fun reveal_ok :: "nat list \<Rightarrow> nat set \<Rightarrow> ir_llmi list \<Rightarrow> bool" where
  "reveal_ok prog_outputs cs [] = (set prog_outputs \<subseteq> cs)"
| "reveal_ok prog_outputs cs (llmi # ls) =
     (set (ir_inputs llmi) \<inter> cs = {} \<and>
      reveal_ok prog_outputs (clear_cells prog_outputs (ir_outputs llmi) cs) ls)"

end
