(* ===== verification/Parsing.thy ===== *)
theory Parsing
  imports Program_Serializer
begin

text \<open>
  Reading back an encoded program: the interpreter's reading functions applied to the
  bytes the serializer writes return the program, with the identifiers the serializer
  assigned and the encrypted instructions in place.
\<close>

section \<open>Integers and lists of cells\<close>

lemma load_bytes_eq: "load_bytes n p = bindr (load_u32 p n) (\<lambda>w. Inr (w, drop n p))"
  by (auto simp: load_bytes_def load_u32_def bindr_assoc)

lemma uint_tobytes_be:
  assumes "uint_tobytes n k = Some bs" and "k \<le> 4"
  shows "bs = be_bytes k (of_nat n :: u32)"
  using assms nat_bytes_be [where 'a = 32, of k n] by (auto simp: uint_tobytes_def split: if_splits)

lemma load_bytes_uint:
  assumes "uint_tobytes n k = Some bs" and "k \<in> {1..4}"
  shows "load_bytes k (bs @ rest) = Inr (of_nat n, rest)"
  using load_u32_uint [OF assms] by (simp add: load_bytes_eq)

lemma unat_of_uint:
  assumes "uint_tobytes n k = Some bs" and "k \<in> {1..4}"
  shows "unat (of_nat n :: u32) = n"
  using uint_tobytes_word(3) [OF assms(1)] assms(2) by (simp add: unat_of_nat)

lemma create_memdict_uint:
  "create_memdict c k m = Some bs \<Longrightarrow> uint_tobytes m k = Some bs \<and> m < c"
  by (auto simp: create_memdict_def split: if_splits)

lemma concat_opt_Cons_Some:
  "concat_opt (x # xs) = Some bs \<longleftrightarrow> (\<exists>a b. x = Some a \<and> concat_opt xs = Some b \<and> bs = a @ b)"
  by (auto simp: bind_eq_Some_conv)

lemma repeatM_concat:
  assumes "concat_opt (map f xs) = Some bs"
    and "\<And>x b rest. x \<in> set xs \<Longrightarrow> f x = Some b \<Longrightarrow> p (b @ rest) = Inr (g x, rest)"
  shows "repeatM (length xs) p (bs @ rest) = Inr (map g xs, rest)"
  using assms
proof (induction xs arbitrary: bs)
  case (Cons x xs)
  then obtain a b where b: "f x = Some a" "concat_opt (map f xs) = Some b" "bs = a @ b"
    by (auto simp: concat_opt_Cons_Some simp del: concat_opt.simps)
  have "repeatM (length xs) p (b @ rest) = Inr (map g xs, rest)"
    using Cons.prems(2) by (intro Cons.IH b(2)) auto
  then show ?case using Cons.prems(2) [of x a "b @ rest"] b by simp
qed simp

lemma cells_parse:
  assumes "concat_opt (map (create_memdict mc k) cells) = Some bs" and "k \<in> {1..4}"
  shows "repeatM (length cells) (load_bytes k) (bs @ rest) = Inr (map of_nat cells, rest)"
  by (rule repeatM_concat [OF assms(1)])
     (use load_bytes_uint [OF _ assms(2)] create_memdict_uint in blast)

lemma cells_less:
  "concat_opt (map (create_memdict mc k) cells) = Some bs \<Longrightarrow> a \<in> set cells \<Longrightarrow> a < mc"
proof (induction cells arbitrary: bs)
  case (Cons x xs)
  then show ?case
    by (auto simp: concat_opt_Cons_Some simp del: concat_opt.simps dest!: create_memdict_uint)
qed simp

section \<open>One multi-instruction\<close>

definition id_of :: "nat \<times> nat \<Rightarrow> ID" where
  "id_of p = \<lparr>instrID = of_nat (fst p), outputID = of_nat (snd p)\<rparr>"

lemma id_bytes_Some:
  "id_bytes lb_o p = Some b \<longleftrightarrow>
     (\<exists>x y. uint_tobytes (fst p) 4 = Some x \<and> uint_tobytes (snd p) lb_o = Some y \<and> b = x @ y)"
  by (auto simp: id_bytes_def bind_eq_Some_conv)

lemma ids_parse:
  assumes "concat_opt (map (id_bytes lb_o) ids) = Some bs" and "lb_o \<in> {1..4}"
  shows "repeatM (length ids) (\<lambda>bcptr.
              bindr (load_bytes 4 bcptr) (\<lambda>(a, bcptr).
              bindr (load_bytes lb_o bcptr) (\<lambda>(b, bcptr).
                Inr (\<lparr>instrID = a, outputID = b\<rparr>, bcptr)))) (bs @ rest) = Inr (map id_of ids, rest)"
proof (rule repeatM_concat [OF assms(1)])
  fix p b rest assume "id_bytes lb_o p = Some b"
  then obtain x y where xy: "uint_tobytes (fst p) 4 = Some x" "uint_tobytes (snd p) lb_o = Some y"
      "b = x @ y"
    by (auto simp: id_bytes_Some)
  then show "bindr (load_bytes 4 (b @ rest)) (\<lambda>(a, bcptr). bindr (load_bytes lb_o bcptr)
      (\<lambda>(b, bcptr). Inr (\<lparr>instrID = a, outputID = b\<rparr>, bcptr))) = Inr (id_of p, rest)"
    using load_bytes_uint [OF xy(1), of "y @ rest"] load_bytes_uint [OF xy(2) assms(2), of rest]
    by (simp add: id_of_def)
qed

lemma ids_bytes_be:
  assumes "concat_opt (map (id_bytes lb_o) ids) = Some bs" and "lb_o \<in> {1..4}"
  shows "bs = concat (map (\<lambda>p. be_bytes 4 (instrID (id_of p)) @ be_bytes lb_o (outputID (id_of p))) ids)"
  using assms(1)
proof (induction ids arbitrary: bs)
  case (Cons p ids)
  then obtain x y b where "uint_tobytes (fst p) 4 = Some x" "uint_tobytes (snd p) lb_o = Some y"
      "concat_opt (map (id_bytes lb_o) ids) = Some b" "bs = x @ y @ b"
    by (auto simp: id_bytes_Some bind_eq_Some_conv)
  then show ?case
    using Cons.IH assms(2) uint_tobytes_be [of "fst p" 4 x] uint_tobytes_be [of "snd p" lb_o y]
    by (simp add: id_of_def)
qed simp

text \<open>What the interpreter makes of the encoding of a multi-instruction.\<close>

definition parsed_aells ::
    "nat list \<Rightarrow> nat \<Rightarrow> (nat \<times> nat) list \<Rightarrow> ir_llmi \<Rightarrow> nat \<Rightarrow> u8 list \<Rightarrow> AELLS" where
  "parsed_aells prog_outputs instr ids llmi bl bc =
     \<lparr>reveal_flag = (if reveal prog_outputs (ir_outputs llmi) then 1 else 0),
      inp_count = of_nat (length (ir_inputs llmi)), out_count = of_nat (length (ir_outputs llmi)),
      inputIDs = map id_of ids, aells_instrID = of_nat instr, bytelen = of_nat bl, bytecode = bc\<rparr>"

definition parsed_llmi ::
    "nat list \<Rightarrow> nat \<Rightarrow> (nat \<times> nat) list \<Rightarrow> ir_llmi \<Rightarrow> nat \<Rightarrow> u8 list \<Rightarrow> LLMI" where
  "parsed_llmi prog_outputs instr ids llmi bl bc =
     \<lparr>llmi_inp_count = of_nat (length (ir_inputs llmi)),
      llmi_out_count = of_nat (length (ir_outputs llmi)),
      mem_inps = map of_nat (ir_inputs llmi), mem_outs = map of_nat (ir_outputs llmi),
      aells = parsed_aells prog_outputs instr ids llmi bl bc\<rparr>"

text \<open>The associated data the serializer authenticates, in the words of the secure element.\<close>

definition llmi_ad :: "nat \<Rightarrow> nat \<Rightarrow> AELLS \<Rightarrow> u8 list" where
  "llmi_ad lb_m lb_o a =
     be_bytes 4 (aells_instrID a) @ [reveal_flag a] @ be_bytes lb_m (inp_count a) @
     concat (map (\<lambda>p. be_bytes 4 (instrID p) @ be_bytes lb_o (outputID p)) (inputIDs a)) @
     be_bytes lb_m (out_count a)"

definition llmi_nonce :: "AELLS \<Rightarrow> u8 list" where
  "llmi_nonce a = replicate 28 0 @ be_bytes 4 (aells_instrID a)"

lemma nat_bytes_nonce:
  assumes "n < 2 ^ 32"
  shows "nat_bytes 32 n = replicate 28 0 @ be_bytes 4 (of_nat n :: u32)"
proof -
  have "nat_bytes (k + 4) n = replicate k 0 @ nat_bytes 4 n" for k
  proof (induction k)
    case (Suc k)
    have "(256 :: nat) ^ 4 \<le> 256 ^ (k + 4)" by (rule power_increasing) auto
    then have "n div 256 ^ (k + 4) = 0" using assms by (intro div_less) simp
    with Suc show ?case by (simp only: add_Suc nat_bytes.simps replicate_Suc) simp
  qed simp
  from this [of 28] show ?thesis using nat_bytes_be [where 'a = 32, of 4 n] by simp
qed

lemma those_length: "those xs = Some ys \<Longrightarrow> length ys = length xs"
  by (induction xs arbitrary: ys) (auto split: option.splits)

text \<open>The encrypted instructions of a multi-instruction.\<close>

definition llmi_cipher ::
    "u8 list \<Rightarrow> nat \<Rightarrow> nat \<Rightarrow> nat list \<Rightarrow> nat \<Rightarrow> (nat \<times> nat) list \<Rightarrow> ir_llmi \<Rightarrow> u8 list \<Rightarrow> u8 list" where
  "llmi_cipher key lb_m lb_o po instr ids llmi msg =
     (let a = parsed_aells po instr ids llmi 0 []
      in aenc msg (llmi_ad lb_m lb_o a) (llmi_nonce a) key)"

lemma serialize_llmi_parts:
  assumes ser: "serialize_llmi key lb_m lb_o lb_r mc po instr d llmi = Some bs"
    and lb: "lb_m \<in> {1..4}" "lb_o \<in> {1..4}"
  obtains ids msg where "those (map d (ir_inputs llmi)) = Some ids"
    "serialize_lls REGISTER_COUNT lb_r (ir_seq llmi) = Some msg" "instr < 2 ^ 32"
    "length (ir_inputs llmi) < 2 ^ 32" "length (ir_outputs llmi) < 2 ^ 32"
    "length (llmi_cipher key lb_m lb_o po instr ids llmi msg) < 2 ^ 32"
    "set (ir_inputs llmi) \<union> set (ir_outputs llmi) \<subseteq> {..<mc}"
    "\<And>rest. interpret_llmi lb_m lb_o (bs @ rest) =
       Inr (parsed_llmi po instr ids llmi (length (llmi_cipher key lb_m lb_o po instr ids llmi msg))
              (llmi_cipher key lb_m lb_o po instr ids llmi msg @ rest), rest)"
proof -
  let ?rf = "if reveal po (ir_outputs llmi) then 1 else 0 :: nat"
  obtain ic ins ids oc outs iid rf idb msg nonce bl where parts:
      "uint_tobytes (length (ir_inputs llmi)) lb_m = Some ic"
      "concat_opt (map (create_memdict mc lb_m) (ir_inputs llmi)) = Some ins"
      "those (map d (ir_inputs llmi)) = Some ids"
      "uint_tobytes (length (ir_outputs llmi)) lb_m = Some oc"
      "concat_opt (map (create_memdict mc lb_m) (ir_outputs llmi)) = Some outs"
      "uint_tobytes instr 4 = Some iid" "uint_tobytes ?rf 1 = Some rf"
      "concat_opt (map (id_bytes lb_o) ids) = Some idb"
      "serialize_lls REGISTER_COUNT lb_r (ir_seq llmi) = Some msg"
      "uint_tobytes instr 32 = Some nonce"
      "uint_tobytes (length (aenc msg (iid @ rf @ ic @ idb @ oc) nonce key)) 4 = Some bl"
      "bs = ic @ ins @ oc @ outs @ iid @ rf @ idb @ bl @ aenc msg (iid @ rf @ ic @ idb @ oc) nonce key"
    using ser unfolding serialize_llmi_def Let_def
    by (clarsimp simp: bind_eq_Some_conv)
  let ?a = "parsed_aells po instr ids llmi 0 []"
  have instr: "instr < 2 ^ 32" using uint_tobytes_word(3) [OF parts(6)] by simp
  have nonce: "nonce = llmi_nonce ?a"
    using parts(10) nat_bytes_nonce [OF instr]
    by (auto simp: uint_tobytes_def llmi_nonce_def parsed_aells_def split: if_splits)
  have rf: "rf = [reveal_flag ?a]"
    using parts(7) by (auto simp: uint_tobytes_def parsed_aells_def split: if_splits)
  have "iid @ rf @ ic @ idb @ oc = llmi_ad lb_m lb_o ?a"
    using uint_tobytes_be [OF parts(6)] uint_tobytes_be [OF parts(1)] uint_tobytes_be [OF parts(4)]
      ids_bytes_be [OF parts(8) lb(2)] lb rf
    by (simp add: llmi_ad_def parsed_aells_def comp_def)
  then have c: "aenc msg (iid @ rf @ ic @ idb @ oc) nonce key = llmi_cipher key lb_m lb_o po instr ids llmi msg"
    by (simp add: llmi_cipher_def nonce Let_def)
  have lens: "length ids = length (ir_inputs llmi)" using those_length [OF parts(3)] by simp
  have counts: "unat (of_nat (length (ir_inputs llmi)) :: u32) = length (ir_inputs llmi)"
      "unat (of_nat (length (ir_outputs llmi)) :: u32) = length (ir_outputs llmi)"
      "unat (of_nat (length (llmi_cipher key lb_m lb_o po instr ids llmi msg)) :: u32)
         = length (llmi_cipher key lb_m lb_o po instr ids llmi msg)"
    using unat_of_uint [OF parts(1) lb(1)] unat_of_uint [OF parts(4) lb(1)]
      unat_of_uint [OF parts(11)] by (simp_all add: c)
  have "(4 :: nat) \<in> {1..4}" "(1 :: nat) \<in> {1..4}" by simp_all
  note loads = load_bytes_uint [OF parts(1) lb(1)] load_bytes_uint [OF parts(4) lb(1)]
    load_bytes_uint [OF parts(6) this(1)] load_bytes_uint [OF parts(7) this(2)]
    load_bytes_uint [OF parts(11) this(1), unfolded c]
    cells_parse [OF parts(2) lb(1)] cells_parse [OF parts(5) lb(1)]
    ids_parse [OF parts(8) lb(2), unfolded lens]
  have ucast_rf: "(ucast (of_nat ?rf :: u32) :: u8) = (if reveal po (ir_outputs llmi) then 1 else 0)"
    by simp
  have parse: "interpret_llmi lb_m lb_o (bs @ rest) =
      Inr (parsed_llmi po instr ids llmi (length (llmi_cipher key lb_m lb_o po instr ids llmi msg))
              (llmi_cipher key lb_m lb_o po instr ids llmi msg @ rest), rest)" for rest
    unfolding interpret_llmi_def parts(12) c append_assoc
    by (simp only: loads bindr.simps prod.case counts)
       (simp add: loads counts skip_bytes_def parsed_llmi_def parsed_aells_def ucast_rf)
  have "length (ir_inputs llmi) < 2 ^ 32" "length (ir_outputs llmi) < 2 ^ 32"
      "length (llmi_cipher key lb_m lb_o po instr ids llmi msg) < 2 ^ 32"
    using uint_tobytes_word(3) [OF parts(1)] uint_tobytes_word(3) [OF parts(4)]
      uint_tobytes_word(3) [OF parts(11)] lb by (simp_all add: c)
  moreover have "set (ir_inputs llmi) \<union> set (ir_outputs llmi) \<subseteq> {..<mc}"
    using cells_less [OF parts(2)] cells_less [OF parts(5)] by auto
  ultimately show thesis using that parts(3,9) instr parse by blast
qed

end
