(* ===== verification/End_to_End.thy ===== *)
theory End_to_End
  imports Parsing
begin

text \<open>
  From bytecode to results: the secure element on the encoding of a multi-instruction, the
  chain of input tokens, and finally the interpreter on the encoding of a program, which
  computes what the program means on a plain memory.
\<close>

section \<open>The secure element on an encoded multi-instruction\<close>

lemma ucast_u8_u32 [simp]: "(ucast (ucast (b :: u8) :: u32) :: u8) = b"
  by (rule bit_word_eqI) (simp add: bit_simps)

lemma length_llmi_ad_ids:
  "length (concat (map (\<lambda>p. be_bytes 4 (instrID p) @ be_bytes lb_o (outputID p)) ids)) =
     (4 + lb_o) * length ids"
  by (induction ids) simp_all

lemma LLS_ad_eq:
  assumes ids: "length (inputIDs a) = unat (inp_count a)" and small: "unat (inp_count a) \<le> 1000000"
    and lb: "lb_m \<in> {1..4}" "lb_o \<in> {1..4}"
  shows "LLS_ad a lb_m lb_o = Inr (llmi_ad lb_m lb_o a)"
proof -
  let ?g = "\<lambda>p. be_bytes 4 (instrID p) @ be_bytes lb_o (outputID p)"
  have loop: "foldM (\<lambda>i ad. bindr (read_at (inputIDs a) i) (\<lambda>id.
        bindr (u32_tobytes U32_INBYTES (instrID id)) (\<lambda>x.
        bindr (u32_tobytes lb_o (outputID id)) (\<lambda>y. Inr (ad @ x @ y))))) [0..<n] s
      = Inr (s @ concat (map ?g (take n (inputIDs a))))" if "n \<le> length (inputIDs a)" for n s
    using that
  proof (induction n)
    case (Suc n)
    then show ?case
      using lb by (simp add: foldM_append u32_tobytes_be take_Suc_conv_app_nth del: atLeastAtMost_iff)
  qed simp
  let ?n = "5 + 2 * lb_m + (4 + lb_o) * unat (inp_count a)"
  have "(4 + lb_o) * unat (inp_count a) \<le> 8 * 1000000"
    using lb(2) small by (intro mult_mono) auto
  then have n: "?n < 2 ^ 32" using lb(1) by simp
  have "of_nat U32_INBYTES + of_nat FLAG_INBYTES + of_nat lb_m * 2 +
      (of_nat U32_INBYTES + of_nat lb_o) * inp_count a = (of_nat ?n :: u32)"
    by (simp add: se_sizes algebra_simps)
  moreover have "length (llmi_ad lb_m lb_o a) = ?n"
    using ids by (simp add: llmi_ad_def length_llmi_ad_ids)
  ultimately have len: "length (llmi_ad lb_m lb_o a) = unat (of_nat U32_INBYTES + of_nat FLAG_INBYTES +
      of_nat lb_m * 2 + (of_nat U32_INBYTES + of_nat lb_o) * inp_count a :: u32)"
    using n by (simp only: unat_of_nat mod_less) (simp add: unat_of_nat)
  have "u32_tobytes FLAG_INBYTES (ucast (reveal_flag a)) = Inr [reveal_flag a]"
    by (simp add: u32_tobytes_def se_sizes)
  then show ?thesis
    using lb len loop [of "unat (inp_count a)"] ids
    by (simp add: LLS_ad_def Let_def u32_tobytes_be llmi_ad_def del: atLeastAtMost_iff)
qed

lemma LLS_decrypt_eq:
  assumes ids: "length (inputIDs a) = unat (inp_count a)" and small: "unat (inp_count a) \<le> 1000000"
    and lb: "lb_m \<in> {1..4}" "lb_o \<in> {1..4}" and key: "length key = 16"
    and c: "c = aenc msg (llmi_ad lb_m lb_o a) (llmi_nonce a) key" and bl: "unat (bytelen a) = length c"
    and bc: "bytecode a = c @ rest"
  shows "LLS_decrypt a key lb_m lb_o = Inr msg"
proof -
  have n: "length (llmi_nonce a) = 32" by (simp add: llmi_nonce_def)
  have lc: "length c = length msg + 16" using n key by (simp add: c)
  have "16 \<le> bytelen a" using bl lc by (simp add: word_le_nat_alt)
  then have "unat (bytelen a - 16) = length msg" using bl lc by (simp add: unat_sub)
  then show ?thesis
    using bl bc n key c
    by (simp add: LLS_decrypt_def LLS_ad_eq [OF ids small lb] se_sizes Let_def u32_tobytes_be
        flip: llmi_nonce_def)
qed

definition sealed_key :: "u8 list \<Rightarrow> u8 list \<Rightarrow> u8 list" where
  "sealed_key e key = aenc key [] (hashp 1 e) seckey"

lemma SEeval_eq:
  assumes "length e = 32" and key: "length key = 16"
  shows "SEeval e (sealed_key e key) a Cx r lb_m lb_r lb_c lb_o =
    bindr (LLS_decrypt a key lb_m lb_o) (\<lambda>lls.
    bindr (EWORD_decrypt (replicate (unat r) None) a e Cx) (\<lambda>reg.
    bindr (LLS_execute reg lls lb_c lb_r) (\<lambda>reg.
      if reveal_flag a \<noteq> 0 then EWORD_encode a reg r else EWORD_encrypt a e reg r)))"
  using assms by (simp add: SEeval_def sealed_key_def se_sizes)

section \<open>Output registers\<close>

lemma out_register_eq:
  assumes "l_out \<le> unat r" and "i \<le> l_out"
  shows "out_register reg r i = bindr (read_at reg (unat r - l_out + i)) initialised"
proof -
  have l: "l_out < 2 ^ 32" "unat r < 2 ^ 32"
    using unsigned_less [of r, where 'a = nat] by (auto simp: config_defs)
  have "r - of_nat l_out + of_nat i = (of_nat (unat r - l_out + i) :: u32)"
    using assms by (simp add: of_nat_diff)
  moreover have "unat r - l_out + i < 2 ^ 32" using assms l by linarith
  ultimately have "unat (r - of_nat l_out + of_nat i) = unat r - l_out + i"
    by (simp only: unat_of_nat) simp
  then show ?thesis by (simp add: out_register_def)
qed

lemma EWORD_outputs:
  assumes r: "l_out \<le> unat r" and n: "unat (out_count a) \<le> l_out" and e: "length e = HASH_INBYTES"
    and outs: "mapM (\<lambda>j. bindr (read_at reg (unat r - l_out + j)) initialised)
                 [0..<unat (out_count a)] = Inr ws"
  shows "EWORD_encode a reg r = Inr (map (be_bytes 4) ws)"
    and "EWORD_encrypt a e reg r =
      Inr (map (\<lambda>j. enc_word e (aells_instrID a) (of_nat j) (ws ! j)) [0..<unat (out_count a)])"
proof -
  have mapM_nth: "mapM f xs = Inr ys \<Longrightarrow> i < length xs \<Longrightarrow> f (xs ! i) = Inr (ys ! i)"
    for f :: "nat \<Rightarrow> uSE res" and xs ys i
    by (induction xs arbitrary: ys i) (auto simp: res_simps nth_Cons split: nat.splits)
  have len: "length ws = unat (out_count a)" using mapM_Inr_length [OF outs] by simp
  have reg: "out_register reg r j = Inr (ws ! j)" if "j < unat (out_count a)" for j
    using mapM_nth [OF outs, of j] that n out_register_eq [OF r, of j reg] by simp
  have "EWORD_encode a reg r = Inr (map (\<lambda>j. be_bytes 4 (ws ! j)) [0..<unat (out_count a)])"
    unfolding EWORD_encode_def by (rule mapM_eq_map) (simp add: reg word_tobytes_be)
  also have "map (\<lambda>j. be_bytes 4 (ws ! j)) [0..<unat (out_count a)] = map (be_bytes 4) ws"
    by (rule nth_equalityI) (simp_all add: len)
  finally show "EWORD_encode a reg r = Inr (map (be_bytes 4) ws)" .
  show "EWORD_encrypt a e reg r =
      Inr (map (\<lambda>j. enc_word e (aells_instrID a) (of_nat j) (ws ! j)) [0..<unat (out_count a)])"
    unfolding EWORD_encrypt_def
    by (rule mapM_eq_map) (use e in \<open>simp add: reg word_tobytes_be enc_word_def se_sizes\<close>)
qed

section \<open>The simulation\<close>

text \<open>
  The memory of the interpreter represents a plain memory: a cell in clear starts with the
  bytes of its word, any other cell is the encryption of its word under the identifiers the
  serializer recorded for the cell.
\<close>

definition sim :: "u8 list \<Rightarrow> nat set \<Rightarrow> id_dict \<Rightarrow> plain \<Rightarrow> EWORD list \<Rightarrow> bool" where
  "sim e cs d m M \<longleftrightarrow>
     (\<forall>a w. m a = Some w \<longrightarrow> a < length M \<and>
        (if a \<in> cs then take 4 (M ! a) = be_bytes 4 w
         else \<exists>i j. d a = Some (i, j) \<and> M ! a = enc_word e (of_nat i) (of_nat j) w))"

abbreviation upds :: "'a list \<Rightarrow> 'b list \<Rightarrow> ('a \<rightharpoonup> 'b) \<Rightarrow> 'a \<rightharpoonup> 'b" where
  "upds as bs m \<equiv> fold (\<lambda>(a, b) m. m(a \<mapsto> b)) (zip as bs) m"

abbreviation stores :: "nat list \<Rightarrow> 'b list \<Rightarrow> 'b list \<Rightarrow> 'b list" where
  "stores as bs M \<equiv> fold (\<lambda>(a, b) M. M[a := b]) (zip as bs) M"

lemma length_stores [simp]: "length (stores as bs M) = length M"
  by (rule fold_invariant_set [where P = "\<lambda>N. length N = length M"]) auto

lemma sim_encrypted:
  assumes "sim e cs d m M" and "length ps = length as" and "length ws = length as"
    and "set as \<subseteq> {..<length M}"
  shows "sim e (cs - set as) (upds as ps d) (upds as ws m)
    (stores as (map2 (\<lambda>p w. enc_word e (of_nat (fst p)) (of_nat (snd p)) w) ps ws) M)"
  using assms
proof (induction as arbitrary: ps ws cs d m M)
  case (Cons a as)
  obtain p ps' w ws' where ps: "ps = p # ps'" "ws = w # ws'"
    using Cons.prems by (cases ps; cases ws; auto)
  have "sim e (cs - {a}) (d(a \<mapsto> p)) (m(a \<mapsto> w))
      (M[a := enc_word e (of_nat (fst p)) (of_nat (snd p)) w])"
    using Cons.prems by (cases p) (auto simp: sim_def nth_update)
  from Cons.IH [OF this, of ps' ws'] show ?case
    using Cons.prems by (simp add: ps flip: Diff_insert2)
qed simp

lemma sim_clear:
  assumes "sim e cs d m M" and "length ps = length as" and "length ws = length as"
    and "set as \<subseteq> {..<length M}"
  shows "sim e (cs \<union> set as) (upds as ps d) (upds as ws m) (stores as (map (be_bytes 4) ws) M)"
  using assms
proof (induction as arbitrary: ps ws cs d m M)
  case (Cons a as)
  obtain p ps' w ws' where ps: "ps = p # ps'" "ws = w # ws'"
    using Cons.prems by (cases ps; cases ws; auto)
  have "sim e (insert a cs) (d(a \<mapsto> p)) (m(a \<mapsto> w)) (M[a := be_bytes 4 w])"
    using Cons.prems by (auto simp: sim_def nth_update)
  from Cons.IH [OF this, of ps' ws'] show ?case
    using Cons.prems by (simp add: ps)
qed simp

lemma fold_enumerate:
  "fold (\<lambda>(i, a) d. d(a \<mapsto> g i)) (enumerate k xs) d = upds xs (map g [k..<k + length xs]) d"
proof (induction xs arbitrary: k d)
  case (Cons x xs)
  have "[k..<k + length (x # xs)] = k # [Suc k..<Suc k + length xs]" by (simp add: upt_rec)
  with Cons show ?case by simp
qed simp

lemma input_ids_upds:
  "input_ids xs = upds xs (map (\<lambda>i. (i div l_out + 1, i mod l_out)) [0..<length xs]) Map.empty"
  using fold_enumerate [of "\<lambda>i. (i div l_out + 1, i mod l_out)" 0 xs] by (simp add: input_ids_def)

lemma output_ids_upds: "output_ids instr xs d = upds xs (map (Pair instr) [0..<length xs]) d"
  using fold_enumerate [of "Pair instr" 0 xs d] by (simp add: output_ids_def)

lemma store_words_eq:
  assumes "length as \<le> length ws" and "set as \<subseteq> {..<length M}" and "length M \<le> 2 ^ 32"
  shows "store_words (length as) (map of_nat as) ws M = Inr (stores as (take (length as) ws) M)"
proof -
  have "foldM (\<lambda>i M. bindr (read_at (map of_nat as) i) (\<lambda>a. bindr (read_at ws i) (\<lambda>w.
          write_at M (unat (a :: u32)) w))) [0..<n] M = Inr (stores (take n as) (take n ws) M)"
    if "n \<le> length as" for n
    using that
  proof (induction n)
    case (Suc n)
    then have "as ! n < length M" using assms(2) by (auto simp: subset_iff)
    moreover from this have "unat (of_nat (as ! n) :: u32) = as ! n"
      using assms(3) by (simp add: unat_of_nat)
    ultimately show ?case
      using Suc assms(1) by (simp add: foldM_append take_Suc_conv_app_nth)
  qed simp
  from this [of "length as"] show ?thesis using assms(1) by (simp add: store_words_def)
qed

section \<open>One multi-instruction\<close>

lemma mapM_initialised:
  "mapM (\<lambda>a. initialised (m a)) as = Inr ws \<longleftrightarrow>
     length ws = length as \<and> (\<forall>i<length as. m (as ! i) = Some (ws ! i))"
proof (induction as arbitrary: ws)
  case (Cons a as)
  have "mapM (\<lambda>a. initialised (m a)) (a # as) = Inr ws \<longleftrightarrow>
      (\<exists>w ws'. m a = Some w \<and> mapM (\<lambda>a. initialised (m a)) as = Inr ws' \<and> ws = w # ws')"
    by (auto simp: res_simps initialised_def split: option.splits)
  also have "\<dots> \<longleftrightarrow> length ws = length (a # as) \<and> (\<forall>i<length (a # as). m ((a # as) ! i) = Some (ws ! i))"
    unfolding Cons.IH by (cases ws) (auto simp: All_less_Suc2)
  finally show ?case .
qed auto

lemma those_nth: "those xs = Some ys \<Longrightarrow> i < length xs \<Longrightarrow> xs ! i = Some (ys ! i)"
  by (induction xs arbitrary: ys i) (auto simp: nth_Cons split: option.splits nat.splits)

lemma LLS_execute_short:
  assumes "serialize_lls r lb_r lls = Some bs" and "lb_r \<in> {1..4}" and "length lls \<le> LLS_MAX_LENGTH"
  shows "LLS_execute reg bs 4 lb_r = foldM exec_lli lls reg"
  using LLS_loop_encoded [OF assms(1,2), of 0 reg] assms(3) by (simp add: LLS_execute_def)

lemma read_inputs:
  assumes "set as \<subseteq> {..<length M}" and "length M \<le> 2 ^ 32"
  shows "mapM (\<lambda>a. read_at M (unat (a :: u32))) (map of_nat as) = Inr (map (\<lambda>a. M ! a) as)"
  using assms
proof (induction as)
  case (Cons a as)
  then have "unat (of_nat a :: u32) = a" by (simp add: unat_of_nat)
  with Cons show ?case by simp
qed simp

lemma sim_word_at:
  assumes "sim e cs d m M" and "those (map d as) = Some ids" and "set as \<inter> cs = {}"
    and "i < length as" and "m (as ! i) = Some w"
  shows "word_at (map id_of ids) e (map (\<lambda>a. M ! a) as) i w"
proof -
  have "as ! i \<notin> cs" using assms(3,4) nth_mem [of i as] by blast
  then obtain p q where p: "d (as ! i) = Some (p, q)" "M ! (as ! i) = enc_word e (of_nat p) (of_nat q) w"
    using assms(1,5) unfolding sim_def by (metis (full_types))
  moreover have "ids ! i = (p, q)" using those_nth [OF assms(2), of i] p assms(4) by simp
  ultimately show ?thesis
    using those_length [OF assms(2)] assms(4) by (simp add: word_at_def id_of_def)
qed

lemma reg_count: "unat (of_nat REGISTER_COUNT :: u32) = REGISTER_COUNT" "l_out \<le> REGISTER_COUNT"
    "REGISTER_COUNT \<le> 1000000"
  by (simp_all add: config_defs)

lemma eval_llmi_sim:
  assumes e: "length e = 32" and key: "length key = 16"
    and lb: "lb_m \<in> {1..4}" "lb_o \<in> {1..4}" "lb_r \<in> {1..4}"
    and ids: "those (map d (ir_inputs llmi)) = Some ids"
    and msg: "serialize_lls REGISTER_COUNT lb_r (ir_seq llmi) = Some msg"
    and c: "c = llmi_cipher key lb_m lb_o po instr ids llmi msg" "length c < 2 ^ 32"
    and cells: "set (ir_inputs llmi) \<union> set (ir_outputs llmi) \<subseteq> {..<length M}" "length M \<le> 2 ^ 32"
    and sim: "sim e cs d m M" and cs: "set (ir_inputs llmi) \<inter> cs = {}"
    and plain: "eval_plain llmi m = Inr m'"
  shows "\<exists>M'. eval_llmi e (sealed_key e key) lb_m lb_r 4 lb_o
             (parsed_llmi po instr ids llmi (length c) (c @ rest)) M = Inr M' \<and> length M' = length M \<and>
           sim e (clear_cells po (ir_outputs llmi) cs) (output_ids instr (ir_outputs llmi) d) m' M'"
proof -
  let ?a = "parsed_aells po instr ids llmi (length c) (c @ rest)"
  let ?Cx = "map (\<lambda>a. M ! a) (ir_inputs llmi)" and ?outs = "ir_outputs llmi"
  let ?r = "of_nat REGISTER_COUNT :: u32"
  obtain ws reg os where bounds: "length (ir_inputs llmi) \<le> REGISTER_COUNT" "length ?outs \<le> l_out"
        "length (ir_seq llmi) \<le> LLS_MAX_LENGTH"
      and ws: "mapM (\<lambda>a. initialised (m a)) (ir_inputs llmi) = Inr ws"
      and reg: "foldM exec_lli (ir_seq llmi)
        (map Some ws @ replicate (REGISTER_COUNT - length ws) None) = Inr reg"
      and os: "mapM (\<lambda>j. bindr (read_at reg (REGISTER_COUNT - l_out + j)) initialised)
        [0..<length ?outs] = Inr os"
      and m': "m' = store_plain ?outs os m"
    using plain by (auto simp: eval_plain_def res_simps split: if_splits)
  have "REGISTER_COUNT < 2 ^ 32" "l_out < 2 ^ 32" by (simp_all add: config_defs)
  then have cnt: "unat (inp_count ?a) = length (ir_inputs llmi)" "unat (out_count ?a) = length ?outs"
      "unat (bytelen ?a) = length c"
    using bounds c(2) by (simp_all add: parsed_aells_def unat_of_nat)
  note wl = ws [unfolded mapM_initialised]
  have dec: "LLS_decrypt ?a key lb_m lb_o = Inr msg"
    by (rule LLS_decrypt_eq [OF _ _ lb(1,2) key _ cnt(3), where rest = rest])
       (use bounds cnt reg_count(3) those_length [OF ids] in
        \<open>auto simp: parsed_aells_def c(1) llmi_cipher_def llmi_ad_def llmi_nonce_def Let_def\<close>)
  have "EWORD_decrypt (replicate (unat ?r) None) ?a e ?Cx =
      Inr (map Some ws @ replicate (REGISTER_COUNT - length ws) None)"
    using e bounds wl cnt(1) sim_word_at [OF sim ids cs]
    by (subst EWORD_decrypt_iff)
       (auto simp: se_sizes reg_count(1) parsed_aells_def intro!: exI [of _ ws])
  moreover have "LLS_execute (map Some ws @ replicate (REGISTER_COUNT - length ws) None) msg 4 lb_r = Inr reg"
    using LLS_execute_short [OF msg lb(3) bounds(3)] reg by simp
  ultimately have eval: "SEeval e (sealed_key e key) ?a ?Cx ?r lb_m lb_r 4 lb_o =
      (if reveal_flag ?a \<noteq> 0 then EWORD_encode ?a reg ?r else EWORD_encrypt ?a e reg ?r)"
    by (simp add: SEeval_eq [OF e key] dec)
  have "l_out \<le> unat ?r" "unat (out_count ?a) \<le> l_out" "length e = HASH_INBYTES"
    using bounds cnt e by (simp_all add: reg_count se_sizes)
  note outs = EWORD_outputs [OF this, of reg os, unfolded cnt(2) reg_count(1), OF os]
  have lo: "length os = length ?outs" using mapM_Inr_length [OF os] by simp
  have enc: "map2 (\<lambda>p w. enc_word e (of_nat (fst p)) (of_nat (snd p)) w) (map (Pair instr) [0..<length ?outs]) os
      = map (\<lambda>j. enc_word e (of_nat instr) (of_nat j) (os ! j)) [0..<length ?outs]"
    by (rule nth_equalityI) (simp_all add: lo)
  have run: "eval_llmi e (sealed_key e key) lb_m lb_r 4 lb_o
      (parsed_llmi po instr ids llmi (length c) (c @ rest)) M = Inr (stores ?outs res M)"
    if "SEeval e (sealed_key e key) ?a ?Cx ?r lb_m lb_r 4 lb_o = Inr res" "length res = length ?outs" for res
    using that cells cnt(2) read_inputs [of "ir_inputs llmi" M] store_words_eq [of ?outs res M]
    by (simp add: eval_llmi_def parsed_llmi_def parsed_aells_def)
  show ?thesis
  proof (cases "reveal po ?outs")
    case True
    then have "SEeval e (sealed_key e key) ?a ?Cx ?r lb_m lb_r 4 lb_o = Inr (map (be_bytes 4) os)"
      using eval outs(1) by (simp add: parsed_aells_def)
    from run [OF this] show ?thesis
      using sim_clear [OF sim, of "map (Pair instr) [0..<length ?outs]" ?outs os] cells lo True
      by (simp add: m' store_plain_def output_ids_upds clear_cells_def)
  next
    case False
    then have "SEeval e (sealed_key e key) ?a ?Cx ?r lb_m lb_r 4 lb_o =
        Inr (map (\<lambda>j. enc_word e (of_nat instr) (of_nat j) (os ! j)) [0..<length ?outs])"
      using eval outs(2) by (simp add: parsed_aells_def)
    from run [OF this] show ?thesis
      using sim_encrypted [OF sim, of "map (Pair instr) [0..<length ?outs]" ?outs os] cells lo False
      by (simp add: m' store_plain_def output_ids_upds clear_cells_def enc)
  qed
qed

section \<open>All multi-instructions\<close>

text \<open>The records the interpreter reads for the encodings of a list of multi-instructions.\<close>

fun parsed_ok ::
    "u8 list \<Rightarrow> nat \<Rightarrow> nat \<Rightarrow> nat \<Rightarrow> nat \<Rightarrow> nat list \<Rightarrow> nat \<Rightarrow> id_dict \<Rightarrow> ir_llmi list \<Rightarrow> LLMI list \<Rightarrow> bool" where
  "parsed_ok key lb_m lb_o lb_r mc po instr d (ir # irs) (l # ls) \<longleftrightarrow>
     (\<exists>ids msg rest. those (map d (ir_inputs ir)) = Some ids \<and>
        serialize_lls REGISTER_COUNT lb_r (ir_seq ir) = Some msg \<and>
        length (llmi_cipher key lb_m lb_o po instr ids ir msg) < 2 ^ 32 \<and>
        set (ir_inputs ir) \<union> set (ir_outputs ir) \<subseteq> {..<mc} \<and>
        l = parsed_llmi po instr ids ir (length (llmi_cipher key lb_m lb_o po instr ids ir msg))
              (llmi_cipher key lb_m lb_o po instr ids ir msg @ rest)) \<and>
     parsed_ok key lb_m lb_o lb_r mc po (Suc instr) (output_ids instr (ir_outputs ir) d) irs ls"
| "parsed_ok key lb_m lb_o lb_r mc po instr d irs ls \<longleftrightarrow> irs = [] \<and> ls = []"

lemma llmis_parse:
  assumes "serialize_llmis key lb_m lb_o lb_r mc po instr d irs = Some bs"
    and lb: "lb_m \<in> {1..4}" "lb_o \<in> {1..4}"
  shows "\<exists>ls. repeatM (length irs) (interpret_llmi lb_m lb_o) (bs @ rest) = Inr (ls, rest) \<and>
           parsed_ok key lb_m lb_o lb_r mc po instr d irs ls"
  using assms(1)
proof (induction irs arbitrary: instr d bs)
  case (Cons ir irs)
  then obtain b bs' where b: "serialize_llmi key lb_m lb_o lb_r mc po instr d ir = Some b"
      "serialize_llmis key lb_m lb_o lb_r mc po (Suc instr) (output_ids instr (ir_outputs ir) d) irs
         = Some bs'" "bs = b @ bs'"
    by (auto simp: bind_eq_Some_conv)
  obtain ls where ls: "repeatM (length irs) (interpret_llmi lb_m lb_o) (bs' @ rest) = Inr (ls, rest)"
      "parsed_ok key lb_m lb_o lb_r mc po (Suc instr) (output_ids instr (ir_outputs ir) d) irs ls"
    using Cons.IH [OF b(2)] by blast
  obtain ids msg where p: "those (map d (ir_inputs ir)) = Some ids"
      "serialize_lls REGISTER_COUNT lb_r (ir_seq ir) = Some msg"
      "length (llmi_cipher key lb_m lb_o po instr ids ir msg) < 2 ^ 32"
      "set (ir_inputs ir) \<union> set (ir_outputs ir) \<subseteq> {..<mc}"
      "\<And>rest. interpret_llmi lb_m lb_o (b @ rest) =
         Inr (parsed_llmi po instr ids ir (length (llmi_cipher key lb_m lb_o po instr ids ir msg))
              (llmi_cipher key lb_m lb_o po instr ids ir msg @ rest), rest)"
    by (rule serialize_llmi_parts [OF b(1) lb]) blast
  let ?l = "parsed_llmi po instr ids ir (length (llmi_cipher key lb_m lb_o po instr ids ir msg))
              (llmi_cipher key lb_m lb_o po instr ids ir msg @ bs' @ rest)"
  have "repeatM (length (ir # irs)) (interpret_llmi lb_m lb_o) (bs @ rest) = Inr (?l # ls, rest)"
    using p(5) [of "bs' @ rest"] ls(1) b(3) by simp
  moreover have "parsed_ok key lb_m lb_o lb_r mc po instr d (ir # irs) (?l # ls)"
    using p(1-4) ls(2) unfolding parsed_ok.simps by blast
  ultimately show ?case by blast
qed simp

lemma eval_llmis_sim:
  assumes e: "length e = 32" and key: "length key = 16"
    and lb: "lb_m \<in> {1..4}" "lb_o \<in> {1..4}" "lb_r \<in> {1..4}"
    and "parsed_ok key lb_m lb_o lb_r (length M) po instr d irs ls" and M: "length M \<le> 2 ^ 32"
    and "sim e cs d m M" and "reveal_ok po cs irs" and "foldM eval_plain irs m = Inr m'"
  shows "\<exists>M' cs' d'. foldM (eval_llmi e (sealed_key e key) lb_m lb_r 4 lb_o) ls M = Inr M' \<and>
           length M' = length M \<and> sim e cs' d' m' M' \<and> set po \<subseteq> cs'"
  using assms(6-)
proof (induction irs arbitrary: instr d ls cs m M)
  case (Cons ir irs)
  obtain l ls' where ls: "ls = l # ls'" using Cons.prems(1) by (cases ls) auto
  obtain ids msg rest where p: "those (map d (ir_inputs ir)) = Some ids"
      "serialize_lls REGISTER_COUNT lb_r (ir_seq ir) = Some msg"
      "length (llmi_cipher key lb_m lb_o po instr ids ir msg) < 2 ^ 32"
      "set (ir_inputs ir) \<union> set (ir_outputs ir) \<subseteq> {..<length M}"
      "l = parsed_llmi po instr ids ir (length (llmi_cipher key lb_m lb_o po instr ids ir msg))
             (llmi_cipher key lb_m lb_o po instr ids ir msg @ rest)"
      "parsed_ok key lb_m lb_o lb_r (length M) po (Suc instr) (output_ids instr (ir_outputs ir) d) irs ls'"
    using Cons.prems(1) unfolding ls parsed_ok.simps by blast
  obtain m1 where m1: "eval_plain ir m = Inr m1" "foldM eval_plain irs m1 = Inr m'"
    using Cons.prems(5) by (auto simp: res_simps)
  have rv: "set (ir_inputs ir) \<inter> cs = {}" "reveal_ok po (clear_cells po (ir_outputs ir) cs) irs"
    using Cons.prems(4) by simp_all
  obtain M1 where M1: "eval_llmi e (sealed_key e key) lb_m lb_r 4 lb_o l M = Inr M1"
      "length M1 = length M"
      "sim e (clear_cells po (ir_outputs ir) cs) (output_ids instr (ir_outputs ir) d) m1 M1"
    using eval_llmi_sim [OF e key lb p(1,2) refl p(3,4) Cons.prems(2,3) rv(1) m1(1), where rest = rest]
    unfolding p(5) by blast
  show ?case
    using Cons.IH [OF _ _ M1(3) rv(2) m1(2), of "Suc instr" ls'] p(6) Cons.prems(2) M1(1,2)
    by (simp add: ls)
qed auto

section \<open>The input phase\<close>

lemma nth_concat_blocks:
  assumes "\<And>x. x \<in> set xs \<Longrightarrow> length x = n" and "k < n * length xs"
  shows "concat xs ! k = xs ! (k div n) ! (k mod n)"
  using assms
proof (induction xs arbitrary: k)
  case (Cons x xs)
  have x: "length x = n" and "0 < n" using Cons.prems by (auto intro: Nat.gr0I)
  show ?case
  proof (cases "k < n")
    case False
    then have "k div n = Suc ((k - n) div n)" "k mod n = (k - n) mod n"
      using \<open>0 < n\<close> by (simp_all add: le_div_geq le_mod_geq)
    then show ?thesis using False Cons.IH [of "k - n"] Cons.prems x by (simp add: nth_append)
  qed (simp add: x nth_append)
qed simp

definition batch_of :: "uSE list \<Rightarrow> nat \<Rightarrow> uSE list" where
  "batch_of inps i =
     map (\<lambda>j. if i * l_out + j < length inps then inps ! (i * l_out + j) else 0) [0..<l_out]"

lemma make_batches_eq:
  "make_batches L (length inps) (map Some inps) = Inr (map (batch_of inps) [0..<L])"
  unfolding make_batches_def batch_of_def [abs_def]
  by (intro mapM_eq_map) (simp add: Let_def initialised_def)

fun hashes :: "u8 list \<Rightarrow> uSE list list \<Rightarrow> u8 list list" where
  "hashes h [] = [h]"
| "hashes h (x # xs) = h # hashes (batch_hash h x) xs"

lemma length_hashes [simp]: "length (hashes h X) = Suc (length X)"
  by (induction X arbitrary: h) auto

lemma hashes_not_Nil [simp]: "hashes h X \<noteq> []"
  by (cases X) auto

lemma hashes_0 [simp]: "hashes h X ! 0 = h"
  by (cases X) auto

lemma hashes_Suc: "i < length X \<Longrightarrow> hashes h X ! Suc i = batch_hash (hashes h X ! i) (X ! i)"
  by (induction X arbitrary: h i) (auto simp: nth_Cons split: nat.splits)

lemma last_hashes: "last (hashes h X) = hashes h X ! length X"
  by (simp add: last_conv_nth)

lemma length_nth_hashes: "i \<le> length X \<Longrightarrow> length h = HASH_INBYTES \<Longrightarrow> length (hashes h X ! i) = HASH_INBYTES"
  by (cases i) (auto simp: hashes_Suc)

lemma make_hashes_eq:
  assumes "\<And>x. x \<in> set X \<Longrightarrow> length x = l_out"
  shows "make_hashes X = Inr (hashes (replicate HASH_INBYTES 0) X)"
proof -
  have "foldM (\<lambda>x H. bindr (hashchain (last H) x) (\<lambda>h. Inr (H @ [h]))) X (P @ [h]) = Inr (P @ hashes h X)"
    if "length h = HASH_INBYTES" for P h
    using assms that
  proof (induction X arbitrary: P h)
    case (Cons x X)
    then show ?case
      using Cons.IH [of "batch_hash h x" "P @ [h]"] hashchain_eq [of x h]
      by (simp add: batch_hash_def)
  qed simp
  from this [of "replicate HASH_INBYTES 0" "[]"] show ?thesis by (simp add: make_hashes_def)
qed

definition batch_words :: "u8 list \<Rightarrow> uSE list list \<Rightarrow> nat \<Rightarrow> EWORD list" where
  "batch_words e X i = map (\<lambda>j. enc_word e (of_nat (i + 1)) (of_nat j) (X ! i ! j)) [0..<l_out]"

text \<open>Every batch is accepted with the token the call before returned.\<close>

lemma input_loop_eq:
  assumes e: "length e = HASH_INBYTES" and X: "\<And>x. x \<in> set X \<Longrightarrow> length x = l_out"
    and L: "length X < 2 ^ 32" and h: "h = replicate HASH_INBYTES 0"
  shows "input_loop e X (hashes h X) (token e (of_nat (length X)) (last (hashes h X))) =
    Inr (token e 0 h, concat (map (batch_words e X) [0..<length X]))"
proof -
  let ?H = "hashes h X"
  let ?f = "\<lambda>i (Cin, C). bindr (SEinput e (of_nat (i + 1)) (?H ! i) (X ! i) Cin) (\<lambda>(Cinp, Ci).
              Inr (Cinp, Ci @ C))"
  have "foldM ?f (rev [0..<n]) (token e (of_nat n) (?H ! n), C) =
      Inr (token e 0 h, concat (map (batch_words e X) [0..<n]) @ C)" if "n \<le> length X" for n C
    using that
  proof (induction n arbitrary: C)
    case (Suc n)
    have n: "(of_nat (n + 1) :: u32) \<noteq> 0" "(of_nat (n + 1) :: u32) = 1 \<longrightarrow> n = 0"
      using Suc.prems L by (auto simp: word_unat_eq_iff unat_of_nat simp del: of_nat_Suc)
    have "SEinput e (of_nat (n + 1)) (?H ! n) (X ! n) (token e (of_nat (n + 1)) (?H ! Suc n)) =
        Inr (token e (of_nat (n + 1) - 1) (?H ! n), batch_words e X n)"
      using Suc.prems n h
      by (subst SEinput_iff [OF e])
         (auto simp: length_nth_hashes X hashes_Suc batch_words_def se_sizes(3))
    then show ?case using Suc by simp
  qed simp
  from this [of "length X" "[]"] show ?thesis by (simp add: input_loop_def last_hashes)
qed

section \<open>Byte lengths and metadata\<close>

lemma py_byte_length_exact:
  assumes "0 < n" and "py_byte_length n = Some b"
  shows "n \<le> 256 ^ b \<and> (0 < b \<longrightarrow> 256 ^ (b - 1) < n)"
proof -
  let ?k = "ilog2 n" and ?c = "ceil_log2 n"
  have b: "b = (?c + 7) div 8" using assms by (simp add: py_byte_length_def)
  have k: "2 ^ ?k \<le> n" "n < 2 ^ Suc ?k" using ilog2_bounds [OF assms(1)] by auto
  have p: "(256 :: nat) ^ m = 2 ^ (8 * m)" for m by (simp add: power_mult)
  have "n \<le> 2 ^ ?c" using k by (auto simp: ceil_log2_def)
  also have "\<dots> \<le> 2 ^ (8 * b)" by (intro power_increasing) (auto simp: b)
  finally have "n \<le> 256 ^ b" by (simp add: p)
  moreover have "256 ^ (b - 1) < n" if "0 < b"
  proof (cases "n = 2 ^ ?k")
    case True
    then have "8 * (b - 1) < ?k" using that by (auto simp: b ceil_log2_def)
    then have "(2 :: nat) ^ (8 * (b - 1)) < 2 ^ ?k" by (intro power_strict_increasing) auto
    with k show ?thesis unfolding p by linarith
  next
    case False
    then have "8 * (b - 1) \<le> ?k" by (auto simp: b ceil_log2_def)
    then have "(2 :: nat) ^ (8 * (b - 1)) \<le> 2 ^ ?k" by (intro power_increasing) auto
    with k False show ?thesis unfolding p by linarith
  qed
  ultimately show ?thesis by simp
qed

lemma byte_lengths_agree:
  assumes "0 < n" and "n \<le> 2 ^ 24" and "py_byte_length n = Some b"
  shows "byte_length n = Inr b" and "b \<le> 3"
proof -
  obtain c where c: "byte_length n = Inr c" "c \<le> 3" "n \<le> 256 ^ c" "0 < c \<longrightarrow> 256 ^ (c - 1) < n"
    using byte_length_exact_lemma [OF assms(1,2)] by blast
  have le: "x \<le> y" if "n \<le> 256 ^ y" "0 < x \<longrightarrow> 256 ^ (x - 1) < n" for x y
  proof (rule ccontr)
    assume "\<not> x \<le> y"
    then have "(256 :: nat) ^ y \<le> 256 ^ (x - 1)" by (intro power_increasing) auto
    moreover have "0 < x" using \<open>\<not> x \<le> y\<close> by simp
    ultimately show False using that by linarith
  qed
  have "b = c" using le [of c b] le [of b c] c py_byte_length_exact [OF assms(1,3)] by simp
  with c show "byte_length n = Inr b" "b \<le> 3" by simp_all
qed

lemma small_byte_lengths:
  "py_byte_length l_out = Some 1" "py_byte_length REGISTER_COUNT = Some 1"
  "byte_length l_out = Inr 1" "byte_length REGISTER_COUNT = Inr 1"
proof -
  have "ilog2 8 = 3" "ilog2 40 = 5" by (rule ilog2_unique; simp)+
  then show a: "py_byte_length l_out = Some 1" "py_byte_length REGISTER_COUNT = Some 1"
    by (simp_all add: py_byte_length_def ceil_log2_def config_defs)
  show "byte_length l_out = Inr 1" "byte_length REGISTER_COUNT = Inr 1"
    using byte_lengths_agree(1) [OF _ _ a(1)] byte_lengths_agree(1) [OF _ _ a(2)]
    by (simp_all add: config_defs)
qed

lemma load_bytes_4: "load_bytes 4 (be_bytes 4 w @ rest) = Inr (w, rest)"
  by (simp add: load_bytes_eq)

text \<open>Metadata is accepted exactly when the six fields are the ones of the configuration.\<close>

lemma interpret_meta_eq:
  "interpret_meta (be_bytes 4 v @ be_bytes 4 w @ be_bytes 4 i @ be_bytes 4 out @ be_bytes 4 r @
      be_bytes 4 s @ be_bytes 4 mc @ rest) =
     (if v \<noteq> of_nat VERSION then Inl (InvalidVersion v)
      else if w \<noteq> of_nat WORD_SIZE then Inl (InvalidWordSize w)
      else if i \<noteq> of_nat LLMI_MAX_INPUT_COUNT then Inl (InvalidInputMax i)
      else if out \<noteq> of_nat LLMI_MAX_OUTPUT_COUNT then Inl (InvalidOutputMax out)
      else if r \<noteq> of_nat REGISTER_COUNT then Inl (InvalidRegisterCount r)
      else if s \<noteq> of_nat LLS_MAX_LENGTH then Inl (InvalidLLSMax s)
      else Inr (mc, rest))"
  by (simp add: interpret_meta_def load_bytes_4)

lemma uint_tobytes_4: "n < 2 ^ 32 \<Longrightarrow> uint_tobytes n 4 = Some (be_bytes 4 (of_nat n :: u32))"
  using nat_bytes_be [where 'a = 32, of 4 n] by (simp add: uint_tobytes_def)

lemma serialize_metadata_eq:
  "serialize_metadata = Some (be_bytes 4 (of_nat VERSION :: u32) @ be_bytes 4 (of_nat WORD_SIZE :: u32) @
     be_bytes 4 (of_nat LLMI_MAX_INPUT_COUNT :: u32) @ be_bytes 4 (of_nat LLMI_MAX_OUTPUT_COUNT :: u32) @
     be_bytes 4 (of_nat REGISTER_COUNT :: u32) @ be_bytes 4 (of_nat LLS_MAX_LENGTH :: u32))"
proof -
  have "VERSION < 2 ^ 32" "WORD_SIZE < 2 ^ 32" "LLMI_MAX_INPUT_COUNT < 2 ^ 32"
      "LLMI_MAX_OUTPUT_COUNT < 2 ^ 32" "REGISTER_COUNT < 2 ^ 32" "LLS_MAX_LENGTH < 2 ^ 32"
    by (simp_all add: config_defs)
  then show ?thesis by (simp add: serialize_metadata_def uint_tobytes_4)
qed

section \<open>Starting an execution\<close>

lemma SEstart_eq:
  assumes h: "length h = HASH_INBYTES" and lb: "lb_m \<in> {1..4}" and ct: "length ct = 64"
    and n: "uint_tobytes n lb_m = Some nb" and small: "n + l_out < 2 ^ 32"
    and seal: "seal_open ct pubkey prvkey = Some key" and key: "length key = 16"
    and e: "e = hashp 0 (h @ ct @ nb)"
  shows "SEstart seal_open (ct @ nb @ rest) lb_m h =
    Inr (sealed_key e key, e, token e (of_nat ((n + l_out - 1) div l_out)) h)"
proof -
  have nb: "length nb = lb_m" using uint_tobytes_word(1) [OF n] lb by simp
  have l: "0 < l_out" "l_out < 2 ^ 32" by (simp_all add: config_defs)
  have "unat (of_nat n + of_nat l_out - 1 :: u32) = n + l_out - 1"
  proof -
    have "(of_nat n + of_nat l_out - 1 :: u32) = of_nat (n + l_out - 1)"
      using l by (simp add: of_nat_diff)
    then show ?thesis using small by (simp only: unat_of_nat) simp
  qed
  then have L: "(of_nat n + of_nat l_out - 1 :: u32) div of_nat l_out = of_nat ((n + l_out - 1) div l_out)"
    using l small by (simp add: word_arith_nat_div unat_of_nat)
  have e32: "length e = 32" by (simp add: e se_sizes)
  show ?thesis
    unfolding SEstart_def Let_def
    using h key seal load_u32_uint(1) [OF n lb, of rest] L ct nb e32
    by (simp add: e [symmetric] sealed_key_def token_def se_sizes u32_tobytes_be)
qed

section \<open>The whole run\<close>

lemma load_outputs:
  assumes "sim e cs d m M" and "set po \<subseteq> cs" and "length M \<le> 2 ^ 32"
    and "mapM (\<lambda>a. initialised (m a)) po = Inr outs"
  shows "mapM (load_output M) (map of_nat po) = Inr outs"
  using assms(2,4)
proof (induction po arbitrary: outs)
  case (Cons a po)
  obtain w ws where w: "m a = Some w" "mapM (\<lambda>a. initialised (m a)) po = Inr ws" "outs = w # ws"
    using Cons.prems(2) by (auto simp: res_simps initialised_def split: option.splits)
  have a: "a < length M" "take 4 (M ! a) = be_bytes 4 w"
    using assms(1) w(1) Cons.prems(1) unfolding sim_def by auto
  have "length (take 4 (M ! a)) = 4" using a(2) by simp
  then have "4 \<le> length (M ! a)" by simp
  moreover have "unat (of_nat a :: u32) = a" using a(1) assms(3) by (simp add: unat_of_nat)
  ultimately have "load_output M (of_nat a) = Inr w"
    using a by (simp add: load_output_def eword_bytes_def se_sizes(4) load_word_4 [unfolded se_sizes(4)])
  then show ?case using Cons.IH [OF _ w(2)] Cons.prems(1) w(3) by simp
qed simp

lemma batch_count:
  assumes "n + l_out < 2 ^ 32"
  shows "unat ((of_nat n + of_nat l_out - 1 :: u32) div of_nat l_out) = (n + l_out - 1) div l_out"
    and "n \<le> l_out * ((n + l_out - 1) div l_out)" and "(n + l_out - 1) div l_out < 2 ^ 32"
proof -
  have l: "0 < l_out" by (simp add: config_defs)
  have "(of_nat n + of_nat l_out - 1 :: u32) = of_nat (n + l_out - 1)" using l by (simp add: of_nat_diff)
  then show "unat ((of_nat n + of_nat l_out - 1 :: u32) div of_nat l_out) = (n + l_out - 1) div l_out"
    using assms by (simp add: unat_div unat_of_nat)
  have "l_out * ((n + l_out - 1) div l_out) + (n + l_out - 1) mod l_out = n + l_out - 1" by simp
  moreover have "(n + l_out - 1) mod l_out < l_out" using l by simp
  ultimately show "n \<le> l_out * ((n + l_out - 1) div l_out)" by linarith
  have "(n + l_out - 1) div l_out \<le> n + l_out - 1" by simp
  then show "(n + l_out - 1) div l_out < 2 ^ 32" using assms by linarith
qed

lemma input_words:
  assumes "n = length inps" and "n \<le> l_out * L"
  shows "take n (concat (map (batch_words e (map (batch_of inps) [0..<L])) [0..<L])) =
    map2 (\<lambda>p w. enc_word e (of_nat (fst p)) (of_nat (snd p)) w)
      (map (\<lambda>i. (i div l_out + 1, i mod l_out)) [0..<n]) inps"
    and "n \<le> length (concat (map (batch_words e (map (batch_of inps) [0..<L])) [0..<L]))"
proof -
  let ?B = "map (batch_words e (map (batch_of inps) [0..<L])) [0..<L]"
  have l: "0 < l_out" by (simp add: config_defs)
  have len: "length x = l_out" if "x \<in> set ?B" for x using that by (auto simp: batch_words_def)
  have "length (concat xs) = l_out * length xs" if "\<And>x. x \<in> set xs \<Longrightarrow> length x = l_out"
    for xs :: "EWORD list list"
    using that by (induction xs) auto
  from this [of ?B] have lc: "length (concat ?B) = l_out * L" using len by simp
  then show "n \<le> length (concat ?B)" using assms(2) by simp
  show "take n (concat ?B) = map2 (\<lambda>p w. enc_word e (of_nat (fst p)) (of_nat (snd p)) w)
      (map (\<lambda>i. (i div l_out + 1, i mod l_out)) [0..<n]) inps"
  proof (rule nth_equalityI)
    fix k assume "k < length (take n (concat ?B))"
    then have k: "k < n" "k < l_out * length ?B" using assms(2) lc by simp_all
    have "k div l_out < L" using k(2) l by (simp add: div_less_iff_less_mult mult.commute)
    moreover have "k mod l_out < l_out" using l by simp
    moreover have "k div l_out * l_out + k mod l_out = k" by simp
    ultimately show "take n (concat ?B) ! k = map2 (\<lambda>p w. enc_word e (of_nat (fst p)) (of_nat (snd p)) w)
        (map (\<lambda>i. (i div l_out + 1, i mod l_out)) [0..<n]) inps ! k"
      using nth_concat_blocks [OF len k(2)] k(1) assms(1)
      by (simp add: batch_words_def batch_of_def)
  qed (use assms lc in simp)
qed

text \<open>The bytes of an encoded program, field by field.\<close>

lemma serialize_parts:
  assumes "serialize ct key ir = Some bc" and mc: "2 \<le> ir_memory_count ir" "ir_memory_count ir \<le> 2 ^ 24"
  obtains lb_m nb ins ob outs lc ls where "byte_length (ir_memory_count ir) = Inr lb_m"
    "lb_m \<in> {1..4}" "lb_m \<le> 3"
    "uint_tobytes (length (ir_prog_inputs ir)) lb_m = Some nb"
    "concat_opt (map (create_memdict (ir_memory_count ir) lb_m) (ir_prog_inputs ir)) = Some ins"
    "uint_tobytes (length (ir_prog_outputs ir)) lb_m = Some ob"
    "concat_opt (map (create_memdict (ir_memory_count ir) lb_m) (ir_prog_outputs ir)) = Some outs"
    "uint_tobytes (length (ir_instrs ir)) 4 = Some lc"
    "serialize_llmis key lb_m 1 1 (ir_memory_count ir) (ir_prog_outputs ir)
       (1 + (length (ir_prog_inputs ir) div l_out + 1)) (input_ids (ir_prog_inputs ir)) (ir_instrs ir) = Some ls"
    "\<And>rest. interpret_meta (bc @ rest) =
       Inr (of_nat (ir_memory_count ir), ct @ nb @ ins @ ob @ outs @ lc @ ls @ rest)"
proof -
  let ?mc = "ir_memory_count ir"
  obtain lb_m where lb: "py_byte_length ?mc = Some lb_m" using mc(1) by (auto simp: py_byte_length_def)
  note agree = byte_lengths_agree [OF _ mc(2) lb]
  have "0 < lb_m" using py_byte_length_exact [OF _ lb] mc(1) by (cases lb_m) auto
  with agree mc(1) have lbm: "lb_m \<in> {1..4}" "lb_m \<le> 3" by simp_all
  have mcb: "uint_tobytes ?mc 4 = Some (be_bytes 4 (of_nat ?mc :: u32))"
    using mc(2) by (intro uint_tobytes_4) simp
  obtain nb ins ob outs lc ls where p: "uint_tobytes (length (ir_prog_inputs ir)) lb_m = Some nb"
      "concat_opt (map (create_memdict ?mc lb_m) (ir_prog_inputs ir)) = Some ins"
      "uint_tobytes (length (ir_prog_outputs ir)) lb_m = Some ob"
      "concat_opt (map (create_memdict ?mc lb_m) (ir_prog_outputs ir)) = Some outs"
      "uint_tobytes (length (ir_instrs ir)) 4 = Some lc"
      "serialize_llmis key lb_m 1 1 ?mc (ir_prog_outputs ir)
         (1 + (length (ir_prog_inputs ir) div l_out + 1)) (input_ids (ir_prog_inputs ir)) (ir_instrs ir) = Some ls"
      and bc: "bc = (be_bytes 4 (of_nat VERSION :: u32) @ be_bytes 4 (of_nat WORD_SIZE :: u32) @
         be_bytes 4 (of_nat LLMI_MAX_INPUT_COUNT :: u32) @ be_bytes 4 (of_nat LLMI_MAX_OUTPUT_COUNT :: u32) @
         be_bytes 4 (of_nat REGISTER_COUNT :: u32) @ be_bytes 4 (of_nat LLS_MAX_LENGTH :: u32)) @
         be_bytes 4 (of_nat ?mc :: u32) @ ct @ nb @ ins @ ob @ outs @ lc @ ls"
    using assms(1) unfolding serialize_def Let_def lb small_byte_lengths serialize_metadata_eq mcb
    by (auto simp: bind_eq_Some_conv concat_opt_Cons_Some simp del: concat_opt.simps(2))
  have "interpret_meta (bc @ rest) = Inr (of_nat ?mc, ct @ nb @ ins @ ob @ outs @ lc @ ls @ rest)" for rest
    unfolding bc append_assoc interpret_meta_eq by simp
  with p lbm agree mc(1) that show thesis by simp
qed

lemma interpret_prog_parts:
  assumes p: "uint_tobytes (length (ir_prog_inputs ir)) lb_m = Some nb"
    "concat_opt (map (create_memdict mc lb_m) (ir_prog_inputs ir)) = Some ins"
    "uint_tobytes (length (ir_prog_outputs ir)) lb_m = Some ob"
    "concat_opt (map (create_memdict mc lb_m) (ir_prog_outputs ir)) = Some outs"
    "uint_tobytes (length (ir_instrs ir)) 4 = Some lc"
    "serialize_llmis key lb_m lb_o lb_r mc (ir_prog_outputs ir) instr d (ir_instrs ir) = Some ls"
    and lb: "lb_m \<in> {1..4}" "lb_o \<in> {1..4}"
  obtains ll where "parsed_ok key lb_m lb_o lb_r mc (ir_prog_outputs ir) instr d (ir_instrs ir) ll"
    "interpret_prog lb_m lb_o (nb @ ins @ ob @ outs @ lc @ ls @ rest) =
       Inr (\<lparr>prog_inp_count = of_nat (length (ir_prog_inputs ir)),
             prog_out_count = of_nat (length (ir_prog_outputs ir)),
             prog_mem_inps = map of_nat (ir_prog_inputs ir), prog_mem_outs = map of_nat (ir_prog_outputs ir),
             llmi_count = of_nat (length (ir_instrs ir)), llmis = ll\<rparr>, rest)"
proof -
  obtain ll where ll: "repeatM (length (ir_instrs ir)) (interpret_llmi lb_m lb_o) (ls @ rest) = Inr (ll, rest)"
      "parsed_ok key lb_m lb_o lb_r mc (ir_prog_outputs ir) instr d (ir_instrs ir) ll"
    using llmis_parse [OF p(6) lb, of rest] by auto
  have four: "(4 :: nat) \<in> {1..4}" by simp
  note loads = load_bytes_uint [OF p(1) lb(1)] load_bytes_uint [OF p(3) lb(1)] load_bytes_uint [OF p(5) four]
    cells_parse [OF p(2) lb(1)] cells_parse [OF p(4) lb(1)]
    unat_of_uint [OF p(1) lb(1)] unat_of_uint [OF p(3) lb(1)] unat_of_uint [OF p(5) four]
  show thesis
    by (rule that [OF ll(2)])
       (simp add: interpret_prog_def loads ll(1))
qed

text \<open>Steps 1 to 3 of the interpreter end with a memory that represents the inputs.\<close>

lemma input_batches:
  assumes nb: "uint_tobytes n lb_m = Some nb" and lb: "lb_m \<in> {1..4}" and n: "n + l_out < 2 ^ 32"
    and inps: "length inps = n"
    and ct: "length ct = 64" and seal: "seal_open ct pubkey prvkey = Some key" and key: "length key = 16"
  obtains X H e tok C where
    "make_batches (unat ((of_nat n + of_nat l_out - 1 :: u32) div of_nat l_out)) n (map Some inps) = Inr X"
    "make_hashes X = Inr H"
    "SEstart seal_open (ct @ nb @ rest) lb_m (last H) = Inr (sealed_key e key, e, tok)"
    "input_loop e X H tok = Inr (token e 0 (replicate HASH_INBYTES 0), C)" "length e = 32" "n \<le> length C"
    "take n C = map2 (\<lambda>p w. enc_word e (of_nat (fst p)) (of_nat (snd p)) w)
       (map (\<lambda>i. (i div l_out + 1, i mod l_out)) [0..<n]) inps"
proof -
  define L where "L = (n + l_out - 1) div l_out"
  define X where "X = map (batch_of inps) [0..<L]"
  define h0 where "h0 = replicate HASH_INBYTES (0 :: u8)"
  note cnt = batch_count [OF n, folded L_def]
  have X: "\<And>x. x \<in> set X \<Longrightarrow> length x = l_out" "length X = L" by (auto simp: X_def batch_of_def)
  define h where "h = last (hashes h0 X)"
  define e where "e = hashp 0 (h @ ct @ nb)"
  have h: "length h = HASH_INBYTES"
    unfolding h_def last_hashes by (rule length_nth_hashes) (simp_all add: h0_def)
  have e: "length e = 32" "length e = HASH_INBYTES" by (simp_all add: e_def se_sizes)
  have start: "SEstart seal_open (ct @ nb @ rest) lb_m h = Inr (sealed_key e key, e, token e (of_nat L) h)"
    unfolding L_def by (rule SEstart_eq [where seal_open = seal_open, OF h lb ct nb n seal key e_def])
  define C where "C = concat (map (batch_words e X) [0..<L])"
  have "input_loop e X (hashes h0 X) (token e (of_nat L) h) = Inr (token e 0 h0, C)"
    using input_loop_eq [of e X h0, OF e(2) X(1) _ h0_def] cnt(3) by (simp add: X(2) C_def h_def)
  moreover have "take n C = map2 (\<lambda>p w. enc_word e (of_nat (fst p)) (of_nat (snd p)) w)
      (map (\<lambda>i. (i div l_out + 1, i mod l_out)) [0..<n]) inps" "n \<le> length C"
    using input_words [of n inps L e] cnt(2) inps by (simp_all add: C_def X_def)
  moreover have "make_batches (unat ((of_nat n + of_nat l_out - 1 :: u32) div of_nat l_out)) n (map Some inps) = Inr X"
    using make_batches_eq [of L inps] inps by (simp add: cnt(1) X_def)
  moreover have "make_hashes X = Inr (hashes h0 X)" unfolding h0_def by (rule make_hashes_eq [OF X(1)])
  ultimately show thesis
    using that [of X "hashes h0 X" e "token e (of_nat L) h" C] start e(1) by (simp add: h_def h0_def)
qed

lemma input_phase:
  assumes nb: "uint_tobytes n lb_m = Some nb" and lb: "lb_m \<in> {1..4}" and n: "n + l_out < 2 ^ 32"
    and cells: "length cells = n" "set cells \<subseteq> {..<mc}" "mc \<le> 2 ^ 24" and inps: "length inps = n"
    and ct: "length ct = 64" and seal: "seal_open ct pubkey prvkey = Some key" and key: "length key = 16"
  obtains X H e tok t C M where
    "make_batches (unat ((of_nat n + of_nat l_out - 1 :: u32) div of_nat l_out)) n (map Some inps) = Inr X"
    "make_hashes X = Inr H"
    "SEstart seal_open (ct @ nb @ rest) lb_m (last H) = Inr (sealed_key e key, e, tok)"
    "input_loop e X H tok = Inr (t, C)"
    "store_words n (map of_nat cells) C (replicate mc []) = Inr M"
    "length e = 32" "length M = mc" "sim e {} (input_ids cells) (store_plain cells inps Map.empty) M"
proof -
  obtain X H e tok C where i:
    "make_batches (unat ((of_nat n + of_nat l_out - 1 :: u32) div of_nat l_out)) n (map Some inps) = Inr X"
    "make_hashes X = Inr H" "SEstart seal_open (ct @ nb @ rest) lb_m (last H) = Inr (sealed_key e key, e, tok)"
    "input_loop e X H tok = Inr (token e 0 (replicate HASH_INBYTES 0), C)" "length e = 32" "n \<le> length C"
    "take n C = map2 (\<lambda>p w. enc_word e (of_nat (fst p)) (of_nat (snd p)) w)
       (map (\<lambda>i. (i div l_out + 1, i mod l_out)) [0..<n]) inps"
    by (rule input_batches [where seal_open = seal_open, OF nb lb n inps ct seal key])
  define M where "M = stores cells (take n C) (replicate mc [])"
  have store: "store_words n (map of_nat cells) C (replicate mc []) = Inr M"
    using store_words_eq [of cells C "replicate mc []"] i(6) cells by (simp add: M_def)
  have "sim e {} Map.empty Map.empty (replicate mc [])" by (simp add: sim_def)
  from sim_encrypted [OF this, of "map (\<lambda>i. (i div l_out + 1, i mod l_out)) [0..<n]" cells inps]
  have "sim e {} (input_ids cells) (store_plain cells inps Map.empty) M"
    using cells inps by (simp add: M_def i(7) input_ids_upds store_plain_def)
  then show thesis using that i(1-5) store by (simp add: M_def)
qed

lemma interpret_serialized_run:
  assumes ser: "serialize ct key ir = Some bc" and mc: "2 \<le> ir_memory_count ir" "ir_memory_count ir \<le> 2 ^ 24"
    and ct: "length ct = 64" and seal: "seal_open ct pubkey prvkey = Some key" and key: "length key = 16"
    and ok: "reveal_ok (ir_prog_outputs ir) {} (ir_instrs ir)"
    and inps: "length inps = length (ir_prog_inputs ir)" and run: "run_plain ir inps = Inr outs"
  shows "interpret_bytecode seal_open bc (map Some inps) (of_nat (length inps)) (of_nat (length outs)) = Inr outs"
proof -
  let ?mc = "ir_memory_count ir" and ?cells = "ir_prog_inputs ir" and ?po = "ir_prog_outputs ir"
  let ?n = "length ?cells"
  obtain lb_m nb ins ob os lc ls where p: "byte_length ?mc = Inr lb_m" "lb_m \<in> {1..4}" "lb_m \<le> 3"
      "uint_tobytes ?n lb_m = Some nb" "concat_opt (map (create_memdict ?mc lb_m) ?cells) = Some ins"
      "uint_tobytes (length ?po) lb_m = Some ob" "concat_opt (map (create_memdict ?mc lb_m) ?po) = Some os"
      "uint_tobytes (length (ir_instrs ir)) 4 = Some lc"
      "serialize_llmis key lb_m 1 1 ?mc ?po (1 + (?n div l_out + 1)) (input_ids ?cells) (ir_instrs ir) = Some ls"
      "\<And>rest. interpret_meta (bc @ rest) = Inr (of_nat ?mc, ct @ nb @ ins @ ob @ os @ lc @ ls @ rest)"
    by (rule serialize_parts [OF ser mc]) blast
  have one: "(1 :: nat) \<in> {1..4}" by simp
  obtain ll where ll: "parsed_ok key lb_m 1 1 ?mc ?po (1 + (?n div l_out + 1)) (input_ids ?cells) (ir_instrs ir) ll"
      "interpret_prog lb_m 1 (nb @ ins @ ob @ os @ lc @ ls) =
       Inr (\<lparr>prog_inp_count = of_nat ?n, prog_out_count = of_nat (length ?po), prog_mem_inps = map of_nat ?cells,
             prog_mem_outs = map of_nat ?po, llmi_count = of_nat (length (ir_instrs ir)), llmis = ll\<rparr>, [])"
    by (rule interpret_prog_parts [OF p(4-9) p(2) one, where rest = "[]"]) simp
  have "?n < 256 ^ lb_m" using p(4) by (auto simp: uint_tobytes_def split: if_splits)
  also have "\<dots> \<le> (256 :: nat) ^ 3" using p(3) by (intro power_increasing) auto
  finally have n: "?n + l_out < 2 ^ 32" "?n < 2 ^ 32" by (simp_all add: config_defs)
  have cells: "set ?cells \<subseteq> {..<?mc}" using cells_less [OF p(5)] by auto
  obtain X H e tok t C M where i: "make_batches (unat ((of_nat ?n + of_nat l_out - 1 :: u32) div of_nat l_out))
        ?n (map Some inps) = Inr X" "make_hashes X = Inr H"
      "SEstart seal_open (ct @ nb @ ins @ ob @ os @ lc @ ls) lb_m (last H) = Inr (sealed_key e key, e, tok)"
      "input_loop e X H tok = Inr (t, C)" "store_words ?n (map of_nat ?cells) C (replicate ?mc []) = Inr M"
      "length e = 32" "length M = ?mc" "sim e {} (input_ids ?cells) (store_plain ?cells inps Map.empty) M"
    by (rule input_phase [where seal_open = seal_open, OF p(4,2) n(1) refl cells mc(2) inps ct seal key])
  obtain m where m: "foldM eval_plain (ir_instrs ir) (store_plain ?cells inps Map.empty) = Inr m"
      "mapM (\<lambda>a. initialised (m a)) ?po = Inr outs"
    using run by (auto simp: run_plain_def res_simps)
  have M: "length M \<le> 2 ^ 32" using i(7) mc(2) by simp
  obtain M' cs d where M': "foldM (eval_llmi e (sealed_key e key) lb_m 1 4 1) ll M = Inr M'"
      "length M' = length M" "sim e cs d m M'" "set ?po \<subseteq> cs"
    using eval_llmis_sim [OF i(6) key p(2) one one ll(1) [folded i(7)] M i(8) ok m(1)] by blast
  have out: "mapM (load_output M') (map of_nat ?po) = Inr outs"
    by (rule load_outputs [OF M'(3,4) _ m(2)]) (use M M' in simp)
  have lens: "length outs = length ?po" "unat (of_nat ?mc :: u32) = ?mc" "unat (of_nat ?n :: u32) = ?n"
    using mapM_Inr_length [OF m(2)] mc(2) n(2) by (simp_all add: unat_of_nat)
  show ?thesis
    unfolding interpret_bytecode_def
    using p(10) [of "[]"] ct
    by (simp add: p(1) lens small_byte_lengths Let_def skip_bytes_def CT_SEPUB_INBYTES_def ll(2) inps i(1-5)
        WORD_SIZE_def M'(1) out del: One_nat_def)
qed

section \<open>Properties\<close>

text \<open>
  C1: interpreting the encoding of a program computes what the program means. For every
  program with 2 to 16777216 memory cells that the serializer accepts, whose revealed cells
  are never read by a later multi-instruction and whose outputs are revealed, and for every
  input on which the program's meaning on plain words is defined, the interpreter, given a
  header that opens to the shared key, returns exactly the outputs of the plain meaning:
  the encrypted words, identifiers, input tokens and hashes in between are all accepted.
\<close>

theorem interpret_serialized:
  assumes "serialize ct key ir = Some bc" and "2 \<le> ir_memory_count ir" "ir_memory_count ir \<le> 2 ^ 24"
    and "length ct = 64" and "seal_open ct pubkey prvkey = Some key" and "length key = 16"
    and "reveal_ok (ir_prog_outputs ir) {} (ir_instrs ir)"
    and "length inps = length (ir_prog_inputs ir)" and "run_plain ir inps = Inr outs"
  shows "interpret_bytecode seal_open bc (map Some inps) (of_nat (length inps)) (of_nat (length outs)) = Inr outs"
  using assms by (rule interpret_serialized_run)

text \<open>A program of one multi-instruction, that adds 5 to its input.\<close>

definition add_five :: LLIRProgram where
  "add_five =
     \<lparr>ir_instrs = [\<lparr>ir_seq = [LLI O_ADD (REGISTER_COUNT - l_out) (Src2 (RegOperand 0) (ImmOperand 5))],
                   ir_inputs = [0], ir_outputs = [1]\<rparr>],
      ir_prog_inputs = [0], ir_prog_outputs = [1], ir_memory_count = 2\<rparr>"

lemma serialize_add_five: "length key = 16 \<Longrightarrow> \<exists>bc. serialize ct key add_five = Some bc"
  by (simp add: serialize_def add_five_def Let_def small_byte_lengths py_byte_length_def ceil_log2_def ilog2_numeral
      ilog2.simps [of "Suc 0"]
      serialize_metadata_eq serialize_llmi_def input_ids_def create_memdict_def uint_tobytes_def config_defs
      id_bytes_def length_aenc byte_simps)

lemma run_add_five: "run_plain add_five [7] = Inr [12]"
  by (simp add: run_plain_def add_five_def store_plain_def eval_plain_def config_defs initialised_def res_simps)

theorem interpret_serialized_witness:
  "\<exists>bc. serialize (replicate 64 0) (replicate 16 1) add_five = Some bc \<and>
     interpret_bytecode (\<lambda>_ _ _. Some (replicate 16 1)) bc [Some 7] 1 1 = Inr [12]"
proof -
  obtain bc where bc: "serialize (replicate 64 0) (replicate 16 1) add_five = Some bc"
    using serialize_add_five by fastforce
  have "reveal_ok (ir_prog_outputs add_five) {} (ir_instrs add_five)"
    by (simp add: add_five_def clear_cells_def reveal_def)
  from interpret_serialized [OF bc _ _ _ _ _ this _ run_add_five, of "\<lambda>_ _ _. Some (replicate 16 1)"]
  show ?thesis using bc by (simp add: add_five_def)
qed

end
