(* ===== verification/Command_Line.thy ===== *)
theory Command_Line
  imports End_to_End
begin

text \<open>
  The command \<^verbatim>\<open>runtime/main.c\<close>: reading of the options, of the list of inputs and of the
  bytecode file, the call of the interpreter, and the printed outputs. Strings are lists of
  characters without the closing NUL. What \<^verbatim>\<open>getopt_long\<close> returns is an argument, the list of
  options in their order and the list of the other arguments; so is the file system, a map from
  names to contents. A call of \<^verbatim>\<open>exit\<close> is an error value, and memory is taken to be available.
\<close>

section \<open>Integers\<close>

definition digit :: "char \<Rightarrow> nat" where
  "digit c = of_char c - 48"

fun digits_only :: "string \<Rightarrow> bool" where
  "digits_only [] = True"
| "digits_only (c # s) = (if (of_char c :: nat) < 48 \<or> (of_char c :: nat) > 57 then False else digits_only s)"

definition is_int :: "string \<Rightarrow> bool" where
  "is_int s = (if s = [] then False else digits_only s)"

definition value_in :: "nat \<Rightarrow> string \<Rightarrow> nat" where
  "value_in base s = fold (\<lambda>c v. base * v + digit c) s 0"

text \<open>
  \<^verbatim>\<open>strtol\<close> with base 0 on a string of digits: a leading \<^verbatim>\<open>0\<close> makes the number octal, up to the
  first digit that is none in base 8; a value out of range becomes \<^verbatim>\<open>LONG_MAX\<close>.
\<close>

definition strtol0 :: "string \<Rightarrow> nat" where
  "strtol0 s = min (2 ^ 63 - 1)
     (if s \<noteq> [] \<and> hd s = CHR ''0'' then value_in 8 (takeWhile (\<lambda>c. digit c < 8) s) else value_in 10 s)"

text \<open>The conversion of the \<^verbatim>\<open>long\<close> to \<^verbatim>\<open>int\<close> keeps the lower 32 bits.\<close>

definition to_int :: "string \<Rightarrow> 32 word res" where
  "to_int provided = (if \<not> is_int provided then Inl NotAnInteger else Inr (of_nat (strtol0 provided)))"

section \<open>The list of inputs\<close>

definition count_char :: "string \<Rightarrow> char \<Rightarrow> nat" where
  "count_char str c = fold (\<lambda>x count. count + (if x = c then 1 else 0)) str 0"

text \<open>
  \<^verbatim>\<open>strtok\<close> with the delimiter \<^verbatim>\<open>,\<close>: it skips delimiters, takes what comes before the next one,
  and keeps what is behind that for the next call.
\<close>

definition comma :: char where "comma = CHR '',''"

definition strtok :: "string \<Rightarrow> (string \<times> string) option" where
  "strtok s =
     (let r = dropWhile (\<lambda>c. c = comma) s
      in if r = [] then None
         else Some (takeWhile (\<lambda>c. c \<noteq> comma) r, drop 1 (dropWhile (\<lambda>c. c \<noteq> comma) r)))"

lemma strtok_shorter: "strtok s = Some (t, r) \<Longrightarrow> length r < length s"
proof -
  let ?d = "dropWhile (\<lambda>c. c = comma) s"
  assume "strtok s = Some (t, r)"
  then have r: "?d \<noteq> []" "r = drop 1 (dropWhile (\<lambda>c. c \<noteq> comma) ?d)"
    by (auto simp: strtok_def Let_def split: if_splits)
  then have "length r \<le> length ?d - 1" using length_dropWhile_le [of "\<lambda>c. c \<noteq> comma" ?d] by simp
  moreover have "0 < length ?d" using r(1) by simp
  ultimately show ?thesis using length_dropWhile_le [of "\<lambda>c. c = comma" s] by linarith
qed

function parse_loop :: "string \<Rightarrow> nat \<Rightarrow> uSE option list \<Rightarrow> uSE option list res" where
  "parse_loop rest count inputs =
     (case strtok rest of
        None \<Rightarrow> Inr inputs
      | Some (tok, rest') \<Rightarrow>
          if is_int tok
          then bindr (to_int tok) (\<lambda>v. bindr (write_at inputs count (Some v)) (\<lambda>inputs.
               parse_loop rest' (count + 1) inputs))
          else parse_loop rest' count inputs)"
  by pat_completeness auto
termination
  by (relation "measure (\<lambda>(rest, _). length rest)") (auto dest: strtok_shorter)

declare parse_loop.simps [simp del]

definition parse_inputs :: "string \<Rightarrow> (nat \<times> uSE option list) res" where
  "parse_inputs str =
     (let input_count = count_char str comma + 1
      in bindr (parse_loop str 0 (replicate input_count None)) (\<lambda>inputs. Inr (input_count, inputs)))"

section \<open>The main function\<close>

datatype opt = Opt_help | Opt_inputs string | Opt_out_count string | Opt_other

record cli =
  cli_inputs :: "(nat \<times> uSE option list) option"
  cli_output_count :: "32 word"

definition usage :: "'a res" where
  "usage = Inl UsageError"

fun option_step :: "opt \<Rightarrow> cli \<Rightarrow> cli res" where
  "option_step Opt_help s = usage"
| "option_step (Opt_inputs optarg) s = bindr (parse_inputs optarg) (\<lambda>i. Inr (s\<lparr>cli_inputs := Some i\<rparr>))"
| "option_step (Opt_out_count optarg) s = bindr (to_int optarg) (\<lambda>n. Inr (s\<lparr>cli_output_count := n\<rparr>))"
| "option_step Opt_other s = usage"

text \<open>The loop over the remaining arguments: a second one is refused.\<close>

fun find_filename :: "string option \<Rightarrow> string list \<Rightarrow> string option res" where
  "find_filename filename [] = Inr filename"
| "find_filename filename (a # args) = (if filename \<noteq> None then usage else find_filename (Some a) args)"

text \<open>\<^verbatim>\<open>%u\<close> prints a number in decimal.\<close>

function decimal :: "nat \<Rightarrow> string" where
  "decimal n = (if n < 10 then [char_of (48 + n)] else decimal (n div 10) @ [char_of (48 + n mod 10)])"
  by pat_completeness auto
termination
  by (relation "measure id") auto

declare decimal.simps [simp del]

definition print_outputs :: "32 word \<Rightarrow> uSE list \<Rightarrow> string res" where
  "print_outputs output_count outputs =
     bindr (mapM (read_at outputs) [0..<nat (sint output_count)]) (\<lambda>vs.
       Inr (concat (map (\<lambda>v. decimal (unat v) @ [CHR 0x0A]) vs)))"

definition main ::
    "(u8 list \<Rightarrow> u8 list \<Rightarrow> u8 list \<Rightarrow> u8 list option) \<Rightarrow> (string \<rightharpoonup> u8 list) \<Rightarrow> opt list \<Rightarrow> string list \<Rightarrow> string res" where
  "main seal_open files options args =
     bindr (foldM option_step options \<lparr>cli_inputs = None, cli_output_count = 1\<rparr>) (\<lambda>s.
       case cli_inputs s of
         None \<Rightarrow> usage
       | Some (input_count, inputs) \<Rightarrow>
           bindr (find_filename None args) (\<lambda>filename.
             case filename of
               None \<Rightarrow> usage
             | Some name \<Rightarrow>
                 (case files name of
                    None \<Rightarrow> Inl CannotOpenFile
                  | Some code \<Rightarrow>
                      bindr (interpret_bytecode seal_open code inputs (of_nat input_count) (cli_output_count s))
                        (print_outputs (cli_output_count s)))))"

section \<open>Fields and tokens\<close>

text \<open>The pieces between the commas, the empty ones too.\<close>

fun comma_fields :: "string \<Rightarrow> string list" where
  "comma_fields [] = [[]]"
| "comma_fields (c # s) = (if c = comma then [] # comma_fields s else (c # hd (comma_fields s)) # tl (comma_fields s))"

lemma comma_fields_not_Nil [simp]: "comma_fields s \<noteq> []"
  by (cases s) auto

lemma count_char_Cons [simp]: "count_char (x # s) c = (if x = c then 1 else 0) + count_char s c" "count_char [] c = 0"
proof -
  have "fold (\<lambda>x count. count + (if x = c then 1 else 0)) s n = n + count_char s c" for n s
  proof (induction s arbitrary: n)
    case (Cons x s)
    let ?b = "if x = c then 1 else 0 :: nat"
    have "count_char (x # s) c = ?b + count_char s c" using Cons.IH [of ?b] by (simp add: count_char_def)
    then show ?case using Cons.IH [of "n + ?b"] by simp
  qed (simp add: count_char_def)
  from this [of s "if x = c then 1 else 0"]
  show "count_char (x # s) c = (if x = c then 1 else 0) + count_char s c" by (simp add: count_char_def)
  show "count_char [] c = 0" by (simp add: count_char_def)
qed

lemma length_comma_fields: "length (comma_fields s) = count_char s comma + 1"
  by (induction s) (auto simp: Suc_leI length_greater_0_conv)

lemma comma_fields_append:
  "comma \<notin> set t \<Longrightarrow> comma_fields (t @ comma # s) = t # comma_fields s" "comma \<notin> set t \<Longrightarrow> comma_fields t = [t]"
  by (induction t) auto

definition tokens :: "string \<Rightarrow> string list" where
  "tokens s = filter (\<lambda>f. f \<noteq> []) (comma_fields s)"

lemma tokens_dropWhile: "tokens (dropWhile (\<lambda>c. c = comma) s) = tokens s"
  by (induction s) (auto simp: tokens_def)

lemma tokens_word:
  assumes "r \<noteq> []" "hd r \<noteq> comma"
  shows "tokens r = takeWhile (\<lambda>c. c \<noteq> comma) r # tokens (drop 1 (dropWhile (\<lambda>c. c \<noteq> comma) r))"
proof -
  define t u where "t = takeWhile (\<lambda>c. c \<noteq> comma) r" and "u = dropWhile (\<lambda>c. c \<noteq> comma) r"
  have r: "r = t @ u" by (simp add: t_def u_def)
  have t: "comma \<notin> set t" "t \<noteq> []" using assms by (auto simp: t_def takeWhile_eq_Nil_iff dest: set_takeWhileD)
  have "tokens (t @ u) = t # tokens (drop 1 u)"
  proof (cases u)
    case Nil
    then show ?thesis using comma_fields_append(2) [OF t(1)] t(2) by (simp add: tokens_def)
  next
    case (Cons c v)
    then have "c = comma" using hd_dropWhile [of "\<lambda>c. c \<noteq> comma" r] by (simp add: u_def [symmetric])
    then show ?thesis using comma_fields_append(1) [OF t(1), of v] t(2) Cons by (simp add: tokens_def)
  qed
  then have "tokens r = t # tokens (drop 1 u)" by (simp only: r [symmetric])
  then show ?thesis by (simp only: t_def u_def)
qed

lemma tokens_strtok: "tokens s = (case strtok s of None \<Rightarrow> [] | Some (t, r) \<Rightarrow> t # tokens r)"
proof (cases "dropWhile (\<lambda>c. c = comma) s")
  case Nil
  then have "tokens s = []" using tokens_dropWhile [of s] by (simp only:) (simp add: tokens_def)
  then show ?thesis using Nil by (simp add: strtok_def)
next
  case (Cons c r)
  then have "c \<noteq> comma" using hd_dropWhile [of "\<lambda>c. c = comma" s] by simp
  then have "tokens (c # r) = takeWhile (\<lambda>c. c \<noteq> comma) (c # r) # tokens (drop 1 (dropWhile (\<lambda>c. c \<noteq> comma) (c # r)))"
    by (intro tokens_word) simp_all
  then show ?thesis using Cons tokens_dropWhile [of s] by (simp add: strtok_def)
qed

lemma is_int_tokens: "filter is_int (tokens s) = filter is_int (comma_fields s)"
  unfolding tokens_def filter_filter by (rule filter_cong) (auto simp: is_int_def)

definition values_of :: "string list \<Rightarrow> uSE list" where
  "values_of fs = map (\<lambda>t. of_nat (strtol0 t)) (filter is_int fs)"

lemma parse_loop_eq:
  "count + length (values_of (tokens rest)) \<le> length inputs \<Longrightarrow>
   parse_loop rest count inputs =
     Inr (take count inputs @ map Some (values_of (tokens rest)) @ drop (count + length (values_of (tokens rest))) inputs)"
proof (induction rest count inputs rule: parse_loop.induct)
  case (1 rest count inputs)
  show ?case
  proof (cases "strtok rest")
    case None
    then show ?thesis using tokens_strtok [of rest] by (simp add: parse_loop.simps [of rest] values_of_def)
  next
    case (Some p)
    obtain t r where p: "p = (t, r)" by force
    have tok: "tokens rest = t # tokens r" using tokens_strtok [of rest] Some p by simp
    show ?thesis
    proof (cases "is_int t")
      case False
      then have v: "values_of (tokens rest) = values_of (tokens r)" using tok by (simp add: values_of_def)
      have "parse_loop rest count inputs = parse_loop r count inputs"
        using False Some p by (subst parse_loop.simps) simp
      then show ?thesis using "1.IH"(2) [OF Some p [symmetric] False] "1.prems" unfolding v by simp
    next
      case True
      let ?v = "of_nat (strtol0 t) :: 32 word" and ?vs = "values_of (tokens r)"
      have len: "count < length inputs" "count + 1 + length ?vs \<le> length inputs"
        using "1.prems" True tok by (simp_all add: values_of_def)
      let ?i = "inputs[count := Some ?v]"
      have "parse_loop r (count + 1) ?i = Inr (take (count + 1) ?i @ map Some ?vs @ drop (count + 1 + length ?vs) ?i)"
        using len True by (intro "1.IH"(1) [OF Some p [symmetric] True]) (simp_all add: to_int_def write_at_def)
      also have "take (count + 1) ?i = take count inputs @ [Some ?v]" using len(1) by (simp add: take_Suc_conv_app_nth)
      also have "drop (count + 1 + length ?vs) ?i = drop (count + 1 + length ?vs) inputs" by simp
      finally have "parse_loop rest count inputs =
          Inr ((take count inputs @ [Some ?v]) @ map Some ?vs @ drop (count + 1 + length ?vs) inputs)"
        using True len Some p by (subst parse_loop.simps) (simp add: to_int_def write_at_def)
      moreover have "values_of (tokens rest) = ?v # ?vs" using True tok by (simp add: values_of_def)
      ultimately show ?thesis by simp
    qed
  qed
qed

section \<open>Decimal numbers\<close>

lemma of_char_decimal: "d < 10 \<Longrightarrow> (of_char (char_of (48 + d) :: char) :: nat) = 48 + d"
  by (simp add: of_char_of)

lemma digits_only_append [simp]: "digits_only (s @ t) \<longleftrightarrow> digits_only s \<and> digits_only t"
  by (induction s) auto

lemma decimal_not_Nil [simp]: "decimal n \<noteq> []"
  by (subst decimal.simps) simp

lemma is_int_decimal [simp]: "is_int (decimal n)"
proof -
  have "digits_only (decimal n)"
  proof (induction n rule: decimal.induct)
    case (1 n)
    then show ?case
      using of_char_decimal [of n] of_char_decimal [of "n mod 10"] by (cases "n < 10") (simp_all add: decimal.simps [of n])
  qed
  then show ?thesis by (simp add: is_int_def)
qed

lemma value_in_append: "value_in b (s @ [c]) = b * value_in b s + digit c"
  by (simp add: value_in_def)

lemma value_decimal: "value_in 10 (decimal n) = n"
proof (induction n rule: decimal.induct)
  case (1 n)
  show ?case
  proof (cases "n < 10")
    case True
    then show ?thesis by (simp add: decimal.simps [of n] value_in_def digit_def of_char_decimal)
  next
    case False
    then show ?thesis
      using "1.IH" of_char_decimal [of "n mod 10"] by (simp add: decimal.simps [of n] value_in_append digit_def)
  qed
qed

lemma hd_decimal: "0 < n \<Longrightarrow> hd (decimal n) \<noteq> CHR ''0''"
proof (induction n rule: decimal.induct)
  case (1 n)
  show ?case
  proof (cases "n < 10")
    case True
    have "(of_char (hd (decimal n)) :: nat) = 48 + n" using True of_char_decimal [OF True] by (simp add: decimal.simps [of n])
    moreover have "(of_char (CHR ''0'') :: nat) = 48" by simp
    ultimately show ?thesis using "1.prems" by (metis add_cancel_left_right less_irrefl)
  next
    case False
    then have "hd (decimal (n div 10)) \<noteq> CHR ''0''" by (intro "1.IH") simp_all
    then show ?thesis using False by (simp add: decimal.simps [of n])
  qed
qed

lemma strtol0_decimal: "n < 2 ^ 63 \<Longrightarrow> strtol0 (decimal n) = n"
proof (cases "n = 0")
  case True
  then show ?thesis by (simp add: decimal.simps [of 0] strtol0_def value_in_def digit_def of_char_of)
next
  case False
  assume "n < 2 ^ 63"
  with False show ?thesis using hd_decimal [of n] by (simp add: strtol0_def value_decimal)
qed

lemma comma_not_digit: "is_int s \<Longrightarrow> comma \<notin> set s"
proof -
  have "digits_only s \<Longrightarrow> comma \<notin> set s" for s
    by (induction s) (auto simp: comma_def split: if_splits)
  then show "is_int s \<Longrightarrow> comma \<notin> set s" by (simp add: is_int_def split: if_splits)
qed

text \<open>The inputs as they are given on the command line.\<close>

fun joined :: "string list \<Rightarrow> string" where
  "joined [] = []"
| "joined [t] = t"
| "joined (t # ts) = t @ comma # joined ts"

lemma fields_joined: "ts \<noteq> [] \<Longrightarrow> list_all (\<lambda>t. comma \<notin> set t) ts \<Longrightarrow> comma_fields (joined ts) = ts"
  by (induction ts rule: joined.induct) (simp_all add: comma_fields_append)

lemma parse_inputs_eq:
  "parse_inputs str =
     (let n = length (comma_fields str); vs = values_of (comma_fields str)
      in Inr (n, map Some vs @ replicate (n - length vs) None))"
proof -
  have v: "values_of (tokens str) = values_of (comma_fields str)" by (simp add: values_of_def is_int_tokens)
  have "length (values_of (comma_fields str)) \<le> length (comma_fields str)"
    unfolding values_of_def by simp
  then have "parse_loop str 0 (replicate (length (comma_fields str)) None) = Inr (map Some (values_of (comma_fields str)) @
      replicate (length (comma_fields str) - length (values_of (comma_fields str))) None)"
    using parse_loop_eq [of 0 str "replicate (length (comma_fields str)) None"] by (simp add: v)
  then show ?thesis by (simp add: parse_inputs_def Let_def flip: length_comma_fields [unfolded Suc_eq_plus1 [symmetric]])
qed

lemma parse_joined:
  assumes "ns \<noteq> []" "list_all (\<lambda>n. n < 2 ^ 63) ns"
  shows "parse_inputs (joined (map decimal ns)) = Inr (length ns, map (\<lambda>n. Some (of_nat n)) ns)"
proof -
  have f: "comma_fields (joined (map decimal ns)) = map decimal ns"
    using assms(1) by (intro fields_joined) (simp_all add: list_all_iff comma_not_digit)
  have "values_of (map decimal ns) = map of_nat ns"
    using assms(2) by (auto simp: values_of_def list_all_iff strtol0_decimal filter_map comp_def)
  then show ?thesis by (simp add: parse_inputs_eq f Let_def comp_def)
qed

section \<open>Properties\<close>

text \<open>
  C25: \<^verbatim>\<open>parse_inputs\<close> never writes outside the array it allocates, whatever the string is. The array
  has one element for every piece between commas; the values of the pieces that are numbers
  stand at its start, in order, and the elements left over, one for every piece that is empty or not a
  number, are never written.
\<close>

theorem parse_inputs_spec:
  "parse_inputs str =
     (let n = length (comma_fields str); vs = values_of (comma_fields str)
      in Inr (n, map Some vs @ replicate (n - length vs) None))"
  by (rule parse_inputs_eq)

text \<open>
  Numbers below \<open>2 ^ 63\<close>, printed in decimal and separated by commas, are read back, each modulo
  \<open>2 ^ 32\<close>, with the right count, and a single one by \<^verbatim>\<open>to_int\<close>; this holds also for 0, whose only
  digit makes it octal.
\<close>

theorem decimal_roundtrip:
  assumes "ns \<noteq> []" "list_all (\<lambda>n. n < 2 ^ 63) ns"
  shows "parse_inputs (joined (map decimal ns)) = Inr (length ns, map (\<lambda>n. Some (of_nat n)) ns) \<and>
    to_int (decimal (hd ns)) = Inr (of_nat (hd ns))"
proof
  show "parse_inputs (joined (map decimal ns)) = Inr (length ns, map (\<lambda>n. Some (of_nat n)) ns)"
    by (rule parse_joined [OF assms])
  have "hd ns < 2 ^ 63" using assms by (cases ns) simp_all
  then show "to_int (decimal (hd ns)) = Inr (of_nat (hd ns))" by (simp add: to_int_def strtol0_decimal)
qed

theorem decimal_roundtrip_witness:
  "parse_inputs (joined (map decimal [0, 5000000000, 17])) =
     Inr (length [0, 5000000000, 17 :: nat], map (\<lambda>n. Some (of_nat n)) [0, 5000000000, 17]) \<and>
   to_int (decimal (hd [0, 5000000000, 17])) = Inr (of_nat (hd [0, 5000000000, 17]))"
  by (rule decimal_roundtrip) simp_all

lemma print_outputs_eq:
  assumes "length outs < 2 ^ 31"
  shows "print_outputs (of_nat (length outs)) outs = Inr (concat (map (\<lambda>v. decimal (unat v) @ [CHR 0x0A]) outs))"
proof -
  have "sint (of_nat (length outs) :: 32 word) = int (length outs)"
    using assms by (simp add: signed_of_nat signed_take_bit_int_eq_self_iff)
  moreover have "mapM (read_at outs) [0..<length outs] = Inr (map (\<lambda>i. outs ! i) [0..<length outs])"
    by (rule mapM_eq_map) (simp add: read_at_def)
  ultimately show ?thesis by (simp add: print_outputs_def map_nth)
qed

text \<open>
  C22: the command as a whole. Given a file with the encoding of a program, the inputs as decimal numbers
  separated by commas and the number of outputs, it prints the outputs of the program's meaning on plain
  words, one decimal number to a line, under the conditions on the program under which the interpreter
  is right.
\<close>

theorem main_runs_program:
  assumes ser: "serialize ct key ir = Some bc" and mc: "2 \<le> ir_memory_count ir" "ir_memory_count ir \<le> 2 ^ 24"
    and ct: "length ct = 64" and seal: "seal_open ct pubkey prvkey = Some key" and key: "length key = 16"
    and ok: "reveal_ok (ir_prog_outputs ir) {} (ir_instrs ir)"
    and inps: "ns \<noteq> []" "list_all (\<lambda>n. n < 2 ^ 63) ns" "length ns = length (ir_prog_inputs ir)"
    and run: "run_plain ir (map of_nat ns) = Inr outs" and outs: "length outs < 2 ^ 31"
    and content: "files name = Some bc"
  shows "main seal_open files [Opt_inputs (joined (map decimal ns)), Opt_out_count (decimal (length outs))] [name] =
    Inr (concat (map (\<lambda>v. decimal (unat v) @ [CHR 0x0A]) outs))"
proof -
  have "interpret_bytecode seal_open bc (map Some (map of_nat ns)) (of_nat (length (map of_nat ns :: uSE list)))
      (of_nat (length outs)) = Inr outs"
    using inps(3) by (intro interpret_serialized_run [OF ser mc ct _ key ok] seal run) simp
  moreover have "to_int (decimal (length outs)) = Inr (of_nat (length outs))"
    using outs by (simp add: to_int_def strtol0_decimal)
  ultimately show ?thesis
    using parse_joined [OF inps(1,2)] print_outputs_eq [OF outs] content by (simp add: main_def comp_def)
qed

theorem main_runs_program_witness:
  "\<exists>bc. serialize (replicate 64 0) (replicate 16 1) add_five = Some bc \<and>
     main (\<lambda>_ _ _. Some (replicate 16 1)) [''prog'' \<mapsto> bc] [Opt_inputs ''7'', Opt_out_count ''1''] [''prog''] =
       Inr (''12'' @ [CHR 0x0A])"
proof -
  obtain bc where bc: "serialize (replicate 64 0) (replicate 16 1) add_five = Some bc"
    using serialize_add_five by fastforce
  have "reveal_ok (ir_prog_outputs add_five) {} (ir_instrs add_five)"
    by (simp add: add_five_def clear_cells_def reveal_def)
  note run = main_runs_program [OF bc _ _ _ _ _ this, of "\<lambda>_ _ _. Some (replicate 16 1)" "[7]" "[12]" "[''prog'' \<mapsto> bc]" "''prog''"]
  have "decimal 7 = ''7''" "decimal 1 = ''1''" "decimal 12 = ''12''" by code_simp+
  then show ?thesis using run bc run_add_five by (simp add: add_five_def)
qed

text \<open>Numbers with a leading 0 are octal, and what is not a number leaves a gap at the end.\<close>

lemma leading_zero_octal: "to_int ''010'' = Inr 8 \<and> to_int ''08'' = Inr 0"
  by (simp add: to_int_def is_int_def strtol0_def value_in_def digit_def)

lemma parse_inputs_gap: "parse_inputs ''1,x,3'' = Inr (3, [Some 1, Some 3, None])"
  by (simp add: parse_inputs_eq values_of_def comma_def is_int_def strtol0_def value_in_def digit_def Let_def)

end
