(* ===== verification/Lowering.thy ===== *)
theory Lowering
  imports Program_Serializer "HOL-Library.AList"
begin

text \<open>
  The lowering pass of the compiler: \<^verbatim>\<open>compiler/src/lowering/reg_alloc.py\<close> (linear scan register
  allocation) and \<^verbatim>\<open>MLMI_to_LLMI\<close> of \<^verbatim>\<open>compiler/src/lowering/lowering.py\<close>, which turns a
  multi-instruction on memory cells into one on the registers of the secure element; and the
  high-level and mid-level instructions of \<^verbatim>\<open>compiler/src/IR.py\<close> that it works on, with their
  meaning.

  Python sets whose elements are only added, tested and iterated over are lists without
  repetition in the order of insertion; nothing here depends on that order. \<^verbatim>\<open>set.pop\<close>, which
  returns an arbitrary element, is the argument \<open>pop\<close>. A dictionary is an association list, so
  that its length is the number of its keys. Registers are natural numbers: \<^verbatim>\<open>main\<close> refuses a
  configuration with fewer registers than inputs and outputs, so that \<^verbatim>\<open>k - max_output_count\<close> is
  not negative.
\<close>

section \<open>The code\<close>

subsection \<open>Instructions on memory cells\<close>

datatype hl_operand = HImm nat | HMem nat

datatype hl_srcs = HSrc1 hl_operand | HSrc2 hl_operand hl_operand | HSrc3 hl_operand hl_operand hl_operand

datatype HLI = HLI opcode nat hl_srcs

fun hl_operands :: "hl_srcs \<Rightarrow> hl_operand list" where
  "hl_operands (HSrc1 a) = [a]"
| "hl_operands (HSrc2 a b) = [a, b]"
| "hl_operands (HSrc3 a b c) = [a, b, c]"

fun mem_operand :: "hl_operand \<Rightarrow> nat list" where
  "mem_operand (HImm _) = []"
| "mem_operand (HMem m) = [m]"

fun mem_inputs :: "HLI \<Rightarrow> nat list" where
  "mem_inputs (HLI _ _ srcs) = concat (map mem_operand (hl_operands srcs))"

fun hli_dst :: "HLI \<Rightarrow> nat" where
  "hli_dst (HLI _ dst _) = dst"

record MLMI =
  ml_seq :: "HLI list"
  ml_inputs :: "nat list"
  ml_outputs :: "nat list"

definition FromHLI :: "HLI \<Rightarrow> MLMI" where
  "FromHLI hli = \<lparr>ml_seq = [hli], ml_inputs = mem_inputs hli, ml_outputs = [hli_dst hli]\<rparr>"

definition get_defs :: "HLI list \<Rightarrow> nat set" where
  "get_defs instrs = set (map hli_dst instrs)"

definition get_used :: "HLI list \<Rightarrow> nat set" where
  "get_used instrs = set (concat (map mem_inputs instrs)) - get_defs instrs"

subsection \<open>Register allocation\<close>

text \<open>
  The exceptions: a missing key of a dictionary, the message \<^verbatim>\<open>not_enough_register_msg\<close>, and the
  \<^verbatim>\<open>RuntimeError\<close> of \<^verbatim>\<open>to_LLIR\<close>.
\<close>

datatype py_error = KeyError | NotEnoughRegisters | NotScheduled

type_synonym 'a py = "py_error + 'a"

fun bindp :: "'a py \<Rightarrow> ('a \<Rightarrow> 'b py) \<Rightarrow> 'b py" where
  "bindp (Inl e) f = Inl e"
| "bindp (Inr x) f = f x"

type_synonym intervals = "int \<Rightarrow> nat list"

definition add_at :: "int \<Rightarrow> nat \<Rightarrow> intervals \<Rightarrow> intervals" where
  "add_at i m d = d(i := List.insert m (d i))"

definition set_death :: "int \<Rightarrow> nat \<Rightarrow> intervals \<times> nat list \<Rightarrow> intervals \<times> nat list" where
  "set_death i m st =
     (case st of (deaths, dead) \<Rightarrow>
        if m \<in> set dead then (deaths, dead) else (add_at i m deaths, List.insert m dead))"

definition compute_live_intervals :: "HLI list \<Rightarrow> nat list \<Rightarrow> nat list \<Rightarrow> intervals \<times> intervals" where
  "compute_live_intervals instrs inputs outputs =
     (let births = fold (add_at (-1)) inputs (\<lambda>_. []);
          deaths = fold (add_at (int (length instrs) + 1)) outputs (\<lambda>_. []);
          births = fold (\<lambda>(idx, instr). add_at (int idx) (hli_dst instr)) (enumerate 0 instrs) births;
          last = int (length instrs) - 1;
          (deaths, dead) = fold (\<lambda>(idx, instr). fold (set_death (last - int idx)) (mem_inputs instr))
                             (enumerate 0 (rev instrs)) (deaths, [])
      in (births, deaths))"

type_synonym reg_map = "(nat \<times> nat) list"

fun lookup :: "reg_map \<Rightarrow> nat \<Rightarrow> nat py" where
  "lookup mem_to_reg m = (case map_of mem_to_reg m of None \<Rightarrow> Inl KeyError | Some r \<Rightarrow> Inr r)"

fun free_dead :: "reg_map \<Rightarrow> nat list \<Rightarrow> nat list \<Rightarrow> nat list py" where
  "free_dead mem_to_reg [] free = Inr free"
| "free_dead mem_to_reg (m # ms) free =
     bindp (lookup mem_to_reg m) (\<lambda>r. free_dead mem_to_reg ms (List.insert r free))"

fun alloc_born :: "(nat list \<Rightarrow> nat) \<Rightarrow> nat list \<Rightarrow> reg_map \<times> nat list \<Rightarrow> (reg_map \<times> nat list) py" where
  "alloc_born pop [] (mem_to_reg, free) = Inr (mem_to_reg, free)"
| "alloc_born pop (m # ms) (mem_to_reg, free) =
     (if map_of mem_to_reg m \<noteq> None then alloc_born pop ms (mem_to_reg, free)
      else if free = [] then Inl NotEnoughRegisters
      else let r = pop free
           in alloc_born pop ms (AList.update m r mem_to_reg, remove1 r free))"

fun alloc_loop ::
    "(nat list \<Rightarrow> nat) \<Rightarrow> intervals \<Rightarrow> intervals \<Rightarrow> nat list \<Rightarrow> reg_map \<times> nat list \<Rightarrow> (reg_map \<times> nat list) py" where
  "alloc_loop pop births deaths [] st = Inr st"
| "alloc_loop pop births deaths (i # is) (mem_to_reg, free) =
     bindp (free_dead mem_to_reg (deaths (int i)) free) (\<lambda>free.
     bindp (alloc_born pop (births (int i)) (mem_to_reg, free)) (alloc_loop pop births deaths is))"

definition place_inputs :: "nat set \<Rightarrow> nat list \<Rightarrow> reg_map" where
  "place_inputs used inputs =
     fold (\<lambda>(idx, m) mem_to_reg.
             if m \<in> used \<and> map_of mem_to_reg m = None then AList.update m idx mem_to_reg else mem_to_reg)
       (enumerate 0 inputs) []"

definition place_outputs :: "nat \<Rightarrow> nat list \<Rightarrow> reg_map \<Rightarrow> reg_map" where
  "place_outputs first_output_idx outputs mem_to_reg =
     fold (\<lambda>(idx, m). AList.update m (first_output_idx + idx)) (enumerate 0 outputs) mem_to_reg"

definition get_registers_mapping ::
    "(nat list \<Rightarrow> nat) \<Rightarrow> HLI list \<Rightarrow> nat list \<Rightarrow> nat list \<Rightarrow> nat \<Rightarrow> nat \<Rightarrow> reg_map py" where
  "get_registers_mapping pop instrs inputs outputs k max_outs =
     (let mem_to_reg = place_inputs (get_used instrs) inputs;
          first_free_register = length mem_to_reg;
          first_output_idx = k - max_outs;
          mem_to_reg = place_outputs first_output_idx outputs mem_to_reg;
          (births, deaths) = compute_live_intervals instrs inputs outputs;
          free_registers = [first_free_register..<first_output_idx]
      in bindp (alloc_loop pop births deaths [0..<length instrs] (mem_to_reg, free_registers))
           (\<lambda>(mem_to_reg, _). Inr mem_to_reg))"

definition needs_leq_k_registers ::
    "(nat list \<Rightarrow> nat) \<Rightarrow> HLI list \<Rightarrow> nat list \<Rightarrow> nat list \<Rightarrow> nat \<Rightarrow> nat \<Rightarrow> bool py" where
  "needs_leq_k_registers pop instrs inputs outputs k max_outs =
     (case get_registers_mapping pop instrs inputs outputs k max_outs of
        Inr _ \<Rightarrow> Inr True
      | Inl e \<Rightarrow> if e = NotEnoughRegisters then Inr False else Inl e)"

subsection \<open>Lowering a multi-instruction\<close>

fun convert_src :: "reg_map \<Rightarrow> hl_operand \<Rightarrow> operand py" where
  "convert_src registers (HMem m) = bindp (lookup registers m) (\<lambda>r. Inr (RegOperand r))"
| "convert_src registers (HImm v) = Inr (ImmOperand v)"

fun convert_srcs :: "reg_map \<Rightarrow> hl_srcs \<Rightarrow> srcs py" where
  "convert_srcs registers (HSrc1 a) = bindp (convert_src registers a) (\<lambda>x. Inr (Src1 x))"
| "convert_srcs registers (HSrc2 a b) =
     bindp (convert_src registers a) (\<lambda>x. bindp (convert_src registers b) (\<lambda>y. Inr (Src2 x y)))"
| "convert_srcs registers (HSrc3 a b c) =
     bindp (convert_src registers a) (\<lambda>x. bindp (convert_src registers b) (\<lambda>y.
     bindp (convert_src registers c) (\<lambda>z. Inr (Src3 x y z))))"

fun convert_instr :: "reg_map \<Rightarrow> HLI \<Rightarrow> LLI py" where
  "convert_instr registers (HLI opcode dst srcs) =
     bindp (lookup registers dst) (\<lambda>dst. bindp (convert_srcs registers srcs) (\<lambda>srcs.
       Inr (LLI opcode dst srcs)))"

fun convert_instrs :: "reg_map \<Rightarrow> HLI list \<Rightarrow> LLI list py" where
  "convert_instrs registers [] = Inr []"
| "convert_instrs registers (i # is) =
     bindp (convert_instr registers i) (\<lambda>l. bindp (convert_instrs registers is) (\<lambda>ls. Inr (l # ls)))"

definition MLMI_to_LLMI :: "(nat list \<Rightarrow> nat) \<Rightarrow> MLMI \<Rightarrow> nat \<Rightarrow> nat \<Rightarrow> ir_llmi py" where
  "MLMI_to_LLMI pop mlmi max_register_count max_outs =
     (let inputs = (if ml_inputs mlmi = [] then [0] else ml_inputs mlmi)
      in bindp (get_registers_mapping pop (ml_seq mlmi) inputs (ml_outputs mlmi) max_register_count
                  max_outs) (\<lambda>registers.
         bindp (convert_instrs registers (ml_seq mlmi)) (\<lambda>instrs.
         Inr \<lparr>ir_seq = instrs, ir_inputs = inputs, ir_outputs = ml_outputs mlmi\<rparr>)))"

section \<open>Meaning\<close>

text \<open>
  A high-level instruction reads and writes cells. A multi-instruction reads its inputs,
  computes on cells of its own and writes its outputs back.
\<close>

fun hl_value :: "plain \<Rightarrow> hl_operand \<Rightarrow> uSE res" where
  "hl_value env (HImm v) = Inr (of_nat v)"
| "hl_value env (HMem m) = initialised (env m)"

fun hl_values :: "plain \<Rightarrow> hl_srcs \<Rightarrow> (uSE \<times> uSE \<times> uSE) res" where
  "hl_values env (HSrc1 a) = bindr (hl_value env a) (\<lambda>x. Inr (x, 0, 0))"
| "hl_values env (HSrc2 a b) =
     bindr (hl_value env a) (\<lambda>x. bindr (hl_value env b) (\<lambda>y. Inr (x, y, 0)))"
| "hl_values env (HSrc3 a b c) =
     bindr (hl_value env a) (\<lambda>x. bindr (hl_value env b) (\<lambda>y.
     bindr (hl_value env c) (\<lambda>z. Inr (x, y, z))))"

fun exec_hli :: "HLI \<Rightarrow> plain \<Rightarrow> plain res" where
  "exec_hli (HLI opcode dst srcs) env =
     (if opcode = O_NOP then Inr env
      else bindr (hl_values env srcs) (\<lambda>(a, b, c).
           bindr (alu opcode a b c) (\<lambda>v. Inr (env(dst \<mapsto> v)))))"

definition eval_mlmi :: "MLMI \<Rightarrow> plain \<Rightarrow> plain res" where
  "eval_mlmi mlmi m =
     bindr (foldM exec_hli (ml_seq mlmi) (m |` set (ml_inputs mlmi))) (\<lambda>env.
     bindr (mapM (\<lambda>a. initialised (env a)) (ml_outputs mlmi)) (\<lambda>ws.
       Inr (store_plain (ml_outputs mlmi) ws m)))"

text \<open>
  The multi-instructions the allocation is right for: each cell is written once and before it is
  read; and, if there are temporary cells, which are written and are not outputs, the inputs that are
  read come before the others, and no temporary is written after the last read of an output that is read.
\<close>

fun scheduled :: "nat set \<Rightarrow> HLI list \<Rightarrow> bool" where
  "scheduled known [] \<longleftrightarrow> True"
| "scheduled known (i # is) \<longleftrightarrow>
     set (mem_inputs i) \<subseteq> known \<and> hli_dst i \<notin> known \<and> (case i of HLI opcode _ _ \<Rightarrow> opcode \<noteq> O_NOP) \<and>
     scheduled (insert (hli_dst i) known) is"

definition used_first :: "nat set \<Rightarrow> nat list \<Rightarrow> bool" where
  "used_first used inputs \<longleftrightarrow>
     (let rs = takeWhile (\<lambda>m. m \<in> used) inputs
      in distinct rs \<and> set (drop (length rs) inputs) \<inter> used = {})"

definition reads :: "HLI list \<Rightarrow> nat set" where
  "reads instrs = set (concat (map mem_inputs instrs))"

fun temps_ok :: "nat set \<Rightarrow> nat set \<Rightarrow> HLI list \<Rightarrow> bool" where
  "temps_ok outs seen [] \<longleftrightarrow> True"
| "temps_ok outs seen (i # is) \<longleftrightarrow>
     (hli_dst i \<notin> outs \<longrightarrow> outs \<inter> (seen \<union> set (mem_inputs i)) \<subseteq> reads is) \<and>
     temps_ok outs (seen \<union> set (mem_inputs i)) is"

definition mlmi_ok :: "MLMI \<Rightarrow> bool" where
  "mlmi_ok mlmi \<longleftrightarrow>
     scheduled (set (ml_inputs mlmi)) (ml_seq mlmi) \<and>
     distinct (ml_outputs mlmi) \<and> set (ml_outputs mlmi) \<subseteq> get_defs (ml_seq mlmi) \<and>
     temps_ok (set (ml_outputs mlmi)) {} (ml_seq mlmi) \<and>
     (get_defs (ml_seq mlmi) \<subseteq> set (ml_outputs mlmi) \<or> used_first (get_used (ml_seq mlmi)) (ml_inputs mlmi))"

section \<open>Lemmas\<close>

subsection \<open>Live intervals\<close>

lemma reads_simps [simp]:
  "reads [] = {}" "reads (i # is) = set (mem_inputs i) \<union> reads is" "reads (is @ js) = reads is \<union> reads js"
  by (simp_all add: reads_def)

lemma reads_rev [simp]: "reads (rev is) = reads is"
  by (simp add: reads_def)

lemma get_defs_simps [simp]:
  "get_defs [] = {}" "get_defs (i # is) = insert (hli_dst i) (get_defs is)"
  by (simp_all add: get_defs_def)

lemma add_at_other: "j \<noteq> i \<Longrightarrow> fold (add_at i) ms d j = d j"
  by (induction ms arbitrary: d) (simp_all add: add_at_def)

lemma births_at:
  "fold (\<lambda>(idx, instr). add_at (int idx) (hli_dst instr)) (enumerate n xs) b (int i) =
     (if n \<le> i \<and> i < n + length xs then List.insert (hli_dst (xs ! (i - n))) (b (int i)) else b (int i))"
  by (induction xs arbitrary: n b) (auto simp: add_at_def nth_Cons' Suc_le_eq)

lemma set_death_fold:
  assumes "fold (set_death i) ms (d, dead) = (d', dead')"
  shows "set dead' = set dead \<union> set ms" and "set (d' i) = set (d i) \<union> (set ms - set dead)"
    and "\<And>j. j \<noteq> i \<Longrightarrow> d' j = d j"
  using assms by (induction ms arbitrary: d dead) (auto simp: set_death_def add_at_def split: if_splits)

lemma deaths_fold:
  assumes "fold (\<lambda>(idx, instr). fold (set_death (c - int idx)) (mem_inputs instr)) (enumerate n xs) (d, dead) = (d', dead')"
  shows "(\<forall>p<length xs. set (d' (c - int (n + p))) =
            set (d (c - int (n + p))) \<union> (set (mem_inputs (xs ! p)) - set dead - reads (take p xs))) \<and>
         (\<forall>j. c - int n < j \<longrightarrow> d' j = d j)"
  using assms
proof (induction xs arbitrary: n d dead)
  case (Cons x xs)
  obtain d1 dead1 where 1: "fold (set_death (c - int n)) (mem_inputs x) (d, dead) = (d1, dead1)"
    by (cases "fold (set_death (c - int n)) (mem_inputs x) (d, dead)")
  note sd = set_death_fold [OF 1]
  have "fold (\<lambda>(idx, instr). fold (set_death (c - int idx)) (mem_inputs instr)) (enumerate (Suc n) xs) (d1, dead1) = (d', dead')"
    using Cons.prems 1 by simp
  note IH = Cons.IH [OF this]
  have "set (d' (c - int (n + p))) =
      set (d (c - int (n + p))) \<union> (set (mem_inputs ((x # xs) ! p)) - set dead - reads (take p (x # xs)))"
    if "p < length (x # xs)" for p
  proof (cases p)
    case 0
    have "d' (c - int n) = d1 (c - int n)" using IH by simp
    then show ?thesis using 0 sd by simp
  next
    case (Suc q)
    then have "set (d' (c - int (Suc n + q))) =
        set (d1 (c - int (Suc n + q))) \<union> (set (mem_inputs (xs ! q)) - set dead1 - reads (take q xs))"
      using IH that by simp
    then show ?thesis using Suc sd(1) sd(3) [of "c - int (Suc n + q)"] by auto
  qed
  moreover have "d' j = d j" if "c - int n < j" for j using IH sd(3) [of j] that by simp
  ultimately show ?case by simp
qed auto

lemma live_intervals:
  assumes "compute_live_intervals instrs inputs outputs = (births, deaths)" "i < length instrs"
  shows "births (int i) = [hli_dst (instrs ! i)]"
    and "set (deaths (int i)) = set (mem_inputs (instrs ! i)) - reads (drop (Suc i) instrs)"
proof -
  let ?d0 = "fold (add_at (int (length instrs) + 1)) outputs (\<lambda>_. [])"
  obtain d' dead' where f: "fold (\<lambda>(idx, instr). fold (set_death (int (length instrs) - 1 - int idx)) (mem_inputs instr))
      (enumerate 0 (rev instrs)) (?d0, []) = (d', dead')" by fastforce
  have b: "births = fold (\<lambda>(idx, instr). add_at (int idx) (hli_dst instr)) (enumerate 0 instrs) (fold (add_at (-1)) inputs (\<lambda>_. []))"
    and d: "deaths = d'"
    using assms(1) f by (auto simp: compute_live_intervals_def Let_def)
  show "births (int i) = [hli_dst (instrs ! i)]"
    using assms(2) unfolding b births_at by (simp add: add_at_other)
  let ?p = "length instrs - 1 - i"
  have p: "?p < length (rev instrs)" "int (length instrs) - 1 - int (0 + ?p) = int i" "rev instrs ! ?p = instrs ! i"
    using assms(2) by (auto simp: rev_nth of_nat_diff)
  have "take ?p (rev instrs) = rev (drop (Suc i) instrs)"
    using assms(2) by (simp add: take_rev)
  then show "set (deaths (int i)) = set (mem_inputs (instrs ! i)) - reads (drop (Suc i) instrs)"
    using deaths_fold [OF f, THEN conjunct1, rule_format, OF p(1)] assms(2)
    unfolding p(2,3) d by (simp add: add_at_other)
qed

subsection \<open>Running on registers\<close>

text \<open>No instruction overwrites a register that holds a cell which is read later, or an output.\<close>

fun interference_free :: "(nat \<rightharpoonup> nat) \<Rightarrow> nat set \<Rightarrow> nat set \<Rightarrow> HLI list \<Rightarrow> bool" where
  "interference_free R outs known [] \<longleftrightarrow> True"
| "interference_free R outs known (i # is) \<longleftrightarrow>
     (\<forall>v\<in>known \<inter> reads is \<union> outs. v \<noteq> hli_dst i \<longrightarrow> R v \<noteq> R (hli_dst i)) \<and>
     interference_free R outs (insert (hli_dst i) known) is"

definition holds :: "(nat \<rightharpoonup> nat) \<Rightarrow> nat set \<Rightarrow> plain \<Rightarrow> regs \<Rightarrow> bool" where
  "holds R vs env reg \<longleftrightarrow> (\<forall>v\<in>vs. \<forall>r. R v = Some r \<longrightarrow> r < length reg \<and> reg ! r = env v)"

lemma holds_Un [simp]: "holds R (vs \<union> vs') env reg \<longleftrightarrow> holds R vs env reg \<and> holds R vs' env reg"
  by (auto simp: holds_def)

lemma bindp_eq_Inr: "bindp m f = Inr y \<longleftrightarrow> (\<exists>x. m = Inr x \<and> f x = Inr y)"
  by (cases m) auto

lemma lookup_eq_Inr: "lookup M m = Inr r \<longleftrightarrow> map_of M m = Some r"
  by (simp split: option.split)

declare lookup.simps [simp del]

lemmas py_simps = bindp_eq_Inr lookup_eq_Inr

lemma convert_src_value:
  assumes "convert_src M a = Inr a'" "holds (map_of M) (set (mem_operand a)) env reg"
  shows "operand_value reg a' = hl_value env a"
  using assms by (cases a) (auto simp: py_simps holds_def read_at_def)

lemma convert_srcs_values:
  assumes "convert_srcs M s = Inr s'" "holds (map_of M) (set (concat (map mem_operand (hl_operands s)))) env reg"
  shows "srcs_values reg s' = hl_values env s"
  using assms by (cases s) (auto simp: py_simps convert_src_value)

lemma holds_update:
  assumes "holds R vs env reg" "R d = Some r" "r < length reg" "\<forall>v\<in>vs' - {d}. v \<in> vs \<and> R v \<noteq> R d"
  shows "holds R vs' (env(d \<mapsto> x)) (reg[r := Some x])"
  using assms by (auto simp: holds_def nth_list_update)

lemma run_lowered:
  assumes "convert_instrs M is = Inr ls" "scheduled known is" "interference_free (map_of M) outs known is"
    "holds (map_of M) (known \<inter> (reads is \<union> outs)) env reg" "ran (map_of M) \<subseteq> {..<length reg}"
  shows "case foldM exec_lli ls reg of
      Inl e \<Rightarrow> foldM exec_hli is env = Inl e
    | Inr reg' \<Rightarrow> \<exists>env'. foldM exec_hli is env = Inr env' \<and> length reg' = length reg \<and>
        holds (map_of M) ((known \<union> get_defs is) \<inter> outs) env' reg'"
  using assms
proof (induction "is" arbitrary: ls known env reg)
  case Nil
  then show ?case by (auto simp: holds_def)
next
  case (Cons i is')
  obtain opc d s where i: "i = HLI opc d s" by (cases i)
  obtain r s' ls' where ls: "ls = LLI opc r s' # ls'" and r: "map_of M d = Some r"
    and s': "convert_srcs M s = Inr s'" and ls': "convert_instrs M is' = Inr ls'"
    using Cons.prems(1) i by (auto simp: py_simps)
  have opc: "opc \<noteq> O_NOP" and src: "set (mem_inputs i) \<subseteq> known" and d: "d \<notin> known"
    using Cons.prems(2) i by auto
  have vals: "srcs_values reg s' = hl_values env s"
    using Cons.prems(4) src by (intro convert_srcs_values [OF s']) (auto simp: holds_def i)
  have rl: "r < length reg" using Cons.prems(5) r by (auto simp: ran_def)
  show ?case
  proof (cases "hl_values env s")
    case (Inl e)
    then show ?thesis using vals opc by (simp add: ls i)
  next
    case (Inr t)
    obtain a b c where t: "t = (a, b, c)" by (cases t)
    show ?thesis
    proof (cases "alu opc a b c")
      case Inl
      then show ?thesis using vals opc Inr t by (simp add: ls i)
    next
      case x: (Inr x)
      have h: "holds (map_of M) (insert d known \<inter> (reads is' \<union> outs)) (env(d \<mapsto> x)) (reg[r := Some x])"
        using Cons.prems(3) i d by (intro holds_update [OF Cons.prems(4) r rl]) auto
      have k: "scheduled (insert d known) is'" "interference_free (map_of M) outs (insert d known) is'"
        using Cons.prems(2,3) i by simp_all
      have IH: "case foldM exec_lli ls' (reg[r := Some x]) of
          Inl e \<Rightarrow> foldM exec_hli is' (env(d \<mapsto> x)) = Inl e
        | Inr reg' \<Rightarrow> \<exists>env'. foldM exec_hli is' (env(d \<mapsto> x)) = Inr env' \<and> length reg' = length reg \<and>
            holds (map_of M) ((insert d known \<union> get_defs is') \<inter> outs) env' reg'"
        using Cons.IH [OF ls' k h] Cons.prems(5) by (simp split: sum.splits)
      have "foldM exec_lli ls reg = foldM exec_lli ls' (reg[r := Some x])"
        "foldM exec_hli (i # is') env = foldM exec_hli is' (env(d \<mapsto> x))"
        using vals opc Inr t x rl by (simp_all add: ls i write_at_def)
      then show ?thesis using IH by (simp add: i split: sum.splits)
    qed
  qed
qed


subsection \<open>The allocation\<close>

text \<open>
  Before an instruction the cells that are read from there on and the outputs have registers of
  their own, and none of these is free as long as there are temporaries to come.
\<close>

definition alloc_inv :: "nat set \<Rightarrow> nat set \<Rightarrow> HLI list \<Rightarrow> nat \<Rightarrow> reg_map \<Rightarrow> nat list \<Rightarrow> bool" where
  "alloc_inv outs known is k M F \<longleftrightarrow>
     known \<inter> reads is \<union> outs \<subseteq> dom (map_of M) \<and> dom (map_of M) \<subseteq> known \<union> outs \<and>
     inj_on (map_of M) (known \<inter> reads is \<union> outs) \<and>
     (get_defs is \<subseteq> outs \<or> (\<forall>v\<in>known \<inter> reads is \<union> outs. \<forall>r. map_of M v = Some r \<longrightarrow> r \<notin> set F)) \<and>
     distinct F \<and> set F \<subseteq> {..<k} \<and> ran (map_of M) \<subseteq> {..<k}"

text \<open>While there are temporaries to come the outputs that were read are read again.\<close>

lemma temps_ok_reads: "temps_ok outs seen is \<Longrightarrow> \<not> get_defs is \<subseteq> outs \<Longrightarrow> outs \<inter> seen \<subseteq> reads is"
proof (induction "is" arbitrary: seen)
  case (Cons i "is")
  show ?case
  proof (cases "get_defs is \<subseteq> outs")
    case True
    then have "hli_dst i \<notin> outs" using Cons.prems(2) by simp
    then show ?thesis using Cons.prems(1) by auto
  next
    case False
    then show ?thesis using Cons.IH [of "seen \<union> set (mem_inputs i)"] Cons.prems(1) by auto
  qed
qed simp

lemma temps_ok_step:
  assumes "temps_ok outs seen (i # is)" "\<not> get_defs (i # is) \<subseteq> outs"
  shows "outs \<inter> set (mem_inputs i) \<subseteq> reads is"
proof (cases "hli_dst i \<in> outs")
  case True
  then show ?thesis using temps_ok_reads [of outs "seen \<union> set (mem_inputs i)" "is"] assms by auto
qed (use assms in auto)

lemma free_dead_eq:
  "free_dead M ms F = Inr F' \<Longrightarrow>
   set F' = set F \<union> {r. \<exists>m\<in>set ms. map_of M m = Some r} \<and> (distinct F \<longrightarrow> distinct F')"
  by (induction ms arbitrary: F) (auto simp: py_simps)

lemma alloc_born_single:
  "alloc_born pop [d] (M, F) = Inr (M', F') \<longleftrightarrow>
     (if map_of M d \<noteq> None then M' = M \<and> F' = F
      else F \<noteq> [] \<and> M' = AList.update d (pop F) M \<and> F' = remove1 (pop F) F)"
  by (auto simp: Let_def)

lemma alloc_step:
  assumes inv: "alloc_inv outs known (i # is) k M F"
    and sched: "scheduled known (i # is)" and temps: "temps_ok outs seen (i # is)"
    and died: "set died = set (mem_inputs i) - reads is"
    and free: "free_dead M died F = Inr F1"
    and born: "alloc_born pop [hli_dst i] (M, F1) = Inr (M', F')"
    and pop: "\<And>F. F \<noteq> [] \<Longrightarrow> pop F \<in> set F"
  shows "alloc_inv outs (insert (hli_dst i) known) is k M' F'"
    and "\<forall>v\<in>dom (map_of M). map_of M' v = map_of M v"
    and "\<forall>v\<in>known \<inter> reads is \<union> outs. v \<noteq> hli_dst i \<longrightarrow> map_of M' v \<noteq> map_of M' (hli_dst i)"
    and "hli_dst i \<in> dom (map_of M')"
proof -
  let ?d = "hli_dst i" and ?K = "known \<inter> reads is \<union> outs"
  have d: "?d \<notin> known" and src: "set (mem_inputs i) \<subseteq> known" using sched by simp_all
  note I = inv [unfolded alloc_inv_def]
  have K: "?K \<subseteq> known \<inter> reads (i # is) \<union> outs" by auto
  have inj: "inj_on (map_of M) ?K" using I K by (meson inj_on_subset)
  have F1: "set F1 = set F \<union> {r. \<exists>m\<in>set died. map_of M m = Some r}" "distinct F1"
    using free_dead_eq [OF free] I by auto
  have apart: "r \<notin> set F1" if T: "\<not> get_defs (i # is) \<subseteq> outs" and v: "v \<in> ?K" "map_of M v = Some r" for v r
  proof
    assume "r \<in> set F1"
    moreover have "r \<notin> set F" using I K T v by blast
    ultimately obtain m where m: "m \<in> set died" "map_of M m = Some r" using F1 by auto
    then have "m \<in> known \<inter> reads (i # is) \<union> outs" "m \<notin> ?K"
      using died src temps_ok_step [OF temps T] by auto
    then show False using I K v m by (metis inj_onD subsetD)
  qed
  have F1k: "set F1 \<subseteq> {..<k}" using F1 I by (auto simp: ran_def)
  have res: "alloc_inv outs (insert ?d known) is k M' F' \<and>
      (\<forall>v\<in>dom (map_of M). map_of M' v = map_of M v) \<and>
      (\<forall>v\<in>?K. v \<noteq> ?d \<longrightarrow> map_of M' v \<noteq> map_of M' ?d) \<and> ?d \<in> dom (map_of M')"
  proof (cases "map_of M ?d")
    case None
    let ?r = "pop F1"
    have F': "F1 \<noteq> []" "M' = AList.update ?d ?r M" "F' = remove1 ?r F1"
      using born None by (simp_all only: alloc_born_single) simp_all
    have r: "?r \<in> set F1" using pop F'(1) .
    have M': "map_of M' = (map_of M)(?d \<mapsto> ?r)" by (simp add: F' update_conv')
    have dK: "?d \<notin> ?K" and T: "\<not> get_defs (i # is) \<subseteq> outs" using None I d by auto
    have K': "insert ?d known \<inter> reads is \<union> outs \<subseteq> insert ?d ?K" by auto
    have fresh: "\<forall>v\<in>?K. map_of M v \<noteq> Some ?r \<and> Some ?r \<noteq> map_of M v" using apart [OF T] r by metis
    have "inj_on (map_of M') (insert ?d ?K)"
      using inj fresh dK by (auto simp: M' inj_on_def)
    then have inj': "inj_on (map_of M') (insert ?d known \<inter> reads is \<union> outs)"
      using K' by (rule inj_on_subset)
    have apart': "s \<notin> set F'" if "v \<in> insert ?d ?K" "map_of M' v = Some s" for v s
      using that apart [OF T] F1(2) dK by (auto simp: F'(3) M' split: if_splits)
    have "alloc_inv outs (insert ?d known) is k M' F'"
      unfolding alloc_inv_def
    proof (intro conjI)
      show "insert ?d known \<inter> reads is \<union> outs \<subseteq> dom (map_of M')" using I by (auto simp: M')
      show "dom (map_of M') \<subseteq> insert ?d known \<union> outs" using I by (auto simp: M')
      show "get_defs is \<subseteq> outs \<or> (\<forall>v\<in>insert ?d known \<inter> reads is \<union> outs. \<forall>r. map_of M' v = Some r \<longrightarrow> r \<notin> set F')"
        using apart' K' by blast
      show "distinct F'" "set F' \<subseteq> {..<k}" using F1(2) F1k by (auto simp: F'(3))
      show "ran (map_of M') \<subseteq> {..<k}" using I r F1k by (auto simp: M' ran_def)
    qed (rule inj')
    moreover have "\<forall>v\<in>dom (map_of M). map_of M' v = map_of M v" using None by (auto simp: M')
    moreover have "\<forall>v\<in>?K. v \<noteq> ?d \<longrightarrow> map_of M' v \<noteq> map_of M' ?d" using fresh by (simp add: M')
    ultimately show ?thesis by (simp add: M')
  next
    case (Some r)
    then have "?d \<in> outs" using I d by auto
    have F': "M' = M" "F' = F1" using born Some by (simp_all add: alloc_born_single)
    have "insert ?d known \<inter> reads is \<union> outs = ?K" using \<open>?d \<in> outs\<close> by auto
    moreover have "\<forall>v\<in>?K. v \<noteq> ?d \<longrightarrow> map_of M v \<noteq> map_of M ?d"
      using inj \<open>?d \<in> outs\<close> by (meson UnI2 inj_onD)
    moreover have "get_defs is \<subseteq> outs \<or> (\<forall>v\<in>?K. \<forall>r. map_of M v = Some r \<longrightarrow> r \<notin> set F1)"
      using apart by (cases "get_defs is \<subseteq> outs") auto
    ultimately show ?thesis
      unfolding alloc_inv_def F' using I F1(2) F1k inj Some by auto
  qed
  then show "alloc_inv outs (insert ?d known) is k M' F'"
    "\<forall>v\<in>dom (map_of M). map_of M' v = map_of M v"
    "\<forall>v\<in>?K. v \<noteq> ?d \<longrightarrow> map_of M' v \<noteq> map_of M' ?d" "?d \<in> dom (map_of M')"
    by blast+
qed


lemma alloc_loop_correct:
  assumes "alloc_loop pop births deaths [n..<length instrs] (M, F) = Inr (R, F')" "n \<le> length instrs"
    and "alloc_inv outs known (drop n instrs) k M F" "scheduled known (drop n instrs)" "temps_ok outs seen (drop n instrs)"
    and ivs: "\<And>i. i < length instrs \<Longrightarrow> births (int i) = [hli_dst (instrs ! i)]"
      "\<And>i. i < length instrs \<Longrightarrow> set (deaths (int i)) = set (mem_inputs (instrs ! i)) - reads (drop (Suc i) instrs)"
    and pop: "\<And>F. F \<noteq> [] \<Longrightarrow> pop F \<in> set F"
  shows "interference_free (map_of R) outs known (drop n instrs) \<and> ran (map_of R) \<subseteq> {..<k} \<and>
    (\<forall>v\<in>dom (map_of M). map_of R v = map_of M v)"
  using assms(1-5)
proof (induction "length instrs - n" arbitrary: n M F known seen)
  case 0
  then show ?case by (simp add: alloc_inv_def)
next
  case (Suc l)
  let ?i = "instrs ! n" and ?is = "drop (Suc n) instrs"
  have n: "n < length instrs" and dr: "drop n instrs = ?i # ?is"
    using Suc.hyps(2) by (simp_all add: Cons_nth_drop_Suc)
  obtain F1 M1 F2 where st: "free_dead M (deaths (int n)) F = Inr F1"
      "alloc_born pop [hli_dst ?i] (M, F1) = Inr (M1, F2)"
      "alloc_loop pop births deaths [Suc n..<length instrs] (M1, F2) = Inr (R, F')"
    using Suc.prems(1) n ivs(1) [OF n] by (auto simp: upt_conv_Cons py_simps simp del: alloc_born.simps)
  note step = alloc_step [OF Suc.prems(3) [unfolded dr] Suc.prems(4) [unfolded dr] Suc.prems(5) [unfolded dr] ivs(2) [OF n] st(1,2) pop]
  have IH: "interference_free (map_of R) outs (insert (hli_dst ?i) known) ?is \<and> ran (map_of R) \<subseteq> {..<k} \<and>
      (\<forall>v\<in>dom (map_of M1). map_of R v = map_of M1 v)"
    using Suc.hyps Suc.prems(4,5) n st(3) step(1)
    by (intro Suc.hyps(1) [where seen = "seen \<union> set (mem_inputs ?i)"]) (simp_all add: dr)
  moreover have "map_of R v = map_of M1 v" if "v \<in> known \<inter> reads ?is \<union> outs \<or> v = hli_dst ?i" for v
    using IH step(4) Suc.prems(3) that step(2) unfolding dr alloc_inv_def by (auto simp: dom_def)
  ultimately show ?case using step(2,3) unfolding dr by (auto simp: dom_def)
qed

subsection \<open>The initial placement\<close>

lemma place_outputs_fold:
  "distinct outs \<Longrightarrow>
   (\<forall>j<length outs. map_of (fold (\<lambda>(idx, m). AList.update m (f + idx)) (enumerate n outs) M) (outs ! j) = Some (f + n + j)) \<and>
   (\<forall>v. v \<notin> set outs \<longrightarrow> map_of (fold (\<lambda>(idx, m). AList.update m (f + idx)) (enumerate n outs) M) v = map_of M v)"
proof (induction outs arbitrary: n M)
  case (Cons m outs)
  then show ?case using Cons.IH [of "Suc n" "AList.update m (f + n) M"] by (simp add: All_less_Suc2 update_conv')
qed simp

lemma place_outputs_map:
  assumes "distinct outs"
  shows "j < length outs \<Longrightarrow> map_of (place_outputs f outs M) (outs ! j) = Some (f + j)"
    and "v \<notin> set outs \<Longrightarrow> map_of (place_outputs f outs M) v = map_of M v"
  using place_outputs_fold [OF assms, of f 0 M] by (simp_all add: place_outputs_def)

text \<open>The step of \<open>place_inputs\<close>, and what its fold gives: every used input its first index.\<close>

abbreviation place_input :: "nat set \<Rightarrow> nat \<times> nat \<Rightarrow> reg_map \<Rightarrow> reg_map" where
  "place_input used \<equiv> \<lambda>(idx, m) M. if m \<in> used \<and> map_of M m = None then AList.update m idx M else M"

lemma place_inputs_fold:
  "map_of (fold (place_input used) (enumerate n xs) M) v = Some r \<longleftrightarrow>
     map_of M v = Some r \<or> map_of M v = None \<and> v \<in> used \<and>
       (\<exists>j<length xs. xs ! j = v \<and> r = n + j \<and> (\<forall>i<j. xs ! i \<noteq> v))"
proof (induction xs arbitrary: n M)
  case (Cons x xs)
  show ?case
  proof (cases "x = v")
    case True
    then show ?thesis
      unfolding enumerate_simps fold_simps Cons.IH
      by (auto simp: update_conv' Ex_less_Suc2 All_less_Suc2)
  next
    case False
    then show ?thesis
      unfolding enumerate_simps fold_simps Cons.IH
      by (auto simp: update_conv' Ex_less_Suc2 All_less_Suc2)
  qed
qed simp

lemma place_inputs_eq_Some:
  "map_of (place_inputs used inputs) v = Some r \<longleftrightarrow>
     v \<in> used \<and> r < length inputs \<and> inputs ! r = v \<and> (\<forall>i<r. inputs ! i \<noteq> v)"
  unfolding place_inputs_def place_inputs_fold by auto

lemma first_index: "v \<in> set xs \<Longrightarrow> \<exists>j<length xs. xs ! j = v \<and> (\<forall>i<j. xs ! i \<noteq> v)"
proof (induction xs)
  case (Cons x xs)
  then show ?case by (cases "x = v") (auto simp: Ex_less_Suc2 All_less_Suc2)
qed simp

lemma dom_place_inputs: "dom (map_of (place_inputs used inputs)) = used \<inter> set inputs"
proof (intro set_eqI iffI)
  fix v assume "v \<in> used \<inter> set inputs"
  then show "v \<in> dom (map_of (place_inputs used inputs))"
    using first_index [of v inputs] place_inputs_eq_Some [of used inputs v] by auto
qed (auto simp: place_inputs_eq_Some)

lemma length_place_inputs: "length (place_inputs used inputs) = card (used \<inter> set inputs)"
proof -
  have "distinct (map fst (fold (place_input used) (enumerate n xs) M))" if "distinct (map fst M)" for n xs M
    using that by (induction xs arbitrary: n M) (auto simp: distinct_update)
  then have d: "distinct (map fst (place_inputs used inputs))" by (simp add: place_inputs_def)
  have "length (place_inputs used inputs) = card (set (map fst (place_inputs used inputs)))"
    using distinct_card [OF d] by simp
  also have "set (map fst (place_inputs used inputs)) = used \<inter> set inputs"
    using dom_place_inputs [of used inputs] by (simp add: dom_map_of_conv_image_fst)
  finally show ?thesis .
qed

lemma used_firstE:
  assumes "used_first used inputs"
  obtains rs ts where "inputs = rs @ ts" "distinct rs" "set rs = set inputs \<inter> used" "set ts \<inter> used = {}"
proof
  let ?rs = "takeWhile (\<lambda>m. m \<in> used) inputs"
  show *: "inputs = ?rs @ drop (length ?rs) inputs"
    by (metis takeWhile_eq_take append_take_drop_id)
  show "distinct ?rs" and ts: "set (drop (length ?rs) inputs) \<inter> used = {}"
    using assms by (simp_all add: used_first_def Let_def)
  have "set inputs = set ?rs \<union> set (drop (length ?rs) inputs)" using * by (metis set_append)
  then show "set ?rs = set inputs \<inter> used" using ts by (auto dest: set_takeWhileD)
qed

lemma scheduled_reads: "scheduled known is \<Longrightarrow> reads is \<subseteq> known \<union> get_defs is"
  by (induction "is" arbitrary: known) auto

lemma scheduled_defs: "scheduled known is \<Longrightarrow> get_defs is \<inter> known = {}"
  by (induction "is" arbitrary: known) auto

lemma used_reads:
  assumes "scheduled known is"
  shows "get_used is = known \<inter> reads is"
  using scheduled_reads [OF assms] scheduled_defs [OF assms] by (auto simp: get_used_def reads_def)

lemma used_first_index:
  assumes "used_first used inputs" "r < length inputs" "inputs ! r \<in> used" "\<forall>i<r. inputs ! i \<noteq> inputs ! r"
  shows "r < card (used \<inter> set inputs)"
proof -
  obtain rs ts where rs: "inputs = rs @ ts" "distinct rs" "set rs = set inputs \<inter> used" "set ts \<inter> used = {}"
    using assms(1) by (rule used_firstE)
  have "r < length rs"
  proof (rule ccontr)
    assume "\<not> r < length rs"
    then have "inputs ! r \<in> set ts" using assms(2) by (auto simp: rs(1) nth_append)
    then show False using assms(3) rs(4) by blast
  qed
  then show ?thesis using distinct_card [OF rs(2)] rs(3) by (simp add: Int_commute)
qed

text \<open>The placement of inputs and outputs that the loop starts from.\<close>

definition placed :: "HLI list \<Rightarrow> nat list \<Rightarrow> nat list \<Rightarrow> nat \<Rightarrow> nat \<Rightarrow> reg_map" where
  "placed is inputs outs k max_outs = place_outputs (k - max_outs) outs (place_inputs (get_used is) inputs)"

lemma get_registers_mappingE:
  assumes "get_registers_mapping pop is inputs outs k max_outs = Inr R"
  obtains births deaths F where
    "alloc_loop pop births deaths [0..<length is]
       (placed is inputs outs k max_outs, [card (get_used is \<inter> set inputs)..<k - max_outs]) = Inr (R, F)"
    "\<And>i. i < length is \<Longrightarrow> births (int i) = [hli_dst (is ! i)]"
    "\<And>i. i < length is \<Longrightarrow> set (deaths (int i)) = set (mem_inputs (is ! i)) - reads (drop (Suc i) is)"
proof -
  obtain births deaths where ivs: "compute_live_intervals is inputs outs = (births, deaths)" by fastforce
  then show thesis
    using assms that [of births deaths] live_intervals [OF ivs]
    by (auto simp: get_registers_mapping_def py_simps Let_def placed_def length_place_inputs)
qed

lemma placed_map:
  assumes "scheduled known is" "distinct outs" "set outs \<subseteq> get_defs is"
  shows "j < length outs \<Longrightarrow> map_of (placed is inputs outs k max_outs) (outs ! j) = Some (k - max_outs + j)"
    and "v \<in> known \<Longrightarrow> map_of (placed is inputs outs k max_outs) v = map_of (place_inputs (get_used is) inputs) v"
    and "dom (map_of (placed is inputs outs k max_outs)) = known \<inter> reads is \<inter> set inputs \<union> set outs"
proof -
  note P = place_outputs_map [OF assms(2), where f = "k - max_outs" and M = "place_inputs (get_used is) inputs"]
  show "j < length outs \<Longrightarrow> map_of (placed is inputs outs k max_outs) (outs ! j) = Some (k - max_outs + j)"
    unfolding placed_def by (rule P)
  have outs: "set outs \<inter> known = {}" using scheduled_defs [OF assms(1)] assms(3) by auto
  then show "v \<in> known \<Longrightarrow> map_of (placed is inputs outs k max_outs) v = map_of (place_inputs (get_used is) inputs) v"
    unfolding placed_def by (intro P) auto
  have "v \<in> dom (map_of (placed is inputs outs k max_outs)) \<longleftrightarrow> v \<in> known \<inter> reads is \<inter> set inputs \<union> set outs" for v
  proof (cases "v \<in> set outs")
    case True
    then show ?thesis using P(1) by (auto simp: placed_def in_set_conv_nth)
  next
    case False
    then have "v \<in> dom (map_of (placed is inputs outs k max_outs)) \<longleftrightarrow> v \<in> dom (map_of (place_inputs (get_used is) inputs))"
      using P(2) by (auto simp: placed_def dom_def)
    then show ?thesis using False by (auto simp: dom_place_inputs used_reads [OF assms(1)])
  qed
  then show "dom (map_of (placed is inputs outs k max_outs)) = known \<inter> reads is \<inter> set inputs \<union> set outs" by blast
qed

lemma placed_inv:
  assumes ok: "scheduled known is" "distinct outs" "set outs \<subseteq> get_defs is"
    and ins: "known \<inter> reads is \<subseteq> set inputs" "length inputs \<le> k - max_outs"
      "get_defs is \<subseteq> set outs \<or> used_first (get_used is) inputs"
    and out: "length outs \<le> max_outs" "max_outs \<le> k"
  shows "alloc_inv (set outs) known is k (placed is inputs outs k max_outs) [card (get_used is \<inter> set inputs)..<k - max_outs]"
proof -
  let ?f = "k - max_outs" and ?M = "placed is inputs outs k max_outs" and ?used = "get_used is"
  note P = placed_map [OF ok, where inputs = inputs and k = k and max_outs = max_outs]
  have used: "?used = known \<inter> reads is" using ok(1) by (rule used_reads)
  have outs: "set outs \<inter> known = {}" using scheduled_defs [OF ok(1)] ok(3) by auto
  have dom: "dom (map_of ?M) = known \<inter> reads is \<union> set outs" using P(3) ins(1) by auto
  have M: "(v \<in> known \<inter> reads is \<and> r < ?f \<and> inputs ! r = v \<and> (?used \<inter> set inputs \<noteq> {} \<longrightarrow> get_defs is \<subseteq> set outs \<or> r < card (?used \<inter> set inputs))) \<or>
      (\<exists>j<length outs. v = outs ! j \<and> r = ?f + j)" if v: "map_of ?M v = Some r" for v r
  proof (cases "v \<in> set outs")
    case True
    then obtain j where "j < length outs" "v = outs ! j" by (auto simp: in_set_conv_nth)
    then show ?thesis using P(1) v by auto
  next
    case False
    then have vk: "v \<in> known \<inter> reads is" using v dom by auto
    then have "map_of (place_inputs ?used inputs) v = Some r" using P(2) v by auto
    then have r: "r < length inputs" "inputs ! r = v" "\<forall>i<r. inputs ! i \<noteq> v" by (simp_all add: place_inputs_eq_Some)
    then show ?thesis using vk ins(2,3) used_first_index [of ?used inputs r] used by auto
  qed
  show ?thesis
    unfolding alloc_inv_def dom
  proof (intro conjI)
    show "inj_on (map_of ?M) (known \<inter> reads is \<union> set outs)"
    proof (rule inj_onI)
      fix v w assume "v \<in> known \<inter> reads is \<union> set outs" "w \<in> known \<inter> reads is \<union> set outs" and eq: "map_of ?M v = map_of ?M w"
      then obtain r where r: "map_of ?M v = Some r" "map_of ?M w = Some r" using dom by auto
      show "v = w" using M [OF r(1)] M [OF r(2)] by auto
    qed
    show "get_defs is \<subseteq> set outs \<or> (\<forall>v\<in>known \<inter> reads is \<union> set outs. \<forall>r. map_of ?M v = Some r \<longrightarrow>
        r \<notin> set [card (?used \<inter> set inputs)..<?f])"
      using M used ins(1) by fastforce
    show "set [card (?used \<inter> set inputs)..<?f] \<subseteq> {..<k}" by auto
    show "ran (map_of ?M) \<subseteq> {..<k}" using M out by (fastforce simp: ran_def)
  qed auto
qed

lemma mapping_correct:
  assumes ok: "scheduled known is" "distinct outs" "set outs \<subseteq> get_defs is" "temps_ok (set outs) {} is"
    and ins: "known \<inter> reads is \<subseteq> set inputs" "length inputs \<le> k - max_outs"
      "get_defs is \<subseteq> set outs \<or> used_first (get_used is) inputs"
    and out: "length outs \<le> max_outs" "max_outs \<le> k"
    and pop: "\<And>F. F \<noteq> [] \<Longrightarrow> pop F \<in> set F"
    and R: "get_registers_mapping pop is inputs outs k max_outs = Inr R"
  shows "interference_free (map_of R) (set outs) known is" and "ran (map_of R) \<subseteq> {..<k}"
    and "\<forall>j<length outs. map_of R (outs ! j) = Some (k - max_outs + j)"
    and "\<forall>v\<in>known \<inter> reads is. \<exists>j<length inputs. inputs ! j = v \<and> map_of R v = Some j"
proof -
  let ?M = "placed is inputs outs k max_outs" and ?F = "[card (get_used is \<inter> set inputs)..<k - max_outs]"
  obtain births deaths F' where loop: "alloc_loop pop births deaths [0..<length is] (?M, ?F) = Inr (R, F')"
    and ivs: "\<And>i. i < length is \<Longrightarrow> births (int i) = [hli_dst (is ! i)]"
      "\<And>i. i < length is \<Longrightarrow> set (deaths (int i)) = set (mem_inputs (is ! i)) - reads (drop (Suc i) is)"
    by (rule get_registers_mappingE [OF R]) blast
  note P = placed_map [OF ok(1-3), where inputs = inputs and k = k and max_outs = max_outs]
  have A: "interference_free (map_of R) (set outs) known is \<and> ran (map_of R) \<subseteq> {..<k} \<and>
    (\<forall>v\<in>dom (map_of ?M). map_of R v = map_of ?M v)"
    using alloc_loop_correct [of pop births deaths 0 "is" ?M ?F R F' "set outs" known k "{}"]
      loop placed_inv [OF ok(1-3) ins out] ok(1,4) ivs pop by simp
  then show "interference_free (map_of R) (set outs) known is" "ran (map_of R) \<subseteq> {..<k}" by simp_all
  show "\<forall>j<length outs. map_of R (outs ! j) = Some (k - max_outs + j)" using A P(1,3) by simp
  show "\<forall>v\<in>known \<inter> reads is. \<exists>j<length inputs. inputs ! j = v \<and> map_of R v = Some j"
  proof
    fix v assume v: "v \<in> known \<inter> reads is"
    then have "v \<in> dom (map_of ?M)" using P(3) ins(1) by auto
    then obtain r where r: "map_of ?M v = Some r" "map_of R v = Some r" using A by auto
    then have "map_of (place_inputs (get_used is) inputs) v = Some r" using P(2) [of v] v by simp
    then show "\<exists>j<length inputs. inputs ! j = v \<and> map_of R v = Some j"
      using r(2) by (auto simp: place_inputs_eq_Some)
  qed
qed

subsection \<open>The lowered multi-instruction\<close>

lemma mapM_registers:
  assumes "\<forall>j<length outs. reg ! (n + j) = env (outs ! j) \<and> n + j < length reg"
  shows "mapM (\<lambda>j. bindr (read_at reg (n + j)) initialised) [0..<length outs] = mapM (\<lambda>a. initialised (env a)) outs"
proof -
  have "mapM (\<lambda>j. bindr (read_at reg (n + j)) initialised) js = mapM (\<lambda>a. initialised (env a)) (map ((!) outs) js)"
    if "set js \<subseteq> {..<length outs}" for js
    using assms that by (induction js) (simp_all add: read_at_def)
  from this [of "[0..<length outs]"] show ?thesis by (simp add: map_nth lessThan_atLeast0)
qed

lemma length_convert_instrs: "convert_instrs M is = Inr ls \<Longrightarrow> length ls = length is"
  by (induction "is" arbitrary: ls) (auto simp: py_simps)

lemma MLMI_to_LLMI_eval:
  assumes pop: "\<And>F. F \<noteq> [] \<Longrightarrow> pop F \<in> set F"
    and ok: "mlmi_ok mlmi" and l: "MLMI_to_LLMI pop mlmi REGISTER_COUNT l_out = Inr llmi"
    and sizes: "length (ml_inputs mlmi) \<le> REGISTER_COUNT - l_out" "length (ml_outputs mlmi) \<le> l_out"
      "length (ml_seq mlmi) \<le> LLS_MAX_LENGTH"
    and mem: "\<forall>a\<in>set (ir_inputs llmi). m a \<noteq> None"
  shows "eval_plain llmi m = eval_mlmi mlmi m"
proof -
  let ?ins = "ml_inputs mlmi" and ?outs = "ml_outputs mlmi" and ?is = "ml_seq mlmi"
  define inputs where "inputs = (if ?ins = [] then [0] else ?ins)"
  obtain R ls where R: "get_registers_mapping pop ?is inputs ?outs REGISTER_COUNT l_out = Inr R"
    and ls: "convert_instrs R ?is = Inr ls"
    and llmi: "llmi = \<lparr>ir_seq = ls, ir_inputs = inputs, ir_outputs = ?outs\<rparr>"
    using l by (auto simp: MLMI_to_LLMI_def py_simps Let_def inputs_def)
  have sched: "scheduled (set ?ins) ?is" and outs: "distinct ?outs" "set ?outs \<subseteq> get_defs ?is"
    and temps: "temps_ok (set ?outs) {} ?is"
    using ok by (simp_all add: mlmi_ok_def)
  have used: "get_used ?is = set ?ins \<inter> reads ?is" using sched by (rule used_reads)
  have fits: "l_out < REGISTER_COUNT" by (simp add: l_out_def LLMI_MAX_OUTPUT_COUNT_def REGISTER_COUNT_def SE_SIZE_def)
  have uf: "get_defs ?is \<subseteq> set ?outs \<or> used_first (get_used ?is) inputs"
    using ok used by (auto simp: inputs_def mlmi_ok_def used_first_def Let_def)
  have len: "length inputs \<le> REGISTER_COUNT - l_out" using sizes(1) fits by (simp add: inputs_def Suc_le_eq)
  have sub: "set ?ins \<inter> reads ?is \<subseteq> set inputs" by (auto simp: inputs_def)
  note map = mapping_correct [OF sched outs temps sub len uf sizes(2) less_imp_le [OF fits] pop R]
  let ?ws = "map (\<lambda>a. the (m a)) inputs" and ?env = "m |` set ?ins"
  let ?reg = "map Some ?ws @ replicate (REGISTER_COUNT - length ?ws) None"
  have reg: "length ?reg = REGISTER_COUNT" using len fits by simp
  have ws: "mapM (\<lambda>a. initialised (m a)) inputs = Inr ?ws"
    using mem by (intro mapM_eq_map) (auto simp: llmi initialised_def)
  have holds: "holds (map_of R) (set ?ins \<inter> (reads ?is \<union> set ?outs)) ?env ?reg"
    unfolding holds_def
  proof (intro ballI allI impI)
    fix v r assume v: "v \<in> set ?ins \<inter> (reads ?is \<union> set ?outs)" and r: "map_of R v = Some r"
    then have "v \<in> set ?ins \<inter> reads ?is" using outs scheduled_defs [OF sched] by auto
    then have j: "r < length inputs" "inputs ! r = v" using map(4) r by force+
    then show "r < length ?reg \<and> ?reg ! r = ?env v"
      using mem v nth_mem [OF j(1)] by (auto simp: nth_append llmi)
  qed
  have ran: "ran (map_of R) \<subseteq> {..<length ?reg}" using map(2) reg by simp
  note run = run_lowered [OF ls sched map(1) holds ran]
  have "length inputs \<le> REGISTER_COUNT" using len by simp
  then have eval: "eval_plain llmi m =
      bindr (foldM exec_lli ls ?reg) (\<lambda>reg.
      bindr (mapM (\<lambda>j. bindr (read_at reg (REGISTER_COUNT - l_out + j)) initialised) [0..<length ?outs]) (\<lambda>ws.
        Inr (store_plain ?outs ws m)))"
    using len sizes fits ws reg length_convert_instrs [OF ls] by (simp add: eval_plain_def llmi)
  show ?thesis
  proof (cases "foldM exec_lli ls ?reg")
    case (Inl e)
    then show ?thesis using run eval by (simp add: eval_mlmi_def)
  next
    case (Inr reg')
    then obtain env' where env': "foldM exec_hli ?is ?env = Inr env'" "length reg' = REGISTER_COUNT"
        "holds (map_of R) ((set ?ins \<union> get_defs ?is) \<inter> set ?outs) env' reg'"
      using run reg by auto
    have "\<forall>j<length ?outs. reg' ! (REGISTER_COUNT - l_out + j) = env' (?outs ! j) \<and>
        REGISTER_COUNT - l_out + j < length reg'"
      using env'(3) map(3) outs(2) by (force simp: holds_def)
    from mapM_registers [OF this] show ?thesis using eval Inr env' by (simp add: eval_mlmi_def)
  qed
qed

subsection \<open>What happens without the conditions\<close>

text \<open>A \<^verbatim>\<open>set.pop\<close> that returns the register \<open>r\<close> whenever it is free.\<close>

definition pop_prefer :: "nat \<Rightarrow> nat list \<Rightarrow> nat" where
  "pop_prefer r F = (if r \<in> set F then r else hd F)"

lemma pop_prefer_in_set: "F \<noteq> [] \<Longrightarrow> pop_prefer r F \<in> set F"
  by (simp add: pop_prefer_def)

text \<open>The registers that an instruction reads.\<close>

fun operand_reg :: "operand \<Rightarrow> nat list" where
  "operand_reg (RegOperand r) = [r]"
| "operand_reg (ImmOperand _) = []"

fun reg_reads :: "LLI \<Rightarrow> nat list" where
  "reg_reads (LLI _ _ (Src1 a)) = operand_reg a"
| "reg_reads (LLI _ _ (Src2 a b)) = operand_reg a @ operand_reg b"
| "reg_reads (LLI _ _ (Src3 a b c)) = operand_reg a @ operand_reg b @ operand_reg c"

fun reg_dst :: "LLI \<Rightarrow> nat" where
  "reg_dst (LLI _ r _) = r"

lemma convert_src_reg: "convert_src R a = Inr a' \<Longrightarrow> map Some (operand_reg a') = map (map_of R) (mem_operand a)"
  by (cases a) (auto simp: py_simps)

lemma convert_instr_regs:
  assumes "convert_instr R i = Inr l"
  shows "map_of R (hli_dst i) = Some (reg_dst l)" "map Some (reg_reads l) = map (map_of R) (mem_inputs i)"
proof -
  obtain opc d ss where i: "i = HLI opc d ss" by (cases i)
  show "map_of R (hli_dst i) = Some (reg_dst l)" "map Some (reg_reads l) = map (map_of R) (mem_inputs i)"
    using assms unfolding i by (cases ss; auto simp: py_simps convert_src_reg)+
qed

lemma convert_instrs_nth: "convert_instrs R is = Inr ls \<Longrightarrow> p < length is \<Longrightarrow> convert_instr R (is ! p) = Inr (ls ! p)"
  by (induction "is" arbitrary: ls p) (auto simp: py_simps nth_Cons split: nat.split)

lemma MLMI_to_LLMI_E:
  assumes "MLMI_to_LLMI pop mlmi k max_outs = Inr llmi"
  obtains R inputs where
    "get_registers_mapping pop (ml_seq mlmi) inputs (ml_outputs mlmi) k max_outs = Inr R"
    "inputs = (if ml_inputs mlmi = [] then [0] else ml_inputs mlmi)"
    "\<And>p. p < length (ml_seq mlmi) \<Longrightarrow> convert_instr R (ml_seq mlmi ! p) = Inr (ir_seq llmi ! p)"
  using assms that by (auto simp: MLMI_to_LLMI_def py_simps Let_def convert_instrs_nth)

lemma alloc_loop_append:
  "alloc_loop pop births deaths (is @ js) st =
   bindp (alloc_loop pop births deaths is st) (alloc_loop pop births deaths js)"
proof (induction "is" arbitrary: st)
  case (Cons i "is")
  obtain M F where st: "st = (M, F)" by (cases st)
  show ?case
  proof (cases "free_dead M (deaths (int i)) F")
    case (Inr F1)
    then show ?thesis using Cons by (cases "alloc_born pop (births (int i)) (M, F1)") (simp_all add: st)
  qed (simp add: st)
qed (cases st, simp)

text \<open>A register once given stays, and only the cells written on the way get one.\<close>

lemma alloc_loop_keeps:
  assumes "alloc_loop pop births deaths is (M, F) = Inr (M', F')" "\<And>i. i \<in> set is \<Longrightarrow> births (int i) = [dst i]"
  shows "(\<forall>v\<in>dom (map_of M). map_of M' v = map_of M v) \<and> dom (map_of M') \<subseteq> dom (map_of M) \<union> dst ` set is"
  using assms
proof (induction "is" arbitrary: M F)
  case (Cons i "is")
  obtain F1 M1 F2 where st: "free_dead M (deaths (int i)) F = Inr F1" "alloc_born pop [dst i] (M, F1) = Inr (M1, F2)"
      "alloc_loop pop births deaths is (M1, F2) = Inr (M', F')"
    using Cons.prems by (auto simp: py_simps simp del: alloc_born.simps)
  have 1: "(\<forall>v\<in>dom (map_of M). map_of M1 v = map_of M v) \<and> dom (map_of M1) \<subseteq> insert (dst i) (dom (map_of M))"
    using st(2) unfolding alloc_born_single by (auto simp: update_conv' split: if_splits)
  have 2: "(\<forall>v\<in>dom (map_of M1). map_of M' v = map_of M1 v) \<and> dom (map_of M') \<subseteq> dom (map_of M1) \<union> dst ` set is"
    using Cons.prems(2) by (intro Cons.IH [OF st(3)]) simp
  have "\<forall>v\<in>dom (map_of M). v \<in> dom (map_of M1)" using 1 by (metis domIff)
  moreover have "dom (map_of M') \<subseteq> dom (map_of M) \<union> dst ` set (i # is)" using 1 2 by (simp only: list.set) blast
  ultimately show ?case using 1 2 by simp
qed simp

text \<open>A free register that is preferred goes to the next cell that has none.\<close>

lemma alloc_loop_prefers:
  assumes "alloc_loop (pop_prefer r) births deaths [n..<l] (M, F) = Inr (R, F')" "n \<le> p" "p < l"
    and "r \<in> set F \<or> (\<exists>m\<in>set (deaths (int n)). map_of M m = Some r)"
    and births: "\<And>i. i < l \<Longrightarrow> births (int i) = [dst i]"
    and dsts: "\<And>i. n \<le> i \<Longrightarrow> i < p \<Longrightarrow> map_of M (dst i) \<noteq> None" "map_of M (dst p) = None"
  shows "map_of R (dst p) = Some r"
  using assms(1-4) dsts
proof (induction "p - n" arbitrary: n F)
  case 0
  then have n: "n = p" by simp
  obtain F1 M1 F2 where st: "free_dead M (deaths (int p)) F = Inr F1" "alloc_born (pop_prefer r) [dst p] (M, F1) = Inr (M1, F2)"
      "alloc_loop (pop_prefer r) births deaths [Suc p..<l] (M1, F2) = Inr (R, F')"
    using "0.prems"(1) births [OF "0.prems"(3)] "0.prems"(3) unfolding n
    by (auto simp: upt_conv_Cons py_simps simp del: alloc_born.simps)
  have "r \<in> set F1" using free_dead_eq [OF st(1)] "0.prems"(4) n by auto
  then have "map_of M1 (dst p) = Some r"
    using st(2) "0.prems"(6) unfolding alloc_born_single by (simp add: pop_prefer_def update_conv')
  then show ?case using alloc_loop_keeps [OF st(3), of dst] births by (auto simp: dom_def)
next
  case (Suc d)
  then have n: "n < p" by simp
  have d: "map_of M (dst n) \<noteq> None" using Suc.prems(5) n by simp
  obtain F1 where st: "free_dead M (deaths (int n)) F = Inr F1"
      "alloc_loop (pop_prefer r) births deaths [Suc n..<l] (M, F1) = Inr (R, F')"
    using Suc.prems(1,3) births [of n] n d by (auto simp: upt_conv_Cons py_simps)
  have "r \<in> set F1" using free_dead_eq [OF st(1)] Suc.prems(4) by auto
  then show ?case using Suc.hyps(2) Suc.prems n st(2) by (intro Suc.hyps(1) [of "Suc n" F1]) auto
qed

text \<open>The cells with a register when the loop comes to an instruction.\<close>

lemma scheduled_dsts:
  "scheduled known is \<Longrightarrow> p < length is \<Longrightarrow> hli_dst (is ! p) \<notin> known \<and> (\<forall>i<p. hli_dst (is ! i) \<noteq> hli_dst (is ! p))"
proof (induction "is" arbitrary: known p)
  case (Cons i "is")
  then show ?case
    using Cons.IH [of "insert (hli_dst i) known" "p - 1"] by (cases p) (auto simp: All_less_Suc2)
qed simp

lemma scheduled_reads_before:
  "scheduled known is \<Longrightarrow> q < length is \<Longrightarrow> set (mem_inputs (is ! q)) \<subseteq> known \<union> (\<lambda>i. hli_dst (is ! i)) ` {..<q}"
proof (induction "is" arbitrary: known q)
  case (Cons i "is")
  show ?case
  proof (cases q)
    case (Suc l)
    have "set (mem_inputs (is ! l)) \<subseteq> insert (hli_dst i) known \<union> (\<lambda>i. hli_dst (is ! i)) ` {..<l}"
      using Cons.prems Suc by (intro Cons.IH) simp_all
    then show ?thesis by (simp add: Suc lessThan_Suc_eq_insert_0 image_image)
  qed (use Cons.prems in simp)
qed simp

lemma clash:
  assumes sched: "scheduled (set ins) is" and outs: "distinct outs" "set outs \<subseteq> get_defs is"
    and inputs: "inputs = (if ins = [] then [0] else ins)"
    and R: "get_registers_mapping (pop_prefer r) is inputs outs k max_outs = Inr R"
    and q: "q \<le> p" "p < length is"
    and p: "hli_dst (is ! p) \<notin> set outs" "\<forall>i. q \<le> i \<longrightarrow> i < p \<longrightarrow> hli_dst (is ! i) \<in> set outs"
    and free: "q = 0 \<and> r \<in> {card (get_used is \<inter> set inputs)..<k - max_outs} \<or>
      (\<exists>m\<in>set (mem_inputs (is ! q)) - reads (drop (Suc q) is). map_of (placed is inputs outs k max_outs) m = Some r)"
  shows "map_of R (hli_dst (is ! p)) = Some r \<and>
    (\<forall>v\<in>dom (map_of (placed is inputs outs k max_outs)). map_of R v = map_of (placed is inputs outs k max_outs) v)"
proof -
  let ?M = "placed is inputs outs k max_outs" and ?F = "[card (get_used is \<inter> set inputs)..<k - max_outs]"
  let ?dst = "\<lambda>i. hli_dst (is ! i)"
  obtain births deaths F' where loop: "alloc_loop (pop_prefer r) births deaths [0..<length is] (?M, ?F) = Inr (R, F')"
    and ivs: "\<And>i. i < length is \<Longrightarrow> births (int i) = [?dst i]"
      "\<And>i. i < length is \<Longrightarrow> set (deaths (int i)) = set (mem_inputs (is ! i)) - reads (drop (Suc i) is)"
    by (rule get_registers_mappingE [OF R]) blast
  have "[0..<length is] = [0..<q] @ [q..<length is]" using upt_add_eq_append [of 0 q "length is - q"] q by simp
  then obtain M F where st: "alloc_loop (pop_prefer r) births deaths [0..<q] (?M, ?F) = Inr (M, F)"
      "alloc_loop (pop_prefer r) births deaths [q..<length is] (M, F) = Inr (R, F')"
    using loop by (auto simp: alloc_loop_append py_simps)
  have keep: "(\<forall>v\<in>dom (map_of ?M). map_of M v = map_of ?M v) \<and> dom (map_of M) \<subseteq> dom (map_of ?M) \<union> ?dst ` set [0..<q]"
    using ivs(1) q by (intro alloc_loop_keeps [OF st(1)]) auto
  have dom: "dom (map_of ?M) \<subseteq> set ins \<union> set outs" "set outs \<subseteq> dom (map_of ?M)"
    using placed_map(3) [OF sched outs, of inputs k max_outs] by auto
  have none: "map_of M (?dst p) = None"
  proof (rule ccontr)
    assume "map_of M (?dst p) \<noteq> None"
    then have "?dst p \<in> dom (map_of ?M) \<union> ?dst ` set [0..<q]" using keep by blast
    moreover have "?dst p \<notin> ?dst ` set [0..<q]"
      using scheduled_dsts [OF sched q(2)] q(1) less_le_trans [OF _ q(1)] by fastforce
    ultimately show False using dom(1) scheduled_dsts [OF sched q(2)] p(1) by blast
  qed
  have some: "map_of M (?dst i) \<noteq> None" if "q \<le> i" "i < p" for i
  proof -
    have "?dst i \<in> dom (map_of ?M)" using p(2) dom(2) that by auto
    then show ?thesis using keep by (metis domIff)
  qed
  have fr: "r \<in> set F \<or> (\<exists>m\<in>set (deaths (int q)). map_of M m = Some r)"
    using free
  proof
    assume "q = 0 \<and> r \<in> {card (get_used is \<inter> set inputs)..<k - max_outs}"
    then show ?thesis using st(1) by auto
  next
    assume "\<exists>m\<in>set (mem_inputs (is ! q)) - reads (drop (Suc q) is). map_of ?M m = Some r"
    then show ?thesis using keep ivs(2) [of q] q by (metis domI order_le_less_trans)
  qed
  have "map_of R (?dst p) = Some r"
    by (rule alloc_loop_prefers [OF st(2) q fr, where dst = ?dst]) (use ivs(1) some none in auto)
  moreover have "\<forall>v\<in>dom (map_of ?M). map_of R v = map_of ?M v"
    using alloc_loop_keeps [OF loop, of ?dst] ivs(1) by simp
  ultimately show ?thesis by simp
qed

section \<open>Properties\<close>

text \<open>
  C10: register allocation is correct: a multi-instruction within the sizes of the secure element that
  \<^verbatim>\<open>MLMI_to_LLMI\<close> lowers, whatever registers \<^verbatim>\<open>set.pop\<close> chooses, does on the registers what it means on
  memory cells, errors included, when each cell is written once and before it is read, and, if it
  has temporary cells, the inputs that are read come first and no temporary is written after the
  last read of an output that is read.
\<close>

theorem MLMI_to_LLMI_correct:
  assumes "\<And>F. F \<noteq> [] \<Longrightarrow> pop F \<in> set F"
    and "mlmi_ok mlmi" and "MLMI_to_LLMI pop mlmi REGISTER_COUNT l_out = Inr llmi"
    and "length (ml_inputs mlmi) \<le> REGISTER_COUNT - l_out" "length (ml_outputs mlmi) \<le> l_out"
      "length (ml_seq mlmi) \<le> LLS_MAX_LENGTH"
    and "\<forall>a\<in>set (ir_inputs llmi). m a \<noteq> None"
  shows "eval_plain llmi m = eval_mlmi mlmi m"
  using assms by (rule MLMI_to_LLMI_eval)

definition sum_mlmi :: MLMI where
  "sum_mlmi = \<lparr>ml_seq = [HLI O_ADD 10 (HSrc2 (HMem 1) (HMem 2)), HLI O_MUL 11 (HSrc2 (HMem 10) (HMem 10))],
     ml_inputs = [1, 2], ml_outputs = [11]\<rparr>"

definition sum_llmi :: ir_llmi where
  "sum_llmi = \<lparr>ir_seq = [LLI O_ADD 31 (Src2 (RegOperand 0) (RegOperand 1)), LLI O_MUL 32 (Src2 (RegOperand 31) (RegOperand 31))],
     ir_inputs = [1, 2], ir_outputs = [11]\<rparr>"

lemmas lowering_run = MLMI_to_LLMI_def get_registers_mapping_def compute_live_intervals_def place_inputs_def
  place_outputs_def set_death_def add_at_def get_used_def get_defs_def lookup.simps
  REGISTER_COUNT_def l_out_def LLMI_MAX_OUTPUT_COUNT_def SE_SIZE_def

theorem MLMI_to_LLMI_correct_witness:
  "mlmi_ok sum_mlmi \<and> MLMI_to_LLMI last sum_mlmi REGISTER_COUNT l_out = Inr sum_llmi \<and>
   eval_plain sum_llmi [1 \<mapsto> 3, 2 \<mapsto> 4] = eval_mlmi sum_mlmi [1 \<mapsto> 3, 2 \<mapsto> 4]"
proof -
  have ok: "mlmi_ok sum_mlmi"
    by (simp add: mlmi_ok_def sum_mlmi_def used_first_def get_used_def get_defs_def reads_def)
  have l: "MLMI_to_LLMI last sum_mlmi REGISTER_COUNT l_out = Inr sum_llmi"
    by code_simp
  have "eval_plain sum_llmi [1 \<mapsto> 3, 2 \<mapsto> 4] = eval_mlmi sum_mlmi [1 \<mapsto> 3, 2 \<mapsto> 4]"
    by (rule MLMI_to_LLMI_correct [of last, OF last_in_set ok l])
      (simp_all add: sum_mlmi_def sum_llmi_def REGISTER_COUNT_def l_out_def LLMI_MAX_OUTPUT_COUNT_def
        SE_SIZE_def LLS_MAX_LENGTH_def)
  then show ?thesis using ok l by blast
qed

definition read_output_mlmi :: MLMI where
  "read_output_mlmi = \<lparr>ml_seq = [HLI O_ADD 10 (HSrc2 (HMem 1) (HMem 2)), HLI O_ADD 11 (HSrc2 (HMem 10) (HImm 1)),
       HLI O_ADD 12 (HSrc2 (HMem 11) (HImm 1))],
     ml_inputs = [1, 2], ml_outputs = [10, 12]\<rparr>"

definition unused_input_mlmi :: MLMI where
  "unused_input_mlmi = \<lparr>ml_seq = [HLI O_MOV 10 (HSrc1 (HImm 7)), HLI O_ADD 11 (HSrc2 (HMem 10) (HMem 2))],
     ml_inputs = [1, 2], ml_outputs = [11]\<rparr>"

definition lowered_results :: "MLMI \<Rightarrow> plain \<Rightarrow> nat \<Rightarrow> (uSE option \<times> uSE option) py" where
  "lowered_results mlmi m a =
     bindp (MLMI_to_LLMI hd mlmi REGISTER_COUNT l_out) (\<lambda>llmi.
       case (eval_plain llmi m, eval_mlmi mlmi m) of
         (Inr m1, Inr m2) \<Rightarrow> Inr (m1 a, m2 a)
       | _ \<Rightarrow> Inl KeyError)"

lemmas lowered_run = store_plain_def LLS_MAX_LENGTH_def initialised_def read_at_def write_at_def
  REGISTER_COUNT_def l_out_def LLMI_MAX_OUTPUT_COUNT_def SE_SIZE_def

lemma lower_read_output:
  "MLMI_to_LLMI hd read_output_mlmi REGISTER_COUNT l_out =
   Inr \<lparr>ir_seq = [LLI O_ADD 32 (Src2 (RegOperand 0) (RegOperand 1)), LLI O_ADD 32 (Src2 (RegOperand 32) (ImmOperand 1)),
         LLI O_ADD 33 (Src2 (RegOperand 32) (ImmOperand 1))], ir_inputs = [1, 2], ir_outputs = [10, 12]\<rparr>"
  by code_simp

lemma lower_unused_input:
  "MLMI_to_LLMI hd unused_input_mlmi REGISTER_COUNT l_out =
   Inr \<lparr>ir_seq = [LLI O_MOV 1 (Src1 (ImmOperand 7)), LLI O_ADD 32 (Src2 (RegOperand 1) (RegOperand 1))],
        ir_inputs = [1, 2], ir_outputs = [11]\<rparr>"
  by code_simp

lemma read_output_results: "lowered_results read_output_mlmi [1 \<mapsto> 3, 2 \<mapsto> 4] 10 = Inr (Some 8, Some 7)"
  unfolding lowered_results_def lower_read_output
  by (simp add: eval_plain_def eval_mlmi_def read_output_mlmi_def lowered_run)

lemma unused_input_results: "lowered_results unused_input_mlmi [1 \<mapsto> 3, 2 \<mapsto> 4] 11 = Inr (Some 14, Some 11)"
  unfolding lowered_results_def lower_unused_input
  by (simp add: eval_plain_def eval_mlmi_def unused_input_mlmi_def lowered_run)

text \<open>
  C13: an output that is read loses its register: in every multi-instruction whose \<open>j\<close>-th output is last
  read by instruction \<open>q\<close> and that writes a temporary from there on, first in instruction \<open>p\<close>, a choice
  of \<^verbatim>\<open>set.pop\<close> makes the lowered instruction \<open>p\<close> write the register from which the \<open>j\<close>-th output is taken
  at the end, the one that an earlier instruction had put the output into.
\<close>

theorem output_register_reused:
  assumes "scheduled (set (ml_inputs mlmi)) (ml_seq mlmi)" and "distinct (ml_outputs mlmi)"
    and "set (ml_outputs mlmi) \<subseteq> get_defs (ml_seq mlmi)" and "j < length (ml_outputs mlmi)"
    and "ml_outputs mlmi ! j \<in> set (mem_inputs (ml_seq mlmi ! q)) - reads (drop (Suc q) (ml_seq mlmi))"
    and "q \<le> p" and "p < length (ml_seq mlmi)" and "hli_dst (ml_seq mlmi ! p) \<notin> set (ml_outputs mlmi)"
    and "\<forall>i. q \<le> i \<longrightarrow> i < p \<longrightarrow> hli_dst (ml_seq mlmi ! i) \<in> set (ml_outputs mlmi)"
    and "MLMI_to_LLMI (pop_prefer (k - max_outs + j)) mlmi k max_outs = Inr llmi"
  shows "reg_dst (ir_seq llmi ! p) = k - max_outs + j \<and>
    (\<exists>d<q. hli_dst (ml_seq mlmi ! d) = ml_outputs mlmi ! j \<and> reg_dst (ir_seq llmi ! d) = k - max_outs + j)"
proof -
  let ?is = "ml_seq mlmi" and ?outs = "ml_outputs mlmi" and ?r = "k - max_outs + j"
  obtain R inputs where R: "get_registers_mapping (pop_prefer ?r) ?is inputs ?outs k max_outs = Inr R"
      "inputs = (if ml_inputs mlmi = [] then [0] else ml_inputs mlmi)"
    and l: "\<And>p. p < length ?is \<Longrightarrow> convert_instr R (?is ! p) = Inr (ir_seq llmi ! p)"
    using assms(10) by (rule MLMI_to_LLMI_E) blast
  let ?M = "placed ?is inputs ?outs k max_outs"
  note P = placed_map [OF assms(1-3), where inputs = inputs and k = k and max_outs = max_outs]
  have M: "map_of ?M (?outs ! j) = Some ?r" using P(1) assms(4) .
  have c: "map_of R (hli_dst (?is ! p)) = Some ?r \<and> (\<forall>v\<in>dom (map_of ?M). map_of R v = map_of ?M v)"
    using assms(5) M by (intro clash [OF assms(1-3) R(2,1) assms(6-9)]) blast
  then have o: "map_of R (?outs ! j) = Some ?r" using M by (metis domI)
  have q: "q < length ?is" using assms(6,7) by simp
  have "?outs ! j \<notin> set (ml_inputs mlmi)"
    using scheduled_defs [OF assms(1)] assms(3) nth_mem [OF assms(4)] by blast
  then obtain d where d: "d < q" "hli_dst (?is ! d) = ?outs ! j"
    using scheduled_reads_before [OF assms(1) q] assms(5) by fastforce
  then have "reg_dst (ir_seq llmi ! d) = ?r" using convert_instr_regs(1) [OF l, of d] o q by simp
  moreover have "reg_dst (ir_seq llmi ! p) = ?r" using convert_instr_regs(1) [OF l [OF assms(7)]] c by simp
  ultimately show ?thesis using d by blast
qed

theorem output_register_reused_witness:
  "\<exists>llmi. MLMI_to_LLMI (pop_prefer 32) read_output_mlmi REGISTER_COUNT l_out = Inr llmi \<and> reg_dst (ir_seq llmi ! 1) = 32 \<and>
     (\<exists>d<1. hli_dst (ml_seq read_output_mlmi ! d) = ml_outputs read_output_mlmi ! 0 \<and> reg_dst (ir_seq llmi ! d) = 32)"
proof -
  have "(case MLMI_to_LLMI (pop_prefer 32) read_output_mlmi REGISTER_COUNT l_out of Inr _ \<Rightarrow> True | _ \<Rightarrow> False)"
    by code_simp
  then obtain llmi where l: "MLMI_to_LLMI (pop_prefer 32) read_output_mlmi REGISTER_COUNT l_out = Inr llmi"
    by (auto split: sum.splits)
  have r: "REGISTER_COUNT - l_out + 0 = 32" by code_simp
  have "reg_dst (ir_seq llmi ! 1) = REGISTER_COUNT - l_out + 0 \<and>
     (\<exists>d<1. hli_dst (ml_seq read_output_mlmi ! d) = ml_outputs read_output_mlmi ! 0 \<and>
        reg_dst (ir_seq llmi ! d) = REGISTER_COUNT - l_out + 0)"
    by (rule output_register_reused [OF _ _ _ _ _ _ _ _ _ l [folded r]])
      (simp_all add: read_output_mlmi_def get_defs_def reads_def)
  then show ?thesis using l r by auto
qed

text \<open>
  C14: an unused input takes a register from a used one: in every multi-instruction whose input at
  index \<open>j\<close> is used although there are no more than \<open>j\<close> different used inputs, and that writes a temporary,
  first in instruction \<open>p\<close>, a choice of \<^verbatim>\<open>set.pop\<close> makes the lowered instruction \<open>p\<close> write the register \<open>j\<close>, in which
  that input was loaded and from which every instruction that reads the input takes it.
\<close>

theorem input_register_reused:
  assumes "scheduled (set (ml_inputs mlmi)) (ml_seq mlmi)" and "distinct (ml_outputs mlmi)"
    and "set (ml_outputs mlmi) \<subseteq> get_defs (ml_seq mlmi)"
    and "j < length (ml_inputs mlmi)" and "ml_inputs mlmi ! j \<in> get_used (ml_seq mlmi)"
    and "\<forall>i<j. ml_inputs mlmi ! i \<noteq> ml_inputs mlmi ! j"
    and "card (get_used (ml_seq mlmi) \<inter> set (ml_inputs mlmi)) \<le> j" and "j < k - max_outs"
    and "p < length (ml_seq mlmi)" and "hli_dst (ml_seq mlmi ! p) \<notin> set (ml_outputs mlmi)"
    and "\<forall>i<p. hli_dst (ml_seq mlmi ! i) \<in> set (ml_outputs mlmi)"
    and "MLMI_to_LLMI (pop_prefer j) mlmi k max_outs = Inr llmi"
  shows "reg_dst (ir_seq llmi ! p) = j \<and>
    (\<forall>q<length (ml_seq mlmi). ml_inputs mlmi ! j \<in> set (mem_inputs (ml_seq mlmi ! q)) \<longrightarrow> j \<in> set (reg_reads (ir_seq llmi ! q)))"
proof -
  let ?is = "ml_seq mlmi" and ?outs = "ml_outputs mlmi" and ?v = "ml_inputs mlmi ! j"
  obtain R inputs where R: "get_registers_mapping (pop_prefer j) ?is inputs ?outs k max_outs = Inr R"
      "inputs = (if ml_inputs mlmi = [] then [0] else ml_inputs mlmi)"
    and l: "\<And>p. p < length ?is \<Longrightarrow> convert_instr R (?is ! p) = Inr (ir_seq llmi ! p)"
    using assms(12) by (rule MLMI_to_LLMI_E) blast
  have i: "inputs = ml_inputs mlmi" using R(2) assms(4) by auto
  let ?M = "placed ?is inputs ?outs k max_outs"
  have "map_of (place_inputs (get_used ?is) inputs) ?v = Some j"
    using assms(4-6) by (simp add: place_inputs_eq_Some i)
  then have M: "map_of ?M ?v = Some j"
    using placed_map(2) [OF assms(1-3), of ?v inputs k max_outs] assms(4) by simp
  have "map_of R (hli_dst (?is ! p)) = Some j \<and> (\<forall>v\<in>dom (map_of ?M). map_of R v = map_of ?M v)"
  proof (rule clash [OF assms(1-3) R(2,1) le0 assms(9,10)])
    show "\<forall>i. 0 \<le> i \<longrightarrow> i < p \<longrightarrow> hli_dst (?is ! i) \<in> set ?outs" using assms(11) by blast
    have "j \<in> {card (get_used ?is \<inter> set inputs)..<k - max_outs}" using assms(7,8) by (simp add: i)
    then show "0 = (0 :: nat) \<and> j \<in> {card (get_used ?is \<inter> set inputs)..<k - max_outs} \<or>
        (\<exists>m\<in>set (mem_inputs (?is ! 0)) - reads (drop (Suc 0) ?is). map_of ?M m = Some j)" by blast
  qed
  then have c: "map_of R (hli_dst (?is ! p)) = Some j" "map_of R ?v = Some j" using M by (simp, metis domI)
  have "j \<in> set (reg_reads (ir_seq llmi ! q))" if "q < length ?is" "?v \<in> set (mem_inputs (?is ! q))" for q
  proof -
    have "Some j \<in> set (map (map_of R) (mem_inputs (?is ! q)))" using that(2) c(2) by force
    then show ?thesis unfolding convert_instr_regs(2) [OF l [OF that(1)], symmetric] by auto
  qed
  then show ?thesis using convert_instr_regs(1) [OF l [OF assms(9)]] c(1) by simp
qed

theorem input_register_reused_witness:
  "\<exists>llmi. MLMI_to_LLMI (pop_prefer 1) unused_input_mlmi REGISTER_COUNT l_out = Inr llmi \<and> reg_dst (ir_seq llmi ! 0) = 1 \<and>
     (\<forall>q<length (ml_seq unused_input_mlmi). ml_inputs unused_input_mlmi ! 1 \<in> set (mem_inputs (ml_seq unused_input_mlmi ! q)) \<longrightarrow>
        1 \<in> set (reg_reads (ir_seq llmi ! q)))"
proof -
  have "(case MLMI_to_LLMI (pop_prefer 1) unused_input_mlmi REGISTER_COUNT l_out of Inr _ \<Rightarrow> True | _ \<Rightarrow> False)"
    by code_simp
  then obtain llmi where l: "MLMI_to_LLMI (pop_prefer 1) unused_input_mlmi REGISTER_COUNT l_out = Inr llmi"
    by (auto split: sum.splits)
  have r: "1 < REGISTER_COUNT - l_out" "card (get_used (ml_seq unused_input_mlmi) \<inter> set (ml_inputs unused_input_mlmi)) \<le> 1"
    by code_simp+
  have "reg_dst (ir_seq llmi ! 0) = 1 \<and>
     (\<forall>q<length (ml_seq unused_input_mlmi). ml_inputs unused_input_mlmi ! 1 \<in> set (mem_inputs (ml_seq unused_input_mlmi ! q)) \<longrightarrow>
        1 \<in> set (reg_reads (ir_seq llmi ! q)))"
    by (rule input_register_reused [OF _ _ _ _ _ _ r(2,1) _ _ _ l])
      (simp_all add: unused_input_mlmi_def get_defs_def get_used_def)
  then show ?thesis using l by blast
qed

end
