(* ===== verification/Dataflow_Graph.thy ===== *)
theory Dataflow_Graph
  imports Lowering
begin

text \<open>
  The dataflow graph of \<^verbatim>\<open>compiler/src/DFG.py\<close>: its construction from a program of multi-instructions,
  its integrity check, and \<^verbatim>\<open>to_LLIR\<close>, which lowers the nodes in an order in which the inputs of each
  are ready. The lemmas show that the work list ends, that it reaches every node of an acyclic graph,
  and that the program it emits computes the memory the nodes describe, whatever the order.

  Nodes are compared by identity in the code (\<^verbatim>\<open>MLMI\<close> has no \<^verbatim>\<open>__eq__\<close>), so a node is a number here and
  \<open>mlmi_of\<close> gives its contents. Sets are lists without repetition, as in \<open>Lowering\<close>; \<^verbatim>\<open>todo.pop()\<close> is the
  argument \<open>pop_node\<close>. The work list runs on fuel, \<open>None\<close> when it is used up.
\<close>

section \<open>The code\<close>

record MLIRProgram =
  ml_instrs :: "MLMI list"
  ml_prog_inputs :: "nat list"
  ml_prog_outputs :: "nat list"
  ml_memory_count :: nat

definition initial_convertion_to_mlir :: "HLI list \<Rightarrow> nat list \<Rightarrow> nat list \<Rightarrow> nat \<Rightarrow> MLIRProgram" where
  "initial_convertion_to_mlir instrs inputs outputs memory_count =
     \<lparr>ml_instrs = map FromHLI instrs, ml_prog_inputs = inputs, ml_prog_outputs = outputs,
      ml_memory_count = memory_count\<rparr>"

record DFG =
  prog :: MLIRProgram
  mlmi_of :: "nat \<Rightarrow> MLMI"
  nodes :: "nat list"
  backward_edges :: "nat \<rightharpoonup> nat"
  forward_edges :: "nat \<Rightarrow> nat list"

definition build_backward_edges :: "MLMI list \<Rightarrow> nat \<rightharpoonup> nat" where
  "build_backward_edges instrs =
     fold (\<lambda>(i, instr) b. fold (\<lambda>d b. b(d \<mapsto> i)) (map hli_dst (ml_seq instr)) b) (enumerate 0 instrs) Map.empty"

text \<open>The elements of \<open>get_used\<close>.\<close>

definition used_vars :: "MLMI \<Rightarrow> nat list" where
  "used_vars instr =
     remdups (filter (\<lambda>m. m \<notin> get_defs (ml_seq instr)) (concat (map mem_inputs (ml_seq instr))))"

fun add_uses :: "nat set \<Rightarrow> (nat \<rightharpoonup> nat) \<Rightarrow> nat \<Rightarrow> nat list \<Rightarrow> (nat \<Rightarrow> nat list) \<Rightarrow> (nat \<Rightarrow> nat list) py" where
  "add_uses inputs b i [] f = Inr f"
| "add_uses inputs b i (src # srcs) f =
     (if src \<in> inputs then add_uses inputs b i srcs f
      else case b src of
             None \<Rightarrow> Inl KeyError
           | Some d \<Rightarrow> add_uses inputs b i srcs (f(d := List.insert i (f d))))"

fun build_forward_edges ::
    "nat set \<Rightarrow> (nat \<rightharpoonup> nat) \<Rightarrow> nat \<Rightarrow> MLMI list \<Rightarrow> (nat \<Rightarrow> nat list) \<Rightarrow> (nat \<Rightarrow> nat list) py" where
  "build_forward_edges inputs b i [] f = Inr f"
| "build_forward_edges inputs b i (instr # instrs) f =
     bindp (add_uses inputs b i (used_vars instr) f) (build_forward_edges inputs b (Suc i) instrs)"

definition build_graph :: "MLIRProgram \<Rightarrow> DFG py" where
  "build_graph mlir =
     (let instrs = ml_instrs mlir; b = build_backward_edges instrs
      in bindp (build_forward_edges (set (ml_prog_inputs mlir)) b 0 instrs (\<lambda>_. [])) (\<lambda>f.
         Inr \<lparr>prog = mlir, mlmi_of = (!) instrs,
              nodes = filter (\<lambda>i. list_ex (\<lambda>d. b d = Some i) (map hli_dst (ml_seq (instrs ! i)))) [0..<length instrs],
              backward_edges = b, forward_edges = f\<rparr>))"

text \<open>
  The check of the edges; the one of the outgoing edges stands in the loop over the inputs, after
  the \<^verbatim>\<open>continue\<close> for inputs of the program.
\<close>

definition check_dfg_integrity :: "DFG \<Rightarrow> bool" where
  "check_dfg_integrity g \<longleftrightarrow>
     list_all (\<lambda>n. list_all (\<lambda>m.
         m \<in> set (ml_prog_inputs (prog g)) \<or>
         (case backward_edges g m of
            None \<Rightarrow> False
          | Some d \<Rightarrow> n \<in> set (forward_edges g d) \<and>
              list_all (\<lambda>k. list_ex (\<lambda>o'. o' \<in> set (ml_inputs (mlmi_of g k))) (ml_outputs (mlmi_of g n)))
                (forward_edges g n)))
       (ml_inputs (mlmi_of g n))) (nodes g)"

record sched =
  llir_instrs :: "ir_llmi list"
  mem_ready :: "nat set"
  done_nodes :: "nat list"

definition schedule_node :: "(nat list \<Rightarrow> nat) \<Rightarrow> nat \<Rightarrow> nat \<Rightarrow> MLMI \<Rightarrow> sched \<Rightarrow> sched py" where
  "schedule_node pop_reg r lo node st =
     bindp (MLMI_to_LLMI pop_reg node r lo) (\<lambda>llmi.
       Inr (st\<lparr>llir_instrs := llir_instrs st @ [llmi], mem_ready := mem_ready st \<union> set (ml_outputs node)\<rparr>))"

definition node_is_ready :: "sched \<Rightarrow> MLMI \<Rightarrow> bool" where
  "node_is_ready st node \<longleftrightarrow> list_all (\<lambda>m. m \<in> mem_ready st) (ml_inputs node)"

fun todo_loop ::
    "(nat list \<Rightarrow> nat) \<Rightarrow> (nat list \<Rightarrow> nat) \<Rightarrow> nat \<Rightarrow> nat \<Rightarrow> DFG \<Rightarrow> nat \<Rightarrow> nat list \<Rightarrow> sched \<Rightarrow> sched py option" where
  "todo_loop pop_reg pop_node r lo g 0 todo st = (if todo = [] then Some (Inr st) else None)"
| "todo_loop pop_reg pop_node r lo g (Suc fuel) todo st =
     (if todo = [] then Some (Inr st)
      else let n = pop_node todo; todo = remove1 n todo
           in if node_is_ready st (mlmi_of g n)
              then case schedule_node pop_reg r lo (mlmi_of g n) st of
                     Inl e \<Rightarrow> Some (Inl e)
                   | Inr st \<Rightarrow> todo_loop pop_reg pop_node r lo g fuel (fold List.insert (forward_edges g n) todo)
                                (st\<lparr>done_nodes := List.insert n (done_nodes st)\<rparr>)
              else todo_loop pop_reg pop_node r lo g fuel todo st)"

definition start :: "DFG \<Rightarrow> sched" where
  "start g = \<lparr>llir_instrs = [], mem_ready = set (ml_prog_inputs (prog g)), done_nodes = []\<rparr>"

definition to_LLIR ::
    "(nat list \<Rightarrow> nat) \<Rightarrow> (nat list \<Rightarrow> nat) \<Rightarrow> nat \<Rightarrow> nat \<Rightarrow> nat \<Rightarrow> DFG \<Rightarrow> LLIRProgram py option" where
  "to_LLIR pop_reg pop_node r lo fuel g =
     map_option (\<lambda>res. bindp res (\<lambda>st.
         if list_all (\<lambda>n. n \<in> set (done_nodes st)) (nodes g)
         then Inr \<lparr>ir_instrs = llir_instrs st, ir_prog_inputs = ml_prog_inputs (prog g),
                   ir_prog_outputs = ml_prog_outputs (prog g), ir_memory_count = ml_memory_count (prog g)\<rparr>
         else Inl NotScheduled))
       (todo_loop pop_reg pop_node r lo g fuel
          (filter (\<lambda>n. node_is_ready (start g) (mlmi_of g n)) (nodes g)) (start g))"

section \<open>Well-formed graphs\<close>

text \<open>
  The edges are those from a definition to its uses, a cell is defined by one node at most and is
  not an input of the program then.
\<close>

definition graph_ok :: "DFG \<Rightarrow> bool" where
  "graph_ok g \<longleftrightarrow>
     distinct (nodes g) \<and>
     (\<forall>n\<in>set (nodes g). distinct (forward_edges g n) \<and>
        set (forward_edges g n) =
          {k \<in> set (nodes g). set (ml_outputs (mlmi_of g n)) \<inter> set (ml_inputs (mlmi_of g k)) \<noteq> {}} \<and>
        set (ml_outputs (mlmi_of g n)) \<inter> set (ml_prog_inputs (prog g)) = {} \<and>
        (\<forall>k\<in>set (nodes g). n \<noteq> k \<longrightarrow> set (ml_outputs (mlmi_of g n)) \<inter> set (ml_outputs (mlmi_of g k)) = {}))"

text \<open>Every input is an input of the program or the output of a node of a lower rank: no cycles.\<close>

definition ranked :: "(nat \<Rightarrow> nat) \<Rightarrow> DFG \<Rightarrow> bool" where
  "ranked rank g \<longleftrightarrow>
     (\<forall>k\<in>set (nodes g). \<forall>m\<in>set (ml_inputs (mlmi_of g k)).
        m \<in> set (ml_prog_inputs (prog g)) \<or>
        (\<exists>n\<in>set (nodes g). m \<in> set (ml_outputs (mlmi_of g n)) \<and> rank n < rank k))"

section \<open>The work list\<close>

definition outs_of :: "DFG \<Rightarrow> nat \<Rightarrow> nat set" where
  "outs_of g n = set (ml_outputs (mlmi_of g n))"

definition ins_of :: "DFG \<Rightarrow> nat \<Rightarrow> nat set" where
  "ins_of g n = set (ml_inputs (mlmi_of g n))"

definition ready_cells :: "DFG \<Rightarrow> nat list \<Rightarrow> nat set" where
  "ready_cells g ns = set (ml_prog_inputs (prog g)) \<union> (\<Union>n\<in>set ns. outs_of g n)"

text \<open>
  The state between two rounds: the ready cells are those of the scheduled nodes, no scheduled
  node waits, and every node that is ready waits or is scheduled.
\<close>

definition sched_inv :: "DFG \<Rightarrow> nat list \<Rightarrow> sched \<Rightarrow> bool" where
  "sched_inv g todo st \<longleftrightarrow>
     distinct todo \<and> set todo \<subseteq> set (nodes g) \<and> set (done_nodes st) \<subseteq> set (nodes g) \<and>
     set todo \<inter> set (done_nodes st) = {} \<and>
     mem_ready st = ready_cells g (done_nodes st) \<and>
     (\<forall>n\<in>set (done_nodes st). ins_of g n \<subseteq> mem_ready st) \<and>
     (\<forall>n\<in>set (nodes g). ins_of g n \<subseteq> mem_ready st \<longrightarrow> n \<in> set todo \<union> set (done_nodes st))"

definition work :: "DFG \<Rightarrow> nat list \<Rightarrow> sched \<Rightarrow> nat" where
  "work g todo st = length todo + (\<Sum>n\<in>set (nodes g) - set (done_nodes st). length (forward_edges g n))"

lemma set_fold_insert [simp]: "set (fold List.insert xs ys) = set xs \<union> set ys"
  by (induction xs arbitrary: ys) auto

lemma distinct_fold_insert [simp]: "distinct ys \<Longrightarrow> distinct (fold List.insert xs ys)"
  by (induction xs arbitrary: ys) auto

lemma length_fold_insert: "length (fold List.insert xs ys) \<le> length xs + length ys"
proof (induction xs arbitrary: ys)
  case (Cons x xs)
  have "length (fold List.insert (x # xs) ys) \<le> length xs + length (List.insert x ys)" using Cons by simp
  also have "\<dots> \<le> length (x # xs) + length ys" by (simp add: List.insert_def)
  finally show ?case .
qed simp

lemma length_remove1_less: "x \<in> set xs \<Longrightarrow> length (remove1 x xs) < length xs"
  using length_pos_if_in_set [of x xs] by (simp add: length_remove1)

lemma node_is_ready_iff: "node_is_ready st (mlmi_of g n) \<longleftrightarrow> ins_of g n \<subseteq> mem_ready st"
  by (auto simp: node_is_ready_def list_all_iff ins_of_def)

lemma graph_okD:
  assumes "graph_ok g" "n \<in> set (nodes g)"
  shows "set (forward_edges g n) = {k \<in> set (nodes g). outs_of g n \<inter> ins_of g k \<noteq> {}}"
    and "outs_of g n \<inter> set (ml_prog_inputs (prog g)) = {}"
    and "\<And>k. k \<in> set (nodes g) \<Longrightarrow> n \<noteq> k \<Longrightarrow> outs_of g n \<inter> outs_of g k = {}"
  using assms by (auto simp: graph_ok_def outs_of_def ins_of_def)

lemma ready_cells_insert: "ready_cells g (List.insert n ns) = ready_cells g ns \<union> outs_of g n"
  by (auto simp: ready_cells_def)

lemma sched_invD:
  assumes "sched_inv g todo st"
  shows "distinct todo" "set todo \<subseteq> set (nodes g)" "set (done_nodes st) \<subseteq> set (nodes g)"
    "set todo \<inter> set (done_nodes st) = {}" "mem_ready st = ready_cells g (done_nodes st)"
    "\<And>n. n \<in> set (done_nodes st) \<Longrightarrow> ins_of g n \<subseteq> mem_ready st"
    "\<And>n. n \<in> set (nodes g) \<Longrightarrow> ins_of g n \<subseteq> mem_ready st \<Longrightarrow> n \<in> set todo \<union> set (done_nodes st)"
  using assms unfolding sched_inv_def by blast+

lemma sched_inv_skip:
  assumes "sched_inv g todo st" "n \<in> set todo" "\<not> ins_of g n \<subseteq> mem_ready st"
  shows "sched_inv g (remove1 n todo) st" and "work g (remove1 n todo) st < work g todo st"
proof -
  show "work g (remove1 n todo) st < work g todo st"
    using length_remove1_less [OF assms(2)] by (simp add: work_def)
  show "sched_inv g (remove1 n todo) st"
    using assms(2,3) sched_invD [OF assms(1)] unfolding sched_inv_def
    by (simp add: set_remove1_eq) blast
qed

lemma sched_inv_step:
  assumes g: "graph_ok g" and inv: "sched_inv g todo st" and n: "n \<in> set todo" "ins_of g n \<subseteq> mem_ready st"
    and st': "mem_ready st' = mem_ready st \<union> outs_of g n" "done_nodes st' = List.insert n (done_nodes st)"
  shows "sched_inv g (fold List.insert (forward_edges g n) (remove1 n todo)) st'"
    and "work g (fold List.insert (forward_edges g n) (remove1 n todo)) st' < work g todo st"
proof -
  let ?todo = "fold List.insert (forward_edges g n) (remove1 n todo)"
  note I = sched_invD [OF inv]
  have nn: "n \<in> set (nodes g)" "n \<notin> set (done_nodes st)" using I(2,4) n by auto
  note G = graph_okD [OF g nn(1)]
  have "outs_of g n \<inter> outs_of g k = {}" if "k \<in> set (done_nodes st)" for k
    using that I(3) nn(2) by (intro G(3)) auto
  then have fresh: "outs_of g n \<inter> mem_ready st = {}" using G(2) unfolding I(5) ready_cells_def by blast
  have apart: "k \<notin> insert n (set (done_nodes st))" if "k \<in> set (forward_edges g n)" for k
  proof
    assume "k \<in> insert n (set (done_nodes st))"
    then have "ins_of g k \<subseteq> mem_ready st" using I(6) n(2) by auto
    moreover have "outs_of g n \<inter> ins_of g k \<noteq> {}" using that G(1) by simp
    ultimately show False using fresh by blast
  qed
  show "sched_inv g ?todo st'"
    unfolding sched_inv_def
  proof (intro conjI ballI impI)
    show "distinct ?todo" using I(1) by simp
    show "set ?todo \<subseteq> set (nodes g)" using G(1) I(2) by (auto simp: I(1))
    show "set (done_nodes st') \<subseteq> set (nodes g)" using I(3) nn(1) st'(2) by simp
    show "set ?todo \<inter> set (done_nodes st') = {}" using apart I(1,4) st'(2) by auto
    show "mem_ready st' = ready_cells g (done_nodes st')" by (simp add: st' ready_cells_insert I(5))
    show "ins_of g k \<subseteq> mem_ready st'" if "k \<in> set (done_nodes st')" for k
      using that I(6) [of k] n(2) st' by auto
    show "k \<in> set ?todo \<union> set (done_nodes st')" if k: "k \<in> set (nodes g)" "ins_of g k \<subseteq> mem_ready st'" for k
    proof (cases "ins_of g k \<subseteq> mem_ready st")
      case True
      then show ?thesis using I(7) [OF k(1)] I(1) st'(2) by auto
    next
      case False
      then have "outs_of g n \<inter> ins_of g k \<noteq> {}" using k(2) st'(1) by auto
      then show ?thesis using G(1) k(1) by auto
    qed
  qed
  have "length ?todo \<le> length (forward_edges g n) + length (remove1 n todo)" by (rule length_fold_insert)
  moreover have "length (remove1 n todo) < length todo" using n(1) by (rule length_remove1_less)
  moreover have "(\<Sum>k\<in>set (nodes g) - set (done_nodes st). length (forward_edges g k)) =
      length (forward_edges g n) + (\<Sum>k\<in>set (nodes g) - set (done_nodes st'). length (forward_edges g k))"
  proof -
    have "set (nodes g) - set (done_nodes st') = set (nodes g) - set (done_nodes st) - {n}" by (auto simp: st'(2))
    then show ?thesis using nn by (simp add: sum.remove [of _ n])
  qed
  ultimately show "work g ?todo st' < work g todo st" by (simp add: work_def)
qed

text \<open>The outcome of the loop when it has more fuel than work.\<close>

lemma todo_loop_ends:
  assumes g: "graph_ok g" and pop: "\<And>F. F \<noteq> [] \<Longrightarrow> pop_node F \<in> set F"
  shows "sched_inv g todo st \<Longrightarrow> work g todo st \<le> fuel \<Longrightarrow>
    (\<exists>st'. todo_loop pop_reg pop_node r lo g fuel todo st = Some (Inr st') \<and> sched_inv g [] st') \<or>
    (\<exists>e. todo_loop pop_reg pop_node r lo g fuel todo st = Some (Inl e) \<and>
       (\<exists>n\<in>set (nodes g). MLMI_to_LLMI pop_reg (mlmi_of g n) r lo = Inl e))"
proof (induction fuel arbitrary: todo st)
  case 0
  then have "todo = []" by (simp add: work_def)
  then show ?case using 0 by simp
next
  case (Suc fuel)
  show ?case
  proof (cases "todo = []")
    case False
    let ?n = "pop_node todo"
    have n: "?n \<in> set todo" using pop False .
    then have nn: "?n \<in> set (nodes g)" using sched_invD(2) [OF Suc.prems(1)] by auto
    show ?thesis
    proof (cases "ins_of g ?n \<subseteq> mem_ready st")
      case ready: True
      show ?thesis
      proof (cases "MLMI_to_LLMI pop_reg (mlmi_of g ?n) r lo")
        case (Inl e)
        then show ?thesis using False nn ready by (auto simp: Let_def node_is_ready_iff schedule_node_def)
      next
        case (Inr llmi)
        let ?st = "st\<lparr>llir_instrs := llir_instrs st @ [llmi], mem_ready := mem_ready st \<union> outs_of g ?n,
          done_nodes := List.insert ?n (done_nodes st)\<rparr>"
        note step = sched_inv_step [OF g Suc.prems(1) n ready, of ?st]
        show ?thesis using Suc.IH [of "fold List.insert (forward_edges g ?n) (remove1 ?n todo)" ?st] step Suc.prems(2) False Inr ready
          by (simp add: Let_def node_is_ready_iff schedule_node_def outs_of_def)
      qed
    next
      case notready: False
      show ?thesis
        using Suc.IH [of "remove1 ?n todo" st] sched_inv_skip [OF Suc.prems(1) n notready] Suc.prems(2) False notready
        by (simp add: Let_def node_is_ready_iff)
    qed
  qed (use Suc.prems in simp)
qed

lemma all_scheduled:
  assumes "sched_inv g [] st" "ranked rank g"
  shows "n \<in> set (nodes g) \<Longrightarrow> n \<in> set (done_nodes st)"
proof (induction "rank n" arbitrary: n rule: less_induct)
  case less
  have "m \<in> mem_ready st" if m: "m \<in> ins_of g n" for m
  proof (cases "m \<in> set (ml_prog_inputs (prog g))")
    case False
    then obtain k where "k \<in> set (nodes g)" "m \<in> outs_of g k" "rank k < rank n"
      using assms(2) [unfolded ranked_def, rule_format, OF less.prems, of m] m
      by (auto simp: ins_of_def outs_of_def)
    then show ?thesis using less.hyps sched_invD(5) [OF assms(1)] by (auto simp: ready_cells_def)
  qed (simp add: sched_invD(5) [OF assms(1)] ready_cells_def)
  then show ?case using sched_invD(7) [OF assms(1) less.prems] by auto
qed

lemma sched_inv_start:
  assumes "graph_ok g"
  shows "sched_inv g (filter (\<lambda>n. node_is_ready (start g) (mlmi_of g n)) (nodes g)) (start g)"
  using assms by (auto simp: sched_inv_def node_is_ready_iff start_def graph_ok_def ready_cells_def)

lemma work_start:
  "graph_ok g \<Longrightarrow> work g (filter P (nodes g)) (start g) \<le>
     length (nodes g) + sum_list (map (\<lambda>n. length (forward_edges g n)) (nodes g))"
  by (simp add: work_def start_def graph_ok_def sum_list_distinct_conv_sum_set)

section \<open>The memory the nodes describe\<close>

text \<open>A memory that holds the inputs and that no node changes: what every node computes from it is there.\<close>

definition consistent :: "DFG \<Rightarrow> uSE list \<Rightarrow> plain \<Rightarrow> bool" where
  "consistent g inps env \<longleftrightarrow>
     map env (ml_prog_inputs (prog g)) = map Some inps \<and>
     list_all (\<lambda>n. eval_mlmi (mlmi_of g n) env = Inr env) (nodes g)"

text \<open>The nodes that the secure element can run; a node without inputs is lowered with the cell 0 as input.\<close>

definition node_ok :: "DFG \<Rightarrow> MLMI \<Rightarrow> bool" where
  "node_ok g node \<longleftrightarrow>
     mlmi_ok node \<and> length (ml_inputs node) \<le> REGISTER_COUNT - l_out \<and>
     length (ml_outputs node) \<le> l_out \<and> length (ml_seq node) \<le> LLS_MAX_LENGTH \<and>
     (ml_inputs node = [] \<longrightarrow> 0 \<in> set (ml_prog_inputs (prog g)))"

definition outputs_defined :: "DFG \<Rightarrow> bool" where
  "outputs_defined g \<longleftrightarrow> set (ml_prog_outputs (prog g)) \<subseteq> ready_cells g (nodes g)"

lemma store_plain_Cons: "store_plain (a # as) (w # ws) m = store_plain as ws (m(a \<mapsto> w))"
  by (simp add: store_plain_def)

lemma store_plain_Nil [simp]: "store_plain [] ws m = m" "store_plain as [] m = m"
  by (simp_all add: store_plain_def)

lemma dom_store_plain: "length as = length ws \<Longrightarrow> dom (store_plain as ws m) = dom m \<union> set as"
  by (induction as ws arbitrary: m rule: list_induct2) (auto simp: store_plain_Cons)

lemma store_plain_le:
  "length as = length ws \<Longrightarrow> m \<subseteq>\<^sub>m env \<Longrightarrow> map env as = map Some ws \<Longrightarrow> store_plain as ws m \<subseteq>\<^sub>m env"
  by (induction as ws arbitrary: m rule: list_induct2) (simp_all add: store_plain_Cons map_le_def)

lemma store_plain_other: "a \<notin> set as \<Longrightarrow> store_plain as ws m a = m a"
  by (induction as ws arbitrary: m rule: list_induct2') (auto simp: store_plain_Cons)

lemma store_plain_same:
  "length as = length ws \<Longrightarrow> distinct as \<Longrightarrow> map (store_plain as ws m) as = map Some ws"
  by (induction as ws arbitrary: m rule: list_induct2) (simp_all add: store_plain_Cons store_plain_other)

text \<open>On a part of a consistent memory that has its inputs a node computes the rest of it.\<close>

lemma eval_mlmi_part:
  assumes env: "eval_mlmi node env = Inr env" and ins: "set (ml_inputs node) \<subseteq> dom m" and le: "m \<subseteq>\<^sub>m env"
    and outs: "distinct (ml_outputs node)"
  obtains m' where "eval_mlmi node m = Inr m'" "m' \<subseteq>\<^sub>m env" "dom m' = dom m \<union> set (ml_outputs node)"
proof -
  have same: "m |` set (ml_inputs node) = env |` set (ml_inputs node)"
    using ins le by (auto simp: restrict_map_def map_le_def fun_eq_iff)
  obtain env' ws where e: "foldM exec_hli (ml_seq node) (env |` set (ml_inputs node)) = Inr env'"
      "mapM (\<lambda>a. initialised (env' a)) (ml_outputs node) = Inr ws" "store_plain (ml_outputs node) ws env = env"
    using env by (auto simp: eval_mlmi_def res_simps)
  have len: "length (ml_outputs node) = length ws" using mapM_Inr_length [OF e(2)] by simp
  have "map env (ml_outputs node) = map Some ws"
    using store_plain_same [OF len outs, of env] e(3) by simp
  then have "store_plain (ml_outputs node) ws m \<subseteq>\<^sub>m env" using store_plain_le [OF len le] by simp
  moreover have "eval_mlmi node m = Inr (store_plain (ml_outputs node) ws m)"
    using e by (simp add: eval_mlmi_def same)
  ultimately show thesis using dom_store_plain [OF len, of m] by (intro that)
qed

lemma MLMI_to_LLMI_inputs:
  "MLMI_to_LLMI pop node r lo = Inr llmi \<Longrightarrow>
   ir_inputs llmi = (if ml_inputs node = [] then [0] else ml_inputs node)"
  by (auto simp: MLMI_to_LLMI_def py_simps Let_def split: if_splits)

text \<open>The instructions emitted so far compute a part of a consistent memory, with the ready cells.\<close>

definition emitted :: "DFG \<Rightarrow> plain \<Rightarrow> plain \<Rightarrow> sched \<Rightarrow> bool" where
  "emitted g env m0 st \<longleftrightarrow>
     set (ml_prog_inputs (prog g)) \<subseteq> mem_ready st \<and>
     (\<exists>m. foldM eval_plain (llir_instrs st) m0 = Inr m \<and> m \<subseteq>\<^sub>m env \<and> mem_ready st \<subseteq> dom m)"

lemma emitted_step:
  assumes em: "emitted g env m0 st" and ok: "node_ok g node" and env: "eval_mlmi node env = Inr env"
    and ready: "node_is_ready st node" and pop: "\<And>F. F \<noteq> [] \<Longrightarrow> pop_reg F \<in> set F"
    and s: "schedule_node pop_reg REGISTER_COUNT l_out node st = Inr st'"
  shows "emitted g env m0 st'"
proof -
  obtain m where m: "foldM eval_plain (llir_instrs st) m0 = Inr m" "m \<subseteq>\<^sub>m env" "mem_ready st \<subseteq> dom m"
    and ins: "set (ml_prog_inputs (prog g)) \<subseteq> mem_ready st"
    using em by (auto simp: emitted_def)
  obtain llmi where l: "MLMI_to_LLMI pop_reg node REGISTER_COUNT l_out = Inr llmi"
    and st': "llir_instrs st' = llir_instrs st @ [llmi]" "mem_ready st' = mem_ready st \<union> set (ml_outputs node)"
    using s by (auto simp: schedule_node_def py_simps)
  have dm: "set (ml_inputs node) \<subseteq> dom m" using ready m(3) by (auto simp: node_is_ready_def list_all_iff)
  obtain m' where m': "eval_mlmi node m = Inr m'" "m' \<subseteq>\<^sub>m env" "dom m' = dom m \<union> set (ml_outputs node)"
    using eval_mlmi_part [OF env dm m(2)] ok by (auto simp: node_ok_def mlmi_ok_def)
  have "\<forall>a\<in>set (ir_inputs llmi). m a \<noteq> None"
    using dm ins m(3) ok by (auto simp: MLMI_to_LLMI_inputs [OF l] node_ok_def)
  then have "eval_plain llmi m = eval_mlmi node m"
    using ok by (intro MLMI_to_LLMI_eval [OF pop _ l]) (auto simp: node_ok_def)
  then show ?thesis using m m' ins st' by (auto simp: emitted_def foldM_append)
qed

lemma todo_loop_emitted:
  assumes ok: "list_all (\<lambda>n. node_ok g (mlmi_of g n) \<and> eval_mlmi (mlmi_of g n) env = Inr env \<and>
      set (forward_edges g n) \<subseteq> set (nodes g)) (nodes g)"
    and pop: "\<And>F. F \<noteq> [] \<Longrightarrow> pop_reg F \<in> set F" "\<And>F. F \<noteq> [] \<Longrightarrow> pop_node F \<in> set F"
  shows "todo_loop pop_reg pop_node REGISTER_COUNT l_out g fuel todo st = Some (Inr st') \<Longrightarrow>
    set todo \<subseteq> set (nodes g) \<Longrightarrow> emitted g env m0 st \<Longrightarrow> ready_cells g (done_nodes st) \<subseteq> mem_ready st \<Longrightarrow>
    emitted g env m0 st' \<and> ready_cells g (done_nodes st') \<subseteq> mem_ready st'"
proof (induction fuel arbitrary: todo st)
  case (Suc fuel)
  show ?case
  proof (cases "todo = []")
    case False
    let ?n = "pop_node todo"
    have n: "?n \<in> set (nodes g)" using pop(2) [OF False] Suc.prems(2) by auto
    have rest: "set (remove1 ?n todo) \<subseteq> set (nodes g)" using Suc.prems(2) set_remove1_subset by fastforce
    show ?thesis
    proof (cases "node_is_ready st (mlmi_of g ?n)")
      case True
      obtain st1 where st1: "schedule_node pop_reg REGISTER_COUNT l_out (mlmi_of g ?n) st = Inr st1"
        "todo_loop pop_reg pop_node REGISTER_COUNT l_out g fuel (fold List.insert (forward_edges g ?n) (remove1 ?n todo))
           (st1\<lparr>done_nodes := List.insert ?n (done_nodes st1)\<rparr>) = Some (Inr st')"
        using Suc.prems(1) False True by (auto simp: Let_def split: sum.splits)
      have "emitted g env m0 st1"
        by (rule emitted_step [OF Suc.prems(3) _ _ True pop(1) st1(1)]) (use ok n in \<open>auto simp: list_all_iff\<close>)
      then have "emitted g env m0 (st1\<lparr>done_nodes := List.insert ?n (done_nodes st1)\<rparr>)" by (simp add: emitted_def)
      moreover have "ready_cells g (List.insert ?n (done_nodes st1)) \<subseteq> mem_ready st1"
        using st1(1) Suc.prems(4) by (auto simp: schedule_node_def py_simps ready_cells_insert outs_of_def)
      moreover have "set (fold List.insert (forward_edges g ?n) (remove1 ?n todo)) \<subseteq> set (nodes g)"
        using ok n rest by (simp add: list_all_iff)
      ultimately show ?thesis using Suc.IH [OF st1(2)] by simp
    next
      case notready: False
      then show ?thesis using Suc.IH [of "remove1 ?n todo" st] Suc.prems False rest by (simp add: Let_def)
    qed
  qed (use Suc.prems in simp)
qed (simp split: if_splits)

lemma to_LLIR_run:
  assumes g: "graph_ok g" "outputs_defined g" "list_all (\<lambda>n. node_ok g (mlmi_of g n)) (nodes g)"
    and env: "consistent g inps env"
    and pop: "\<And>F. F \<noteq> [] \<Longrightarrow> pop_reg F \<in> set F" "\<And>F. F \<noteq> [] \<Longrightarrow> pop_node F \<in> set F"
    and l: "to_LLIR pop_reg pop_node REGISTER_COUNT l_out fuel g = Some (Inr ir)"
  shows "run_plain ir inps = Inr (map (\<lambda>a. the (env a)) (ml_prog_outputs (prog g)))"
proof -
  let ?ins = "ml_prog_inputs (prog g)" and ?outs = "ml_prog_outputs (prog g)"
  let ?m0 = "store_plain ?ins inps Map.empty"
  let ?todo = "filter (\<lambda>n. node_is_ready (start g) (mlmi_of g n)) (nodes g)"
  obtain st where st: "todo_loop pop_reg pop_node REGISTER_COUNT l_out g fuel ?todo (start g) = Some (Inr st)"
      "set (nodes g) \<subseteq> set (done_nodes st)"
    and ir: "ir_instrs ir = llir_instrs st" "ir_prog_inputs ir = ?ins" "ir_prog_outputs ir = ?outs"
    using l by (auto simp: to_LLIR_def py_simps list_all_iff subset_iff split: if_splits)
  have ins: "map env ?ins = map Some inps" using env by (simp add: consistent_def)
  then have len: "length ?ins = length inps" by (metis length_map)
  have m0: "?m0 \<subseteq>\<^sub>m env" "dom ?m0 = set ?ins" using store_plain_le [OF len _ ins] dom_store_plain [OF len] by simp_all
  have ok: "list_all (\<lambda>n. node_ok g (mlmi_of g n) \<and> eval_mlmi (mlmi_of g n) env = Inr env \<and>
      set (forward_edges g n) \<subseteq> set (nodes g)) (nodes g)"
    using g(1,3) env by (auto simp: consistent_def list_all_iff graph_ok_def)
  have "emitted g env ?m0 st \<and> ready_cells g (done_nodes st) \<subseteq> mem_ready st"
    by (rule todo_loop_emitted [OF ok pop st(1)])
      (use m0 in \<open>auto simp: emitted_def start_def ready_cells_def\<close>)
  then obtain m where m: "foldM eval_plain (llir_instrs st) ?m0 = Inr m" "m \<subseteq>\<^sub>m env"
      "ready_cells g (done_nodes st) \<subseteq> dom m" by (auto simp: emitted_def)
  have "ready_cells g (nodes g) \<subseteq> ready_cells g (done_nodes st)" using st(2) by (auto simp: ready_cells_def)
  then have "\<forall>a\<in>set ?outs. a \<in> dom m" using g(2) m(3) by (auto simp: outputs_defined_def)
  then have "\<forall>a\<in>set ?outs. \<exists>y. m a = Some y \<and> env a = Some y" using m(2) unfolding map_le_def by (metis domD)
  then have "mapM (\<lambda>a. initialised (m a)) ?outs = Inr (map (\<lambda>a. the (env a)) ?outs)"
    by (intro mapM_eq_map) (fastforce simp: initialised_def)
  then show ?thesis by (simp add: run_plain_def ir m(1))
qed

section \<open>The graph of a straight-line program\<close>

lemma scheduled_nth:
  "scheduled known is \<Longrightarrow> k < length is \<Longrightarrow>
   (\<forall>m\<in>set (mem_inputs (is ! k)). m \<in> known \<or> (\<exists>j<k. m = hli_dst (is ! j))) \<and> hli_dst (is ! k) \<notin> known \<and>
   (\<forall>j<k. hli_dst (is ! j) \<noteq> hli_dst (is ! k))"
proof (induction "is" arbitrary: known k)
  case (Cons i "is")
  show ?case
  proof (cases k)
    case (Suc l)
    have "(\<forall>m\<in>set (mem_inputs (is ! l)). m \<in> insert (hli_dst i) known \<or> (\<exists>j<l. m = hli_dst (is ! j))) \<and>
        hli_dst (is ! l) \<notin> insert (hli_dst i) known \<and> (\<forall>j<l. hli_dst (is ! j) \<noteq> hli_dst (is ! l))"
      using Cons.prems Suc by (intro Cons.IH) simp_all
    then show ?thesis by (auto simp: Suc Ex_less_Suc2 All_less_Suc2)
  qed (use Cons.prems in auto)
qed simp

lemma scheduled_distinct: "scheduled known is \<Longrightarrow> distinct (map hli_dst is)"
  using scheduled_nth [of known "is"] unfolding distinct_conv_nth
  by (metis length_map linorder_neqE_nat nth_map)

lemma backward_edges_fold:
  fixes f :: "'a \<Rightarrow> nat"
  assumes "distinct (map f xs)"
  shows "(\<forall>j<length xs. fold (\<lambda>(i, x) b. b(f x \<mapsto> i)) (enumerate n xs) b (f (xs ! j)) = Some (n + j)) \<and>
    (\<forall>d. d \<notin> f ` set xs \<longrightarrow> fold (\<lambda>(i, x) b. b(f x \<mapsto> i)) (enumerate n xs) b d = b d)"
  using assms
proof (induction xs arbitrary: n b)
  case (Cons x xs)
  have "f x \<notin> f ` set xs" "distinct (map f xs)" using Cons.prems by auto
  then show ?case using Cons.IH [of "Suc n" "b(f x \<mapsto> n)"] by (simp add: All_less_Suc2)
qed simp

lemma build_backward_edges_iff:
  assumes "distinct (map hli_dst hlis)"
  shows "build_backward_edges (map FromHLI hlis) d = Some i \<longleftrightarrow> i < length hlis \<and> hli_dst (hlis ! i) = d"
proof -
  have "build_backward_edges (map FromHLI hlis) = fold (\<lambda>(i, x) b. b(hli_dst x \<mapsto> i)) (enumerate 0 hlis) Map.empty"
    unfolding build_backward_edges_def
    by (simp add: FromHLI_def fold_map enumerate_eq_zip zip_map2 comp_def case_prod_unfold)
  then have e: "\<forall>j<length hlis. build_backward_edges (map FromHLI hlis) (hli_dst (hlis ! j)) = Some j"
    and n: "d \<notin> hli_dst ` set hlis \<Longrightarrow> build_backward_edges (map FromHLI hlis) d = None"
    using backward_edges_fold [OF assms, of 0 Map.empty] by simp_all
  show ?thesis
  proof (cases "d \<in> hli_dst ` set hlis")
    case True
    then obtain j where "j < length hlis" "d = hli_dst (hlis ! j)" by (auto simp: in_set_conv_nth)
    then show ?thesis using e by (metis option.inject)
  next
    case False
    then show ?thesis using n nth_mem by fastforce
  qed
qed

lemma add_uses_ok:
  assumes "\<forall>m\<in>set srcs. m \<in> inputs \<or> b m \<noteq> None"
  shows "\<exists>f'. add_uses inputs b i srcs f = Inr f' \<and>
    (\<forall>d. set (f' d) = set (f d) \<union> (if \<exists>m\<in>set srcs. m \<notin> inputs \<and> b m = Some d then {i} else {}) \<and>
         (distinct (f d) \<longrightarrow> distinct (f' d)))"
  using assms
proof (induction srcs arbitrary: f)
  case (Cons src srcs)
  show ?case
  proof (cases "src \<in> inputs")
    case True
    then show ?thesis using Cons.IH [of f] Cons.prems by auto
  next
    case False
    then obtain d where d: "b src = Some d" using Cons.prems by auto
    let ?f = "f(d := List.insert i (f d))"
    obtain f' where f': "add_uses inputs b i srcs ?f = Inr f'"
      "\<forall>e. set (f' e) = set (?f e) \<union> (if \<exists>m\<in>set srcs. m \<notin> inputs \<and> b m = Some e then {i} else {}) \<and>
         (distinct (?f e) \<longrightarrow> distinct (f' e))"
      using Cons.IH [of ?f] Cons.prems by (simp only: list.set ball_simps) blast
    then show ?thesis using False d by (intro exI [of _ f']) auto
  qed
qed auto

lemma build_forward_edges_ok:
  assumes "\<forall>instr\<in>set instrs. \<forall>m\<in>set (used_vars instr). m \<in> inputs \<or> b m \<noteq> None"
  shows "\<exists>f'. build_forward_edges inputs b i instrs f = Inr f' \<and>
    (\<forall>d. set (f' d) = set (f d) \<union>
           {i + j |j. j < length instrs \<and> (\<exists>m\<in>set (used_vars (instrs ! j)). m \<notin> inputs \<and> b m = Some d)} \<and>
         (distinct (f d) \<longrightarrow> distinct (f' d)))"
  using assms
proof (induction instrs arbitrary: i f)
  case (Cons instr instrs)
  obtain f1 where f1: "add_uses inputs b i (used_vars instr) f = Inr f1"
    "\<forall>d. set (f1 d) = set (f d) \<union> (if \<exists>m\<in>set (used_vars instr). m \<notin> inputs \<and> b m = Some d then {i} else {}) \<and>
       (distinct (f d) \<longrightarrow> distinct (f1 d))"
    using add_uses_ok [of "used_vars instr" inputs b i f] Cons.prems by (simp only: list.set ball_simps) blast
  obtain f' where f': "build_forward_edges inputs b (Suc i) instrs f1 = Inr f'"
    "\<forall>d. set (f' d) = set (f1 d) \<union>
       {Suc i + j |j. j < length instrs \<and> (\<exists>m\<in>set (used_vars (instrs ! j)). m \<notin> inputs \<and> b m = Some d)} \<and>
       (distinct (f1 d) \<longrightarrow> distinct (f' d))"
    using Cons.IH [of "Suc i" f1] Cons.prems by (simp only: list.set ball_simps) blast
  have split: "{i + j |j. j < length (instr # instrs) \<and> P ((instr # instrs) ! j)} =
      (if P instr then {i} else {}) \<union> {Suc i + j |j. j < length instrs \<and> P (instrs ! j)}" for P
    by (auto simp: less_Suc_eq_0_disj)
  show ?case
  proof (intro exI [of _ f'] conjI allI)
    show "build_forward_edges inputs b i (instr # instrs) f = Inr f'" using f1(1) f'(1) by simp
    fix d
    show "distinct (f d) \<longrightarrow> distinct (f' d)" using f1(2) f'(2) by simp
    show "set (f' d) = set (f d) \<union> {i + j |j. j < length (instr # instrs) \<and>
        (\<exists>m\<in>set (used_vars ((instr # instrs) ! j)). m \<notin> inputs \<and> b m = Some d)}"
      unfolding split [of "\<lambda>x. \<exists>m\<in>set (used_vars x). m \<notin> inputs \<and> b m = Some d"]
      using f1(2) f'(2) by (simp add: Un_assoc)
  qed
qed simp

lemma FromHLI_simps [simp]:
  "ml_seq (FromHLI h) = [h]" "ml_inputs (FromHLI h) = mem_inputs h" "ml_outputs (FromHLI h) = [hli_dst h]"
  by (simp_all add: FromHLI_def)

text \<open>The node of one instruction is always one that the secure element can run.\<close>

lemma mlmi_ok_FromHLI: "scheduled (set (mem_inputs h)) [h] \<Longrightarrow> mlmi_ok (FromHLI h)"
  by (simp add: mlmi_ok_def)

lemma length_mem_operand: "length (mem_operand a) \<le> 1"
  by (cases a) auto

lemma length_mem_inputs: "length (mem_inputs h) \<le> 3"
proof -
  obtain opc d ss where h: "h = HLI opc d ss" by (cases h)
  show ?thesis
  proof (cases ss)
    case (HSrc1 a)
    then show ?thesis using length_mem_operand [of a] by (simp add: h)
  next
    case (HSrc2 a b)
    then show ?thesis using length_mem_operand [of a] length_mem_operand [of b] by (simp add: h)
  next
    case (HSrc3 a b c)
    then show ?thesis
      using length_mem_operand [of a] length_mem_operand [of b] length_mem_operand [of c] by (simp add: h)
  qed
qed

lemma node_ok_FromHLI:
  assumes "scheduled (set (mem_inputs h)) [h]" "mem_inputs h = [] \<longrightarrow> 0 \<in> set (ml_prog_inputs (prog g))"
  shows "node_ok g (FromHLI h)"
proof -
  have "3 \<le> REGISTER_COUNT - l_out" "1 \<le> l_out" "1 \<le> LLS_MAX_LENGTH" by code_simp+
  then show ?thesis
    using mlmi_ok_FromHLI [OF assms(1)] assms(2) length_mem_inputs [of h] by (simp add: node_ok_def)
qed

lemma initial_convertion_simps [simp]:
  "ml_instrs (initial_convertion_to_mlir hlis ins outs mc) = map FromHLI hlis"
  "ml_prog_inputs (initial_convertion_to_mlir hlis ins outs mc) = ins"
  "ml_prog_outputs (initial_convertion_to_mlir hlis ins outs mc) = outs"
  by (simp_all add: initial_convertion_to_mlir_def)

lemma scheduled_graph:
  assumes sch: "scheduled (set ins) hlis"
  obtains g where "build_graph (initial_convertion_to_mlir hlis ins outs mc) = Inr g"
    "prog g = initial_convertion_to_mlir hlis ins outs mc" "nodes g = [0..<length hlis]"
    "\<And>n. n < length hlis \<Longrightarrow> mlmi_of g n = FromHLI (hlis ! n)"
    "\<And>d i. backward_edges g d = Some i \<longleftrightarrow> i < length hlis \<and> hli_dst (hlis ! i) = d"
    "\<And>n. n < length hlis \<Longrightarrow> distinct (forward_edges g n) \<and>
       set (forward_edges g n) = {k. k < length hlis \<and> hli_dst (hlis ! n) \<in> set (mem_inputs (hlis ! k))}"
proof -
  let ?b = "build_backward_edges (map FromHLI hlis)"
  note N = scheduled_nth [OF sch]
  note b = build_backward_edges_iff [OF scheduled_distinct [OF sch]]
  have used: "set (used_vars (FromHLI (hlis ! k))) = set (mem_inputs (hlis ! k))" if "k < length hlis" for k
    using N [OF that] by (fastforce simp: used_vars_def)
  have "\<forall>instr\<in>set (map FromHLI hlis). \<forall>m\<in>set (used_vars instr). m \<in> set ins \<or> ?b m \<noteq> None"
  proof (intro ballI)
    fix instr m assume "instr \<in> set (map FromHLI hlis)" and m: "m \<in> set (used_vars instr)"
    then obtain k where k: "k < length hlis" "instr = FromHLI (hlis ! k)" by (auto simp: in_set_conv_nth)
    then have "m \<in> set ins \<or> (\<exists>j<k. m = hli_dst (hlis ! j))" using N [OF k(1)] m used by auto
    then show "m \<in> set ins \<or> ?b m \<noteq> None" using b k(1) by (metis less_trans option.distinct(1))
  qed
  from build_forward_edges_ok [OF this, of 0 "\<lambda>_. []"]
  obtain f where f: "build_forward_edges (set ins) ?b 0 (map FromHLI hlis) (\<lambda>_. []) = Inr f"
    "\<And>d. set (f d) = {j. j < length hlis \<and> (\<exists>m\<in>set (used_vars (map FromHLI hlis ! j)). m \<notin> set ins \<and> ?b m = Some d)}"
    "\<And>d. distinct (f d)" by auto
  have e: "set (f n) = {k. k < length hlis \<and> hli_dst (hlis ! n) \<in> set (mem_inputs (hlis ! k))}" if "n < length hlis" for n
    using that N [OF that] by (auto simp: f(2) used b)
  have "filter (\<lambda>i. list_ex (\<lambda>d. ?b d = Some i) (map hli_dst (ml_seq (map FromHLI hlis ! i)))) [0..<length hlis] =
      [0..<length hlis]"
    by (rule filter_True) (simp add: b)
  then have "build_graph (initial_convertion_to_mlir hlis ins outs mc) =
      Inr \<lparr>prog = initial_convertion_to_mlir hlis ins outs mc, mlmi_of = (!) (map FromHLI hlis),
        nodes = [0..<length hlis], backward_edges = ?b, forward_edges = f\<rparr>"
    using f(1) by (simp add: build_graph_def Let_def)
  then show thesis by (rule that) (simp_all add: f(3) e b)
qed

lemma scheduled_graph_ok:
  assumes "scheduled (set ins) hlis"
  obtains g where "build_graph (initial_convertion_to_mlir hlis ins outs mc) = Inr g"
    "prog g = initial_convertion_to_mlir hlis ins outs mc" "nodes g = [0..<length hlis]"
    "\<And>n. n < length hlis \<Longrightarrow> mlmi_of g n = FromHLI (hlis ! n)"
    "graph_ok g" "ranked id g" "check_dfg_integrity g"
    "\<And>d i. backward_edges g d = Some i \<longleftrightarrow> i < length hlis \<and> hli_dst (hlis ! i) = d"
    "\<And>n. n < length hlis \<Longrightarrow>
       set (forward_edges g n) = {k. k < length hlis \<and> hli_dst (hlis ! n) \<in> set (mem_inputs (hlis ! k))}"
proof (rule scheduled_graph [OF assms, of outs mc])
  fix g
  assume g: "build_graph (initial_convertion_to_mlir hlis ins outs mc) = Inr g"
    "prog g = initial_convertion_to_mlir hlis ins outs mc" "nodes g = [0..<length hlis]"
    and m: "\<And>n. n < length hlis \<Longrightarrow> mlmi_of g n = FromHLI (hlis ! n)"
    and b: "\<And>d i. backward_edges g d = Some i \<longleftrightarrow> i < length hlis \<and> hli_dst (hlis ! i) = d"
    and f: "\<And>n. n < length hlis \<Longrightarrow> distinct (forward_edges g n) \<and>
       set (forward_edges g n) = {k. k < length hlis \<and> hli_dst (hlis ! n) \<in> set (mem_inputs (hlis ! k))}"
  note N = scheduled_nth [OF assms]
  have dist: "hli_dst (hlis ! n) \<noteq> hli_dst (hlis ! k)" if "n < length hlis" "k < length hlis" "n \<noteq> k" for n k
    using N [OF that(1)] N [OF that(2)] that(3) by (metis linorder_neqE_nat)
  have ok: "graph_ok g" unfolding graph_ok_def using N dist by (auto simp: g m f)
  have rank: "ranked id g"
    unfolding ranked_def
  proof (intro ballI)
    fix k x assume k: "k \<in> set (nodes g)" and x: "x \<in> set (ml_inputs (mlmi_of g k))"
    then have k': "k < length hlis" and "x \<in> set (mem_inputs (hlis ! k))" by (simp_all add: g m)
    then have "x \<in> set ins \<or> (\<exists>j<k. x = hli_dst (hlis ! j))" using N by blast
    then show "x \<in> set (ml_prog_inputs (prog g)) \<or>
        (\<exists>n\<in>set (nodes g). x \<in> set (ml_outputs (mlmi_of g n)) \<and> id n < id k)"
      using k' by (auto simp: g m)
  qed
  have "x \<in> set ins \<or> (\<exists>d. backward_edges g x = Some d \<and> d < length hlis \<and> n \<in> set (forward_edges g d))"
    if "n < length hlis" "x \<in> set (mem_inputs (hlis ! n))" for n x
  proof -
    have "x \<in> set ins \<or> (\<exists>j<n. x = hli_dst (hlis ! j))" using N that by blast
    then show ?thesis
    proof
      assume "\<exists>j<n. x = hli_dst (hlis ! j)"
      then obtain j where "j < n" "x = hli_dst (hlis ! j)" by blast
      then have "backward_edges g x = Some j" "n \<in> set (forward_edges g j)" using that by (simp_all add: b f)
      then show ?thesis using \<open>j < n\<close> that(1) by auto
    qed simp
  qed
  then have "check_dfg_integrity g"
    unfolding check_dfg_integrity_def list_all_iff by (fastforce simp: g m f)
  then show thesis using that [OF g m ok rank _ b] f by simp
qed

lemma hl_value_cong: "\<forall>m\<in>set (mem_operand a). env m = env' m \<Longrightarrow> hl_value env a = hl_value env' a"
  by (cases a) auto

lemma hl_values_cong:
  "\<forall>m\<in>set (concat (map mem_operand (hl_operands s))). env m = env' m \<Longrightarrow> hl_values env s = hl_values env' s"
  by (cases s) (auto simp: hl_value_cong [of _ env env'])

text \<open>A memory that the instruction does not change is one that its node does not change.\<close>

lemma eval_FromHLI:
  assumes "exec_hli h env = Inr env" "case h of HLI opcode _ _ \<Rightarrow> opcode \<noteq> O_NOP"
  shows "eval_mlmi (FromHLI h) env = Inr env"
proof -
  obtain opc d s where h: "h = HLI opc d s" by (cases h)
  obtain a b c v where v: "hl_values env s = Inr (a, b, c)" "alu opc a b c = Inr v" "env(d \<mapsto> v) = env"
    using assms by (auto simp: h res_simps)
  have "hl_values (env |` set (mem_inputs h)) s = hl_values env s"
    by (rule hl_values_cong) (simp add: h)
  then show ?thesis using assms(2) v
    by (simp add: h eval_mlmi_def store_plain_def initialised_def)
qed

lemma run_hlis_consistent:
  assumes "scheduled known is" "foldM exec_hli is m = Inr env"
  shows "(\<forall>a\<in>known. env a = m a) \<and> (\<forall>h\<in>set is. exec_hli h env = Inr env \<and> (case h of HLI opcode _ _ \<Rightarrow> opcode \<noteq> O_NOP))"
  using assms
proof (induction "is" arbitrary: known m)
  case (Cons i "is")
  obtain opc d s where i: "i = HLI opc d s" by (cases i)
  obtain a b c v where v: "hl_values m s = Inr (a, b, c)" "alu opc a b c = Inr v"
      "foldM exec_hli is (m(d \<mapsto> v)) = Inr env" and opc: "opc \<noteq> O_NOP"
    using Cons.prems by (auto simp: i res_simps)
  have "scheduled (insert d known) is" using Cons.prems(1) by (simp add: i)
  note IH = Cons.IH [OF this v(3)]
  have d: "d \<notin> known" "set (mem_inputs i) \<subseteq> known" using Cons.prems(1) by (simp_all add: i)
  then have same: "\<forall>x\<in>known. env x = m x" and dv: "env d = Some v" using IH by auto
  have "hl_values env s = hl_values m s" using same d(2) by (intro hl_values_cong) (auto simp: i)
  then have "exec_hli i env = Inr (env(d \<mapsto> v))" using v opc by (simp add: i)
  moreover have "env(d \<mapsto> v) = env" using dv by (simp add: fun_upd_idem)
  ultimately show ?case using IH same opc by (simp add: i)
qed simp

section \<open>Properties\<close>

text \<open>
  C11: the work list of \<^verbatim>\<open>to_LLIR\<close> ends and reaches every node: on a graph without cycles, whatever
  order \<^verbatim>\<open>set.pop\<close> gives, as many rounds as there are nodes and edges are enough, and the result is a
  program or the error of the register allocation of a node, never that a node was not scheduled.
\<close>

theorem to_LLIR_complete:
  assumes "graph_ok g" and "ranked rank g" and "\<And>F. F \<noteq> [] \<Longrightarrow> pop_node F \<in> set F"
    and "length (nodes g) + sum_list (map (\<lambda>n. length (forward_edges g n)) (nodes g)) \<le> fuel"
  shows "(\<exists>ir. to_LLIR pop_reg pop_node r lo fuel g = Some (Inr ir)) \<or>
    (\<exists>e. to_LLIR pop_reg pop_node r lo fuel g = Some (Inl e) \<and>
       (\<exists>n\<in>set (nodes g). MLMI_to_LLMI pop_reg (mlmi_of g n) r lo = Inl e))"
proof -
  let ?todo = "filter (\<lambda>n. node_is_ready (start g) (mlmi_of g n)) (nodes g)"
  have w: "work g ?todo (start g) \<le> fuel"
    using work_start [OF assms(1)] assms(4) by (rule le_trans)
  have "(\<exists>st'. todo_loop pop_reg pop_node r lo g fuel ?todo (start g) = Some (Inr st') \<and> sched_inv g [] st') \<or>
    (\<exists>e. todo_loop pop_reg pop_node r lo g fuel ?todo (start g) = Some (Inl e) \<and>
       (\<exists>n\<in>set (nodes g). MLMI_to_LLMI pop_reg (mlmi_of g n) r lo = Inl e))"
    by (rule todo_loop_ends [OF assms(1,3) sched_inv_start [OF assms(1)] w])
  then show ?thesis
  proof (elim disjE exE conjE)
    fix st assume st: "todo_loop pop_reg pop_node r lo g fuel ?todo (start g) = Some (Inr st)" "sched_inv g [] st"
    then have "list_all (\<lambda>n. n \<in> set (done_nodes st)) (nodes g)"
      using all_scheduled [OF st(2) assms(2)] by (simp add: list_all_iff)
    then show ?thesis using st(1) by (simp add: to_LLIR_def)
  next
    fix e assume "todo_loop pop_reg pop_node r lo g fuel ?todo (start g) = Some (Inl e)"
      "\<exists>n\<in>set (nodes g). MLMI_to_LLMI pop_reg (mlmi_of g n) r lo = Inl e"
    then show ?thesis by (simp add: to_LLIR_def)
  qed
qed

text \<open>The program \<^verbatim>\<open>x = a + b; y = x * a\<close>.\<close>

definition two_hlis :: "HLI list" where
  "two_hlis = [HLI O_ADD 2 (HSrc2 (HMem 0) (HMem 1)), HLI O_MUL 3 (HSrc2 (HMem 2) (HMem 0))]"

definition two_nodes :: MLIRProgram where
  "two_nodes = initial_convertion_to_mlir two_hlis [0, 1] [3] 4"

lemma two_hlis_scheduled: "scheduled (set [0, 1]) two_hlis"
  by (simp add: two_hlis_def)

lemma two_hlis_run: "foldM exec_hli two_hlis (store_plain [0, 1] [3, 4] Map.empty) = Inr [0 \<mapsto> 3, 1 \<mapsto> 4, 2 \<mapsto> 7, 3 \<mapsto> 21]"
  by (simp add: two_hlis_def store_plain_def initialised_def)

theorem to_LLIR_complete_witness:
  "\<exists>g. build_graph two_nodes = Inr g \<and> graph_ok g \<and> ranked id g \<and>
     ((\<exists>ir. to_LLIR last hd 40 8 10 g = Some (Inr ir)) \<or>
      (\<exists>e. to_LLIR last hd 40 8 10 g = Some (Inl e) \<and>
         (\<exists>n\<in>set (nodes g). MLMI_to_LLMI last (mlmi_of g n) 40 8 = Inl e)))"
proof (rule scheduled_graph_ok [OF two_hlis_scheduled, of "[3]" 4])
  fix g assume g: "build_graph (initial_convertion_to_mlir two_hlis [0, 1] [3] 4) = Inr g" "graph_ok g" "ranked id g"
    "nodes g = [0..<length two_hlis]"
  have "(case build_graph two_nodes of Inr g \<Rightarrow>
      length (nodes g) + sum_list (map (\<lambda>n. length (forward_edges g n)) (nodes g)) | _ \<Rightarrow> 99) \<le> 10"
    by code_simp
  then have "length (nodes g) + sum_list (map (\<lambda>n. length (forward_edges g n)) (nodes g)) \<le> 10"
    using g(1) by (simp add: two_nodes_def)
  from to_LLIR_complete [OF g(2,3) hd_in_set this, of last 40 8] show ?thesis
    using g by (intro exI [of _ g]) (simp add: two_nodes_def)
qed

text \<open>
  C12: the graph of a straight-line program is right: when every cell is written once and before it
  is read, \<^verbatim>\<open>build_graph\<close> gives a graph with a node for every instruction and no other, in which every
  cell written has the edge back to its instruction and every instruction the edges to exactly the
  instructions that read its cell; the graph has no cycles and passes \<^verbatim>\<open>check_dfg_integrity\<close>, and a memory is
  the one its nodes describe when it is the one after the instructions.
\<close>

theorem build_graph_correct:
  assumes "scheduled (set ins) hlis"
    and "foldM exec_hli hlis (store_plain ins inps Map.empty) = Inr env" and "length inps = length ins" "distinct ins"
  shows "\<exists>g. build_graph (initial_convertion_to_mlir hlis ins outs mc) = Inr g \<and>
    nodes g = [0..<length hlis] \<and> (\<forall>n<length hlis. mlmi_of g n = FromHLI (hlis ! n)) \<and>
    prog g = initial_convertion_to_mlir hlis ins outs mc \<and>
    (\<forall>d i. backward_edges g d = Some i \<longleftrightarrow> i < length hlis \<and> hli_dst (hlis ! i) = d) \<and>
    (\<forall>n<length hlis. set (forward_edges g n) = {k. k < length hlis \<and> hli_dst (hlis ! n) \<in> set (mem_inputs (hlis ! k))}) \<and>
    graph_ok g \<and> ranked id g \<and> check_dfg_integrity g \<and> consistent g inps env"
proof (rule scheduled_graph_ok [OF assms(1), of outs mc])
  fix g assume g: "build_graph (initial_convertion_to_mlir hlis ins outs mc) = Inr g"
    "prog g = initial_convertion_to_mlir hlis ins outs mc" "nodes g = [0..<length hlis]"
    "\<And>n. n < length hlis \<Longrightarrow> mlmi_of g n = FromHLI (hlis ! n)" "graph_ok g" "ranked id g" "check_dfg_integrity g"
    "\<And>d i. backward_edges g d = Some i \<longleftrightarrow> i < length hlis \<and> hli_dst (hlis ! i) = d"
    "\<And>n. n < length hlis \<Longrightarrow>
       set (forward_edges g n) = {k. k < length hlis \<and> hli_dst (hlis ! n) \<in> set (mem_inputs (hlis ! k))}"
  note c = run_hlis_consistent [OF assms(1,2)]
  have "map env ins = map (store_plain ins inps Map.empty) ins" using c by simp
  then have "map env ins = map Some inps" using store_plain_same assms(3,4) by metis
  then have "consistent g inps env"
    using c eval_FromHLI by (auto simp: consistent_def g list_all_iff)
  then show ?thesis using g by (intro exI [of _ g]) simp
qed

theorem build_graph_correct_witness:
  "\<exists>g. build_graph two_nodes = Inr g \<and> nodes g = [0, 1] \<and> graph_ok g \<and> ranked id g \<and> check_dfg_integrity g \<and>
     consistent g [3, 4] [0 \<mapsto> 3, 1 \<mapsto> 4, 2 \<mapsto> 7, 3 \<mapsto> 21]"
proof -
  have "[0..<length two_hlis] = [0, 1]" by (simp add: two_hlis_def upt_rec)
  then show ?thesis using build_graph_correct [OF two_hlis_scheduled two_hlis_run, of "[3]" 4]
    unfolding two_nodes_def by auto
qed

end
