(* ===== verification/Compiled_Programs.thy ===== *)
theory Compiled_Programs
  imports Dataflow_Graph End_to_End
begin

text \<open>
  From the dataflow graph of the compiler to the outputs of the interpreter: the graph is lowered
  (\<open>Dataflow_Graph\<close>, \<open>Lowering\<close>), the program is serialized (\<open>Program_Serializer\<close>) and interpreted on
  the secure element (\<open>Interpreter\<close>, \<open>End_to_End\<close>).
\<close>

section \<open>An example\<close>

text \<open>The program \<open>two_nodes\<close> lowered: one multi-instruction for each node.\<close>

definition two_llmis :: LLIRProgram where
  "two_llmis =
     \<lparr>ir_instrs =
        [\<lparr>ir_seq = [LLI O_ADD 32 (Src2 (RegOperand 0) (RegOperand 1))], ir_inputs = [0, 1], ir_outputs = [2]\<rparr>,
         \<lparr>ir_seq = [LLI O_MUL 32 (Src2 (RegOperand 0) (RegOperand 1))], ir_inputs = [2, 0], ir_outputs = [3]\<rparr>],
      ir_prog_inputs = [0, 1], ir_prog_outputs = [3], ir_memory_count = 4\<rparr>"

lemma lower_two_nodes:
  "(case build_graph two_nodes of Inr g \<Rightarrow> to_LLIR last hd REGISTER_COUNT l_out 5 g | Inl _ \<Rightarrow> None) =
   Some (Inr two_llmis)"
  by code_simp

lemma serialize_two_llmis: "length key = 16 \<Longrightarrow> \<exists>bc. serialize ct key two_llmis = Some bc"
  by (simp add: serialize_def two_llmis_def Let_def small_byte_lengths py_byte_length_def ceil_log2_def ilog2_numeral
      ilog2.simps [of "Suc 0"] serialize_metadata_eq serialize_llmi_def input_ids_def output_ids_def create_memdict_def
      uint_tobytes_def config_defs id_bytes_def length_aenc byte_simps)

lemma two_nodes_ok:
  assumes "build_graph two_nodes = Inr g"
  shows "outputs_defined g \<and> list_all (\<lambda>n. node_ok g (mlmi_of g n)) (nodes g) \<and>
    ml_prog_outputs (prog g) = [3] \<and> ml_memory_count (prog g) = 4"
proof (rule scheduled_graph_ok [OF two_hlis_scheduled, of "[3]" 4])
  fix h assume "build_graph (initial_convertion_to_mlir two_hlis [0, 1] [3] 4) = Inr h"
    and h: "prog h = initial_convertion_to_mlir two_hlis [0, 1] [3] 4" "nodes h = [0..<length two_hlis]"
    "\<And>n. n < length two_hlis \<Longrightarrow> mlmi_of h n = FromHLI (two_hlis ! n)"
  then have "g = h" using assms by (simp add: two_nodes_def)
  moreover have "nodes h = [0, 1]" "mlmi_of h 0 = FromHLI (two_hlis ! 0)" "mlmi_of h 1 = FromHLI (two_hlis ! 1)"
    using h(2,3) by (simp_all add: two_hlis_def upt_rec)
  moreover have "node_ok h (FromHLI (two_hlis ! 0))" "node_ok h (FromHLI (two_hlis ! 1))"
    by (rule node_ok_FromHLI; simp add: two_hlis_def)+
  ultimately show ?thesis
    by (simp add: h(1) outputs_defined_def ready_cells_def outs_of_def two_hlis_def initial_convertion_to_mlir_def)
qed

section \<open>Properties\<close>

text \<open>
  C9: compiled programs run as they mean, under conditions on the graph: its nodes are within the sizes of
  the secure element and ones that register allocation is right for (each cell written once and
  before it is read; in a node with temporary cells, the inputs that are read first and no temporary
  written after the last read of an output that is read), and in the lowered program no cell in
  clear is read and all outputs are in clear. If such a graph is lowered, whatever choices \<^verbatim>\<open>set.pop\<close>
  makes, and serialized, with 2 to 16777216 cells, the interpreter returns the outputs of the memory that the nodes
  describe.
\<close>

theorem compiled_program_runs:
  assumes "graph_ok g" "outputs_defined g" "list_all (\<lambda>n. node_ok g (mlmi_of g n)) (nodes g)"
    and "consistent g inps env"
    and "\<And>F. F \<noteq> [] \<Longrightarrow> pop_reg F \<in> set F" "\<And>F. F \<noteq> [] \<Longrightarrow> pop_node F \<in> set F"
    and "to_LLIR pop_reg pop_node REGISTER_COUNT l_out fuel g = Some (Inr ir)"
    and "serialize ct key ir = Some bc" and "2 \<le> ml_memory_count (prog g)" "ml_memory_count (prog g) \<le> 2 ^ 24"
    and "length ct = 64" and "seal_open ct pubkey prvkey = Some key" and "length key = 16"
    and "reveal_ok (ml_prog_outputs (prog g)) {} (ir_instrs ir)"
  shows "interpret_bytecode seal_open bc (map Some inps) (of_nat (length inps))
      (of_nat (length (ml_prog_outputs (prog g)))) = Inr (map (\<lambda>a. the (env a)) (ml_prog_outputs (prog g)))"
proof -
  let ?outs = "map (\<lambda>a. the (env a)) (ml_prog_outputs (prog g))"
  have run: "run_plain ir inps = Inr ?outs" by (rule to_LLIR_run [OF assms(1-7)])
  have ir: "ir_memory_count ir = ml_memory_count (prog g)" "ir_prog_outputs ir = ml_prog_outputs (prog g)"
      "ir_prog_inputs ir = ml_prog_inputs (prog g)"
    using assms(7) by (auto simp: to_LLIR_def py_simps split: if_splits)
  have "map env (ml_prog_inputs (prog g)) = map Some inps" using assms(4) by (simp add: consistent_def)
  then have "length inps = length (ir_prog_inputs ir)" unfolding ir by (metis length_map)
  then have "interpret_bytecode seal_open bc (map Some inps) (of_nat (length inps)) (of_nat (length ?outs)) = Inr ?outs"
    using assms(8-14) run ir by (intro interpret_serialized_run [of ct key ir]) simp_all
  then show ?thesis by simp
qed

theorem compiled_program_runs_witness:
  "\<exists>bc. serialize (replicate 64 0) (replicate 16 1) two_llmis = Some bc \<and>
     interpret_bytecode (\<lambda>_ _ _. Some (replicate 16 1)) bc [Some 3, Some 4] 2 1 = Inr [21]"
proof (rule scheduled_graph_ok [OF two_hlis_scheduled, of "[3]" 4])
  obtain bc where bc: "serialize (replicate 64 0) (replicate 16 1) two_llmis = Some bc"
    using serialize_two_llmis by fastforce
  let ?env = "[0 \<mapsto> 3, 1 \<mapsto> 4, 2 \<mapsto> 7, 3 \<mapsto> 21] :: plain"
  fix g assume g: "build_graph (initial_convertion_to_mlir two_hlis [0, 1] [3] 4) = Inr g" "graph_ok g"
    "prog g = initial_convertion_to_mlir two_hlis [0, 1] [3] 4" "nodes g = [0..<length two_hlis]"
    "\<And>n. n < length two_hlis \<Longrightarrow> mlmi_of g n = FromHLI (two_hlis ! n)"
  have ok: "outputs_defined g" "list_all (\<lambda>n. node_ok g (mlmi_of g n)) (nodes g)"
      "ml_prog_outputs (prog g) = [3]" "ml_memory_count (prog g) = 4"
    using two_nodes_ok g(1) by (simp_all add: two_nodes_def)
  have l: "to_LLIR last hd REGISTER_COUNT l_out 5 g = Some (Inr two_llmis)"
    using lower_two_nodes g(1) by (simp add: two_nodes_def)
  have env: "consistent g [3, 4] ?env"
    using run_hlis_consistent [OF two_hlis_scheduled two_hlis_run] eval_FromHLI g(4,5)
    by (auto simp: consistent_def g(3) list_all_iff)
  have rev: "reveal_ok (ml_prog_outputs (prog g)) {} (ir_instrs two_llmis)"
    by (simp add: ok two_llmis_def clear_cells_def reveal_def)
  have "interpret_bytecode (\<lambda>_ _ _. Some (replicate 16 1)) bc (map Some [3, 4]) (of_nat (length [3 :: uSE, 4]))
      (of_nat (length (ml_prog_outputs (prog g)))) = Inr (map (\<lambda>a. the (?env a)) (ml_prog_outputs (prog g)))"
    by (rule compiled_program_runs [OF g(2) ok(1,2) env last_in_set hd_in_set l bc _ _ _ _ _ rev])
      (simp_all add: ok)
  then show ?thesis using bc by (simp add: ok)
qed

end
