(* ===== verification/Compiler_Binding.thy ===== *)
theory Compiler_Binding
  imports Schwaemm
begin

text \<open>
  The cipher as the compiler calls it: the copy of SCHWAEMM in
  \<^verbatim>\<open>compiler/schwaemm/schwaemm/schwaemm.c\<close>, whose functions call the permutation \<^verbatim>\<open>sparkle\<close> of
  that directory where those of the runtime call \<^verbatim>\<open>schwaemm_sparkle\<close> (the other functions of the
  file are the runtime's, character for character), and the functions of \<^verbatim>\<open>wrapper.c\<close> that the
  Python code of the compiler reaches through SWIG.
\<close>

section \<open>schwaemm.c\<close>

definition c_Initialize :: "schwaemm_inst \<Rightarrow> u8 list \<Rightarrow> u8 list \<Rightarrow> u32 list" where
  "c_Initialize inst key nonce =
     (let state = words_of_bytes (take (SCHWAEMM_NONCE_BYTES inst) nonce) @
                  words_of_bytes (take (SCHWAEMM_KEY_BYTES inst) key)
      in sparkle state (STATE_BRANS inst) (STEPS_BIG inst))"

function c_assoc_loop ::
    "schwaemm_inst \<Rightarrow> bool \<Rightarrow> u32 list \<Rightarrow> u8 list \<Rightarrow> u32 list \<times> u8 list" where
  "c_assoc_loop inst aligned state inp =
     (if length inp > RATE_BYTES inst
      then let state = rho_whi_aut inst state inp aligned;
               state = sparkle state (STATE_BRANS inst) (STEPS_SLIM inst)
           in c_assoc_loop inst aligned state (drop (RATE_BYTES inst) inp)
      else (state, inp))"
  by pat_completeness auto
termination
  by (relation "measure (\<lambda>(inst, aligned, state, inp). length inp)") auto

definition c_ProcessAssocData :: "schwaemm_inst \<Rightarrow> u32 list \<Rightarrow> u8 list \<Rightarrow> bool \<Rightarrow> u32 list" where
  "c_ProcessAssocData inst state inp aligned =
     (let (state, inp) = c_assoc_loop inst aligned state inp;
          l = STATE_WORDS inst - 1;
          state = state[l := state ! l XOR
                    (if length inp < RATE_BYTES inst then CONST_A0 inst else CONST_A1 inst)];
          state = rho_whi_aut_last inst state inp
      in sparkle state (STATE_BRANS inst) (STEPS_BIG inst))"

function c_enc_loop ::
    "schwaemm_inst \<Rightarrow> bool \<Rightarrow> u32 list \<Rightarrow> u8 list \<Rightarrow> u8 list \<Rightarrow> u32 list \<times> u8 list \<times> u8 list" where
  "c_enc_loop inst aligned state out inp =
     (if length inp > RATE_BYTES inst
      then let (state, blk) = rho_whi_enc inst state inp aligned;
               state = sparkle state (STATE_BRANS inst) (STEPS_SLIM inst)
           in c_enc_loop inst aligned state (out @ blk) (drop (RATE_BYTES inst) inp)
      else (state, out, inp))"
  by pat_completeness auto
termination
  by (relation "measure (\<lambda>(inst, aligned, state, out, inp). length inp)") auto

definition c_ProcessPlainText ::
    "schwaemm_inst \<Rightarrow> u32 list \<Rightarrow> u8 list \<Rightarrow> bool \<Rightarrow> u32 list \<times> u8 list" where
  "c_ProcessPlainText inst state inp aligned =
     (let (state, out, inp) = c_enc_loop inst aligned state [] inp;
          l = STATE_WORDS inst - 1;
          state = state[l := state ! l XOR
                    (if length inp < RATE_BYTES inst then CONST_M2 inst else CONST_M3 inst)];
          (state, blk) = rho_whi_enc_last inst state inp
      in (sparkle state (STATE_BRANS inst) (STEPS_BIG inst), out @ blk))"

function c_dec_loop ::
    "schwaemm_inst \<Rightarrow> bool \<Rightarrow> u32 list \<Rightarrow> u8 list \<Rightarrow> u8 list \<Rightarrow> u32 list \<times> u8 list \<times> u8 list" where
  "c_dec_loop inst aligned state out inp =
     (if length inp > RATE_BYTES inst
      then let (state, blk) = rho_whi_dec inst state inp aligned;
               state = sparkle state (STATE_BRANS inst) (STEPS_SLIM inst)
           in c_dec_loop inst aligned state (out @ blk) (drop (RATE_BYTES inst) inp)
      else (state, out, inp))"
  by pat_completeness auto
termination
  by (relation "measure (\<lambda>(inst, aligned, state, out, inp). length inp)") auto

definition c_ProcessCipherText ::
    "schwaemm_inst \<Rightarrow> u32 list \<Rightarrow> u8 list \<Rightarrow> bool \<Rightarrow> u32 list \<times> u8 list" where
  "c_ProcessCipherText inst state inp aligned =
     (let (state, out, inp) = c_dec_loop inst aligned state [] inp;
          l = STATE_WORDS inst - 1;
          state = state[l := state ! l XOR
                    (if length inp < RATE_BYTES inst then CONST_M2 inst else CONST_M3 inst)];
          (state, blk) = rho_whi_dec_last inst state inp
      in (sparkle state (STATE_BRANS inst) (STEPS_BIG inst), out @ blk))"

definition c_crypto_aead_encrypt ::
    "schwaemm_inst \<Rightarrow> bool \<times> bool \<Rightarrow> u8 list \<Rightarrow> u8 list \<Rightarrow> u8 list \<Rightarrow> u8 list \<Rightarrow> u8 list" where
  "c_crypto_aead_encrypt inst al m ad npub k =
     (let state = c_Initialize inst k npub;
          state = (if length ad \<noteq> 0 then c_ProcessAssocData inst state ad (fst al) else state);
          (state, c) = (if length m \<noteq> 0 then c_ProcessPlainText inst state m (snd al)
                        else (state, []));
          state = Finalize inst state k
      in c @ GenerateTag inst state)"

definition c_crypto_aead_decrypt ::
    "schwaemm_inst \<Rightarrow> bool \<times> bool \<Rightarrow> u8 list \<Rightarrow> u8 list \<Rightarrow> u8 list \<Rightarrow> u8 list \<Rightarrow>
     (int \<times> u8 list) res" where
  "c_crypto_aead_decrypt inst al c ad npub k =
     (if length c < SCHWAEMM_TAG_BYTES inst then Inl OutOfBounds
      else let csize = length c - SCHWAEMM_TAG_BYTES inst;
               state = c_Initialize inst k npub;
               state = (if length ad \<noteq> 0 then c_ProcessAssocData inst state ad (fst al) else state);
               (state, m) = (if csize \<noteq> 0 then c_ProcessCipherText inst state (take csize c) (snd al)
                             else (state, []));
               state = Finalize inst state k;
               retval = VerifyTag inst state (drop csize c)
           in Inr (retval, m))"

declare c_assoc_loop.simps [simp del] c_enc_loop.simps [simp del] c_dec_loop.simps [simp del]

section \<open>wrapper.c\<close>

text \<open>
  The value left in \<^verbatim>\<open>*c\<close> or \<^verbatim>\<open>*m\<close> (\<open>None\<close> is \<^verbatim>\<open>NULL\<close>) and in \<^verbatim>\<open>*clen\<close> or \<^verbatim>\<open>*mlen\<close>, a
  \<^verbatim>\<open>long long\<close>. Whether \<^verbatim>\<open>malloc\<close> returns memory for a number of bytes is the parameter
  \<open>alloc\<close>; its argument is a \<^verbatim>\<open>size_t\<close>, so a negative length is a very large one.
\<close>

definition size_t :: "int \<Rightarrow> nat" where
  "size_t n = nat (n mod 2 ^ 64)"

definition schwaemm128128_encrypt ::
    "(nat \<Rightarrow> bool) \<Rightarrow> bool \<times> bool \<Rightarrow> u8 list \<Rightarrow> u8 list \<Rightarrow> u8 list \<Rightarrow> u8 list \<Rightarrow> u8 list option \<times> int" where
  "schwaemm128128_encrypt alloc al m ad nonce key =
     (let clen = int (length m) + int (SCHWAEMM_TAG_BYTES SCHWAEMM_INST)
      in if \<not> alloc (size_t clen) then (None, clen)
         else let c = c_crypto_aead_encrypt SCHWAEMM_INST al m ad nonce key in (Some c, int (length c)))"

text \<open>
  The test \<^verbatim>\<open>mlen < 0\<close> compares the pointer, not the length, and is never true. When the tag is
  not right the message is freed and \<^verbatim>\<open>*mlen\<close> keeps the length.
\<close>

definition schwaemm128128_decrypt ::
    "(nat \<Rightarrow> bool) \<Rightarrow> bool \<times> bool \<Rightarrow> u8 list \<Rightarrow> u8 list \<Rightarrow> u8 list \<Rightarrow> u8 list \<Rightarrow> (u8 list option \<times> int) res" where
  "schwaemm128128_decrypt alloc al c ad nonce key =
     (let mlen = int (length c) - int (SCHWAEMM_TAG_BYTES SCHWAEMM_INST)
      in if \<not> alloc (size_t mlen) then Inr (None, mlen)
         else bindr (c_crypto_aead_decrypt SCHWAEMM_INST al c ad nonce key) (\<lambda>(ret, m).
                if ret \<noteq> 0 then Inr (None, int (length m)) else Inr (Some m, int (length m))))"

section \<open>The copy and the runtime agree\<close>

lemma c_Initialize_eq: "c_Initialize = Initialize"
  by (simp add: fun_eq_iff c_Initialize_def Initialize_def schwaemm_sparkle_def)

lemma c_assoc_loop_eq: "c_assoc_loop inst al s inp = assoc_loop inst al s inp"
proof (induction inst al s inp rule: assoc_loop.induct)
  case (1 inst al s inp)
  then show ?case
    by (simp add: c_assoc_loop.simps [of inst al s inp] assoc_loop.simps [of inst al s inp] schwaemm_sparkle_def Let_def)
qed

lemma c_enc_loop_eq: "c_enc_loop inst al s out inp = enc_loop inst al s out inp"
proof (induction inst al s out inp rule: enc_loop.induct)
  case (1 inst al s out inp)
  then show ?case
    by (simp add: c_enc_loop.simps [of inst al s out inp] enc_loop.simps [of inst al s out inp] schwaemm_sparkle_def Let_def
        split: prod.splits)
qed

lemma c_dec_loop_eq: "c_dec_loop inst al s out inp = dec_loop inst al s out inp"
proof (induction inst al s out inp rule: dec_loop.induct)
  case (1 inst al s out inp)
  then show ?case
    by (simp add: c_dec_loop.simps [of inst al s out inp] dec_loop.simps [of inst al s out inp] schwaemm_sparkle_def Let_def
        split: prod.splits)
qed

lemma c_Process_eq:
  "c_ProcessAssocData = ProcessAssocData" "c_ProcessPlainText = ProcessPlainText" "c_ProcessCipherText = ProcessCipherText"
  by (simp_all add: fun_eq_iff c_ProcessAssocData_def ProcessAssocData_def c_ProcessPlainText_def ProcessPlainText_def
      c_ProcessCipherText_def ProcessCipherText_def c_assoc_loop_eq c_enc_loop_eq c_dec_loop_eq schwaemm_sparkle_def)

lemma c_crypto_aead_encrypt_eq: "c_crypto_aead_encrypt = crypto_aead_encrypt"
  by (simp add: fun_eq_iff c_crypto_aead_encrypt_def crypto_aead_encrypt_def c_Initialize_eq c_Process_eq Let_def)

lemma c_crypto_aead_decrypt_eq: "c_crypto_aead_decrypt = crypto_aead_decrypt"
  by (simp add: fun_eq_iff c_crypto_aead_decrypt_def crypto_aead_decrypt_def c_Initialize_eq c_Process_eq Let_def)

interpretation binding: aead
  "c_crypto_aead_encrypt inst al" "c_crypto_aead_decrypt inst al" "key_nonce_ok inst" "SCHWAEMM_TAG_BYTES inst"
  for inst al
  unfolding c_crypto_aead_encrypt_eq c_crypto_aead_decrypt_eq by (rule schwaemm.aead_axioms)

section \<open>Properties\<close>

text \<open>
  C23: what the compiler encrypts through the wrapper the runtime decrypts. For a key of 16 and a nonce
  of 32 bytes the wrapper leaves \<^verbatim>\<open>NULL\<close> only if there is no memory, and otherwise a ciphertext
  that is one tag longer than the message, with its length in \<^verbatim>\<open>*clen\<close>, and that the cipher of
  the runtime accepts with the same associated data, nonce and key, returning the message,
  whatever the alignment of the buffers on the two sides.
\<close>

theorem wrapper_runtime_roundtrip:
  assumes "length nonce = 32" "length key = 16" "alloc (size_t (int (length m) + 16))"
  shows "\<exists>c. schwaemm128128_encrypt alloc al m ad nonce key = (Some c, int (length m) + 16) \<and>
    length c = length m + 16 \<and> crypto_aead_decrypt SCHWAEMM_INST al' c ad nonce key = Inr (0, m)"
proof -
  have ok: "key_nonce_ok SCHWAEMM_INST nonce key" using assms by (simp add: key_nonce_ok_def SCHWAEMM_INST_def)
  have tag: "SCHWAEMM_TAG_BYTES SCHWAEMM_INST = 16" by (simp add: SCHWAEMM_INST_def)
  let ?c = "crypto_aead_encrypt SCHWAEMM_INST al m ad nonce key"
  have "crypto_aead_decrypt SCHWAEMM_INST al' ?c ad nonce key = Inr (0, m)"
    using ok by (simp add: key_nonce_ok_def encrypt_decrypt_res)
  moreover have "length ?c = length m + 16" using schwaemm.length_enc [OF ok] by (simp add: tag)
  ultimately show ?thesis using assms(3) by (simp add: schwaemm128128_encrypt_def c_crypto_aead_encrypt_eq tag Let_def)
qed

theorem wrapper_runtime_roundtrip_witness:
  "\<exists>c. schwaemm128128_encrypt (\<lambda>n. n < 1000) (False, True) [1, 2, 3] [4] (replicate 32 0) (replicate 16 1) =
       (Some c, int (length [1, 2, 3 :: u8]) + 16) \<and>
    length c = length [1, 2, 3 :: u8] + 16 \<and>
    crypto_aead_decrypt SCHWAEMM_INST (True, True) c [4] (replicate 32 0) (replicate 16 1) = Inr (0, [1, 2, 3])"
  by (rule wrapper_runtime_roundtrip) (simp_all add: size_t_def)

text \<open>
  C24: the wrapper's decryption hands out a message exactly for the encryptions of it, as long as there is
  memory; a ciphertext shorter than a tag, which the test \<^verbatim>\<open>mlen < 0\<close> was meant to refuse, is refused
  only because no memory is to be had for the length it wraps around to, and is read out of
  bounds otherwise.
\<close>

theorem wrapper_decrypt_spec:
  assumes "length nonce = 32" "length key = 16"
  shows "if length c < 16
    then schwaemm128128_decrypt alloc al c ad nonce key =
      (if alloc (2 ^ 64 - (16 - length c)) then Inl OutOfBounds else Inr (None, int (length c) - 16))
    else \<exists>r. schwaemm128128_decrypt alloc al c ad nonce key = Inr (r, int (length c) - 16) \<and>
      (\<forall>m. r = Some m \<longleftrightarrow>
         alloc (size_t (int (length c) - 16)) \<and> c = crypto_aead_encrypt SCHWAEMM_INST al' m ad nonce key)"
proof (cases "length c < 16")
  case True
  have "(int (length c) - 16) mod 2 ^ 64 = (int (length c) - 16 + 2 ^ 64) mod 2 ^ 64"
    by (rule mod_add_self2 [symmetric])
  also have "\<dots> = int (length c) - 16 + 2 ^ 64" using True by (intro mod_pos_pos_trivial) auto
  finally have "size_t (int (length c) - 16) = 2 ^ 64 - (16 - length c)" using True by (simp add: size_t_def nat_eq_iff)
  then show ?thesis
    using True by (simp add: schwaemm128128_decrypt_def c_crypto_aead_decrypt_def SCHWAEMM_INST_def Let_def)
next
  case False
  have tag: "SCHWAEMM_TAG_BYTES SCHWAEMM_INST = 16" by (simp add: SCHWAEMM_INST_def)
  have ok: "length nonce = SCHWAEMM_NONCE_BYTES SCHWAEMM_INST" "length key = SCHWAEMM_KEY_BYTES SCHWAEMM_INST"
    using assms by (simp_all add: SCHWAEMM_INST_def)
  obtain r m where d: "crypto_aead_decrypt SCHWAEMM_INST al c ad nonce key = Inr (r, m)" "length m + 16 = length c"
    using decrypt_values [OF ok, of c al ad] False by (auto simp: tag)
  have iff: "r = 0 \<and> m' = m \<longleftrightarrow> c = crypto_aead_encrypt SCHWAEMM_INST al' m' ad nonce key" for m'
  proof
    assume "r = 0 \<and> m' = m"
    with d(1) show "c = crypto_aead_encrypt SCHWAEMM_INST al' m' ad nonce key"
      using decrypt_encrypt_res [OF ok(2,1), of al c ad m al'] by simp
  next
    assume "c = crypto_aead_encrypt SCHWAEMM_INST al' m' ad nonce key"
    then have "crypto_aead_decrypt SCHWAEMM_INST al c ad nonce key = Inr (0, m')"
      using encrypt_decrypt_res(2) [OF ok(2,1)] by simp
    with d(1) show "r = 0 \<and> m' = m" by simp
  qed
  let ?r = "if alloc (size_t (int (length c) - 16)) \<and> r = 0 then Some m else None"
  have "schwaemm128128_decrypt alloc al c ad nonce key = Inr (?r, int (length c) - 16)"
    using False d by (auto simp: schwaemm128128_decrypt_def c_crypto_aead_decrypt_eq tag Let_def)
  moreover have "?r = Some m' \<longleftrightarrow>
      alloc (size_t (int (length c) - 16)) \<and> c = crypto_aead_encrypt SCHWAEMM_INST al' m' ad nonce key" for m'
    unfolding iff [of m', symmetric] by auto
  ultimately show ?thesis unfolding if_not_P [OF False] by blast
qed

theorem wrapper_decrypt_spec_witness:
  "schwaemm128128_decrypt (\<lambda>n. n < 1000) (False, False) [1, 2] [] (replicate 32 0) (replicate 16 1) = Inr (None, - 14) \<and>
   schwaemm128128_decrypt (\<lambda>n. True) (False, False) [1, 2] [] (replicate 32 0) (replicate 16 1) = Inl OutOfBounds"
  using wrapper_decrypt_spec [of "replicate 32 0" "replicate 16 1" "[1, 2]" "\<lambda>n. n < 1000" "(False, False)" "[]"]
    wrapper_decrypt_spec [of "replicate 32 0" "replicate 16 1" "[1, 2]" "\<lambda>n. True" "(False, False)" "[]"]
  by simp

end
