(* ===== verification/Runtime_Laws.thy ===== *)
theory Runtime_Laws
  imports End_to_End
begin

text \<open>
  What the secure element and the interpreter guarantee against a host that does not follow
  the protocol: which words, batches, snippets and bytecodes they accept, and what they do
  with everything else.
\<close>

section \<open>Encrypted words\<close>

text \<open>
  C6: \<^verbatim>\<open>EWORD_decrypt\<close> fills the registers exactly when there are no more inputs than
  registers and every word handed in is the encryption, in this execution, of a word under the
  pair of identifiers that the multi-instruction names for that input; the registers then hold
  these words, in order, and the others stay unwritten. A word of another execution, another
  instruction or another position is not accepted unless its ciphertext is the very same.
\<close>

theorem EWORD_decrypt_accepts:
  assumes "length execID = HASH_INBYTES"
  shows "EWORD_decrypt (replicate r None) a execID Cx = Inr reg \<longleftrightarrow>
    unat (inp_count a) \<le> r \<and>
    (\<exists>ws. length ws = unat (inp_count a) \<and>
       (\<forall>i<length ws. word_at (inputIDs a) execID Cx i (ws ! i)) \<and>
       reg = map Some ws @ replicate (r - length ws) None)"
  using assms by (rule EWORD_decrypt_iff)

definition one_input :: AELLS where
  "one_input =
     \<lparr>reveal_flag = 0, inp_count = 1, out_count = 1, inputIDs = [\<lparr>instrID = 1, outputID = 0\<rparr>],
      aells_instrID = 2, bytelen = 0, bytecode = []\<rparr>"

theorem EWORD_decrypt_accepts_witness:
  "length (replicate 32 (9 :: u8)) = HASH_INBYTES \<and>
   EWORD_decrypt (replicate 3 None) one_input (replicate 32 9) [enc_word (replicate 32 9) 1 0 7] =
     Inr [Some 7, None, None]"
proof -
  have "length (replicate 32 (9 :: u8)) = HASH_INBYTES" by (simp add: se_sizes)
  moreover from EWORD_decrypt_accepts [OF this, of 3 one_input "[enc_word (replicate 32 9) 1 0 7]" "[Some 7, None, None]"]
  have "EWORD_decrypt (replicate 3 None) one_input (replicate 32 9) [enc_word (replicate 32 9) 1 0 7] =
     Inr [Some 7, None, None]"
    by (simp add: one_input_def word_at_def) (rule exI [of _ "[7]"], simp add: numeral_eq_Suc)
  ultimately show ?thesis by simp
qed

section \<open>Input batches\<close>

text \<open>
  C7: \<^verbatim>\<open>SEinput\<close> accepts a batch exactly when its number is not 0, the first batch comes
  with the zero hash, and the token is the one for the hash of this batch behind the given
  hash; it then returns the token for the given hash and the number below, and the encryption
  of every word of the batch under the number of the batch and its position.
\<close>

theorem SEinput_accepts:
  assumes "length e = HASH_INBYTES" and "length Hp = HASH_INBYTES" and "length X = l_out"
    and "length Cinc = CIN_INBYTES"
  shows "SEinput e i Hp X Cinc = Inr (Cinp, C) \<longleftrightarrow>
    i \<noteq> 0 \<and> (i = 1 \<longrightarrow> Hp = replicate HASH_INBYTES 0) \<and> Cinc = token e i (batch_hash Hp X) \<and>
    Cinp = token e (i - 1) Hp \<and> C = map (\<lambda>j. enc_word e i (of_nat j) (X ! j)) [0..<l_out]"
  using assms by (rule SEinput_iff)

theorem SEinput_accepts_witness:
  "SEinput (replicate 32 9) 1 (replicate 32 0) (replicate l_out 5)
     (token (replicate 32 9) 1 (batch_hash (replicate 32 0) (replicate l_out 5))) =
   Inr (token (replicate 32 9) 0 (replicate 32 0), map (\<lambda>j. enc_word (replicate 32 9) 1 (of_nat j) 5) [0..<l_out])"
  using SEinput_accepts [of "replicate 32 9" "replicate 32 0" "replicate l_out 5"
      "token (replicate 32 9) 1 (batch_hash (replicate 32 0) (replicate l_out 5))" 1
      "token (replicate 32 9) 0 (replicate 32 0)" "map (\<lambda>j. enc_word (replicate 32 9) 1 (of_nat j) 5) [0..<l_out]"]
  by (simp add: se_sizes)

text \<open>
  The loop of calls on batches and hashes of any choice, from a token of any choice.
\<close>

lemma input_loop_iff:
  assumes e: "length e = HASH_INBYTES" and X: "\<And>x. x \<in> set X \<Longrightarrow> length x = l_out" and L: "length X < 2 ^ 32"
    and H: "length X \<le> length H" "\<And>h. h \<in> set H \<Longrightarrow> length h = HASH_INBYTES" and tok: "length tok = CIN_INBYTES"
  shows "input_loop e X H tok = Inr (t, C) \<longleftrightarrow>
    (X \<noteq> [] \<longrightarrow> H ! 0 = replicate HASH_INBYTES 0) \<and>
    (\<forall>i<length X. token e (of_nat (i + 1)) (batch_hash (H ! i) (X ! i)) =
       (if Suc i = length X then tok else token e (of_nat (i + 1)) (H ! Suc i))) \<and>
    t = (if X = [] then tok else token e 0 (H ! 0)) \<and> C = concat (map (batch_words e X) [0..<length X])"
proof -
  let ?f = "\<lambda>i (Cin, C). bindr (SEinput e (of_nat (i + 1)) (H ! i) (X ! i) Cin) (\<lambda>(Cinp, Ci). Inr (Cinp, Ci @ C))"
  let ?g = "\<lambda>i. token e (of_nat (i + 1)) (batch_hash (H ! i) (X ! i))"
  have "foldM ?f (rev [0..<n]) (tk, C0) = Inr (t, C) \<longleftrightarrow>
      (n \<noteq> 0 \<longrightarrow> H ! 0 = replicate HASH_INBYTES 0) \<and>
      (\<forall>i<n. ?g i = (if Suc i = n then tk else token e (of_nat (i + 1)) (H ! Suc i))) \<and>
      t = (if n = 0 then tk else token e 0 (H ! 0)) \<and> C = concat (map (batch_words e X) [0..<n]) @ C0"
    if "n \<le> length X" "length tk = CIN_INBYTES" for n tk C0
    using that
  proof (induction n arbitrary: tk C0)
    case (Suc n)
    have n: "(of_nat (n + 1) :: u32) \<noteq> 0" "(of_nat (n + 1) :: u32) = 1 \<longleftrightarrow> n = 0"
      using Suc.prems(1) L by (auto simp: word_unat_eq_iff unat_of_nat simp del: of_nat_Suc)
    have "H ! n \<in> set H" "X ! n \<in> set X" using Suc.prems(1) H(1) by simp_all
    then have len: "length (H ! n) = HASH_INBYTES" "length (X ! n) = l_out" using H(2) X by blast+
    let ?next = "Inr (token e (of_nat n) (H ! n), batch_words e X n)"
    have se: "SEinput e (of_nat (n + 1)) (H ! n) (X ! n) tk = Inr (Cinp, Ci) \<longleftrightarrow>
        ?next = Inr (Cinp, Ci) \<and> (n = 0 \<longrightarrow> H ! n = replicate HASH_INBYTES 0) \<and> tk = ?g n" for Cinp Ci
      using SEinput_iff [OF e len Suc.prems(2), of "of_nat (n + 1)" Cinp Ci] n by (auto simp: batch_words_def)
    have "foldM ?f (rev [0..<Suc n]) (tk, C0) = Inr (t, C) \<longleftrightarrow>
        (n = 0 \<longrightarrow> H ! n = replicate HASH_INBYTES 0) \<and> tk = ?g n \<and>
        foldM ?f (rev [0..<n]) (token e (of_nat n) (H ! n), batch_words e X n @ C0) = Inr (t, C)"
    proof (cases "(n = 0 \<longrightarrow> H ! n = replicate HASH_INBYTES 0) \<and> tk = ?g n")
      case True
      then have "SEinput e (of_nat (n + 1)) (H ! n) (X ! n) tk = ?next" using se by simp
      then show ?thesis using True by simp
    next
      case False
      then have "SEinput e (of_nat (n + 1)) (H ! n) (X ! n) tk \<noteq> Inr r" for r using se by (cases r) simp
      then obtain x where "SEinput e (of_nat (n + 1)) (H ! n) (X ! n) tk = Inl x"
        by (cases "SEinput e (of_nat (n + 1)) (H ! n) (X ! n) tk") auto
      then show ?thesis using False by auto
    qed
    also have "\<dots> \<longleftrightarrow> (n = 0 \<longrightarrow> H ! n = replicate HASH_INBYTES 0) \<and> tk = ?g n \<and>
        (n \<noteq> 0 \<longrightarrow> H ! 0 = replicate HASH_INBYTES 0) \<and>
        (\<forall>i<n. ?g i = (if Suc i = n then token e (of_nat n) (H ! n) else token e (of_nat (i + 1)) (H ! Suc i))) \<and>
        t = (if n = 0 then token e (of_nat n) (H ! n) else token e 0 (H ! 0)) \<and>
        C = concat (map (batch_words e X) [0..<n]) @ batch_words e X n @ C0"
      using Suc.IH [of "token e (of_nat n) (H ! n)" "batch_words e X n @ C0"] Suc.prems by (simp add: se_sizes(3))
    also have "\<dots> \<longleftrightarrow> (Suc n \<noteq> 0 \<longrightarrow> H ! 0 = replicate HASH_INBYTES 0) \<and>
        (\<forall>i<Suc n. ?g i = (if Suc i = Suc n then tk else token e (of_nat (i + 1)) (H ! Suc i))) \<and>
        t = (if Suc n = 0 then tk else token e 0 (H ! 0)) \<and> C = concat (map (batch_words e X) [0..<Suc n]) @ C0"
    proof -
      have "(\<forall>i<Suc n. ?g i = (if Suc i = Suc n then tk else token e (of_nat (i + 1)) (H ! Suc i))) \<longleftrightarrow>
          tk = ?g n \<and> (\<forall>i<n. ?g i = token e (of_nat (i + 1)) (H ! Suc i))"
        unfolding All_less_Suc by (auto simp del: of_nat_Suc of_nat_add)
      moreover have "(if Suc i = n then token e (of_nat n) (H ! n) else token e (of_nat (i + 1)) (H ! Suc i)) =
          token e (of_nat (i + 1)) (H ! Suc i)" for i by (cases "Suc i = n") auto
      moreover have "(if n = 0 then token e (of_nat n) (H ! n) else token e 0 (H ! 0)) = token e 0 (H ! 0)" by simp
      ultimately show ?thesis by (cases "n = 0") (simp_all del: of_nat_Suc of_nat_add, blast+)
    qed
    finally show ?case .
  qed auto
  from this [of "length X" tok "[]"] show ?thesis using tok unfolding input_loop_def by simp
qed

text \<open>The pairs of number and hash whose tokens the calls compare.\<close>

definition compared :: "nat \<Rightarrow> uSE list list \<Rightarrow> u8 list list \<Rightarrow> (u32 \<times> u8 list) set" where
  "compared L X H =
     {(of_nat (i + 1), batch_hash (H ! i) (X ! i)) |i. i < length X} \<union>
     {(of_nat (if Suc i = length X then L else i + 1), H ! Suc i) |i. i < length X}"

lemma hashes_unique:
  "length H = Suc (length X) \<Longrightarrow> \<forall>i<length X. H ! Suc i = batch_hash (H ! i) (X ! i) \<Longrightarrow> H = hashes (H ! 0) X"
proof (rule nth_equalityI)
  fix i assume H: "length H = Suc (length X)" "\<forall>i<length X. H ! Suc i = batch_hash (H ! i) (X ! i)" and "i < length H"
  then show "H ! i = hashes (H ! 0) X ! i" by (induction i) (simp_all add: hashes_Suc)
qed simp

text \<open>
  C4: the inputs are fixed by the hash that an execution is started with. Let a host start an execution
  with the last of any hashes and make the calls of \<^verbatim>\<open>SEinput\<close>, from the last batch to the first, each
  with the token the call before returned, on any batches and with these hashes. All calls succeed
  exactly when the first hash is zero and in each call the token of the hash of the batch is the
  one returned before, which is that of the next hash; they then return the encryptions of the
  batches. If different pairs among those compared have different tokens, this is so exactly when
  there are as many batches as the header says and the hashes are the chain of the batches.
\<close>

theorem input_phase_committed:
  assumes "uint_tobytes n lb_m = Some nb" and "lb_m \<in> {1..4}" and "n + l_out < 2 ^ 32"
    and "length ct = 64" and "seal_open ct pubkey prvkey = Some key" and "length key = 16"
    and "X \<noteq> []" and "length X < 2 ^ 32" and "\<forall>x\<in>set X. length x = l_out"
    and "length H = Suc (length X)" and "\<forall>h\<in>set H. length h = HASH_INBYTES"
    and "L = (n + l_out - 1) div l_out"
  shows "\<exists>e tok. SEstart seal_open (ct @ nb @ rest) lb_m (last H) = Inr (sealed_key e key, e, tok) \<and>
    (\<forall>t C. input_loop e X H tok = Inr (t, C) \<longleftrightarrow>
       H ! 0 = replicate HASH_INBYTES 0 \<and>
       (\<forall>i<length X. token e (of_nat (i + 1)) (batch_hash (H ! i) (X ! i)) =
          token e (of_nat (if Suc i = length X then L else i + 1)) (H ! Suc i)) \<and>
       t = token e 0 (H ! 0) \<and> C = concat (map (batch_words e X) [0..<length X])) \<and>
    (inj_on (\<lambda>(i, h). token e i h) (compared L X H) \<longrightarrow>
       (\<exists>t C. input_loop e X H tok = Inr (t, C)) = (length X = L \<and> make_hashes X = Inr H))"
proof -
  define e where "e = hashp 0 (last H @ ct @ nb)"
  have last: "last H = H ! length X" using assms(10) by (metis diff_Suc_1 last_conv_nth length_0_conv nat.distinct(1))
  then have "length (last H) = HASH_INBYTES" using assms(10,11) by simp
  then have st: "SEstart seal_open (ct @ nb @ rest) lb_m (last H) = Inr (sealed_key e key, e, token e (of_nat L) (last H))"
    unfolding assms(12) by (rule SEstart_eq [where seal_open = seal_open, OF _ assms(2,4,1,3,5,6) e_def])
  have iff: "input_loop e X H (token e (of_nat L) (last H)) = Inr (t, C) \<longleftrightarrow>
       H ! 0 = replicate HASH_INBYTES 0 \<and>
       (\<forall>i<length X. token e (of_nat (i + 1)) (batch_hash (H ! i) (X ! i)) =
          token e (of_nat (if Suc i = length X then L else i + 1)) (H ! Suc i)) \<and>
       t = token e 0 (H ! 0) \<and> C = concat (map (batch_words e X) [0..<length X])" for t C
  proof -
    have "(if Suc i = length X then token e (of_nat L) (last H) else token e (of_nat (i + 1)) (H ! Suc i)) =
        token e (of_nat (if Suc i = length X then L else i + 1)) (H ! Suc i)" for i
      by (simp add: last)
    then show ?thesis
      using assms(7-11) by (subst input_loop_iff) (simp_all add: e_def se_sizes(3) del: of_nat_Suc)
  qed
  have "L \<le> n + l_out - 1" unfolding assms(12) by (rule div_le_dividend)
  then have small: "L < 2 ^ 32" using assms(3) by simp
  have "(H ! 0 = replicate HASH_INBYTES 0 \<and> (\<forall>i<length X. token e (of_nat (i + 1)) (batch_hash (H ! i) (X ! i)) =
          token e (of_nat (if Suc i = length X then L else i + 1)) (H ! Suc i))) = (length X = L \<and> make_hashes X = Inr H)"
    if inj: "inj_on (\<lambda>(i, h). token e i h) (compared L X H)"
  proof -
    have "token e (of_nat (i + 1)) (batch_hash (H ! i) (X ! i)) = token e (of_nat (if Suc i = length X then L else i + 1)) (H ! Suc i) \<longleftrightarrow>
        (of_nat (i + 1) :: u32) = of_nat (if Suc i = length X then L else i + 1) \<and> batch_hash (H ! i) (X ! i) = H ! Suc i"
      if "i < length X" for i
    proof -
      let ?l = "of_nat (if Suc i = length X then L else i + 1)"
      have "(of_nat (i + 1), batch_hash (H ! i) (X ! i)) \<in> compared L X H" "(?l, H ! Suc i) \<in> compared L X H"
        using that unfolding compared_def by blast+
      from inj_on_eq_iff [OF inj this] show ?thesis by (simp only: prod.case prod.inject)
    qed
    moreover have "(\<forall>i<length X. (of_nat (i + 1) :: u32) = of_nat (if Suc i = length X then L else i + 1)) \<longleftrightarrow> length X = L"
    proof -
      obtain j where j: "length X = Suc j" using assms(7) by (cases X) auto
      have "(of_nat (length X) :: u32) = of_nat L \<longleftrightarrow> length X = L"
        using assms(8) small by (simp add: word_unat_eq_iff unat_of_nat)
      then show ?thesis unfolding j All_less_Suc by (auto simp del: of_nat_Suc)
    qed
    moreover have "make_hashes X = Inr H \<longleftrightarrow> H ! 0 = replicate HASH_INBYTES 0 \<and> (\<forall>i<length X. batch_hash (H ! i) (X ! i) = H ! Suc i)"
      using make_hashes_eq [OF bspec [OF assms(9)]] hashes_unique [OF assms(10)] by (auto simp: hashes_Suc)
    ultimately show ?thesis by blast
  qed
  then show ?thesis using st iff by (intro exI [of _ e] exI [of _ "token e (of_nat L) (last H)"]) simp
qed

theorem input_phase_committed_witness:
  "\<exists>e tok t C. SEstart (\<lambda>_ _ _. Some (replicate 16 1)) (replicate 64 0 @ [1] @ []) 1
       (batch_hash (replicate HASH_INBYTES 0) (replicate l_out 5)) = Inr (sealed_key e (replicate 16 1), e, tok) \<and>
     input_loop e [replicate l_out 5] [replicate HASH_INBYTES 0, batch_hash (replicate HASH_INBYTES 0) (replicate l_out 5)] tok = Inr (t, C)"
proof -
  let ?z = "replicate HASH_INBYTES (0 :: u8)" and ?x = "replicate l_out (5 :: uSE)"
  let ?H = "[?z, batch_hash ?z ?x]"
  have b: "uint_tobytes 1 1 = Some [1 :: u8]" "(1 :: nat) \<in> {1..4}" "1 + l_out < 2 ^ 32" "1 = (1 + l_out - 1) div l_out"
    by (simp_all add: uint_tobytes_def byte_simps config_defs)
  obtain e tok where e: "SEstart (\<lambda>_ _ _. Some (replicate 16 1)) (replicate 64 0 @ [1] @ []) 1 (last ?H) =
      Inr (sealed_key e (replicate 16 1), e, tok)"
    and i: "inj_on (\<lambda>(i, h). token e i h) (compared 1 [?x] ?H) \<longrightarrow>
       (\<exists>t C. input_loop e [?x] ?H tok = Inr (t, C)) = (length [?x] = 1 \<and> make_hashes [?x] = Inr ?H)"
    using input_phase_committed [OF b(1-3) _ _ _ _ _ _ _ _ b(4), of "replicate 64 0" "\<lambda>_ _ _. Some (replicate 16 1)" "replicate 16 1"
        "[?x]" ?H "[]"] by auto
  have "compared 1 [?x] ?H = {(1, batch_hash ?z ?x)}" by (auto simp: compared_def)
  moreover have "make_hashes [?x] = Inr ?H" using make_hashes_eq [of "[?x]"] by simp
  ultimately show ?thesis using e i by auto
qed

text \<open>
  C15: a host that follows the protocol gets all its inputs in. For any number of inputs that the header can
  hold, the batches and their hashes can be made, the secure element starts the execution, and every one of
  the calls of \<^verbatim>\<open>SEinput\<close>, from the last batch to the first, succeeds with the token the call before
  returned; in the end there is, for each input, its encryption under the number of its batch and its
  position.
\<close>

theorem honest_inputs_accepted:
  assumes "uint_tobytes n lb_m = Some nb" and "lb_m \<in> {1..4}" and "n + l_out < 2 ^ 32" and "length inps = n"
    and "length ct = 64" and "seal_open ct pubkey prvkey = Some key" and "length key = 16"
  shows "\<exists>X H e tok C.
    make_batches (unat ((of_nat n + of_nat l_out - 1 :: u32) div of_nat l_out)) n (map Some inps) = Inr X \<and>
    make_hashes X = Inr H \<and>
    SEstart seal_open (ct @ nb @ rest) lb_m (last H) = Inr (sealed_key e key, e, tok) \<and>
    input_loop e X H tok = Inr (token e 0 (replicate HASH_INBYTES 0), C) \<and>
    take n C = map (\<lambda>i. enc_word e (of_nat (i div l_out + 1)) (of_nat (i mod l_out)) (inps ! i)) [0..<n]"
proof -
  obtain X H e tok C where i:
    "make_batches (unat ((of_nat n + of_nat l_out - 1 :: u32) div of_nat l_out)) n (map Some inps) = Inr X"
    "make_hashes X = Inr H" "SEstart seal_open (ct @ nb @ rest) lb_m (last H) = Inr (sealed_key e key, e, tok)"
    "input_loop e X H tok = Inr (token e 0 (replicate HASH_INBYTES 0), C)" "length e = 32" "n \<le> length C"
    "take n C = map2 (\<lambda>p w. enc_word e (of_nat (fst p)) (of_nat (snd p)) w)
       (map (\<lambda>i. (i div l_out + 1, i mod l_out)) [0..<n]) inps"
    by (rule input_batches [where seal_open = seal_open, OF assms])
  have "take n C = map (\<lambda>i. enc_word e (of_nat (i div l_out + 1)) (of_nat (i mod l_out)) (inps ! i)) [0..<n]"
    using assms(4) unfolding i(7) by (intro nth_equalityI) auto
  then show ?thesis using i(1-4) by (intro exI [of _ X] exI [of _ H] exI [of _ e] exI [of _ tok] exI [of _ C]) simp
qed

theorem honest_inputs_accepted_witness:
  "\<exists>X H e tok C.
    make_batches (unat ((of_nat 3 + of_nat l_out - 1 :: u32) div of_nat l_out)) 3 (map Some [7, 8, 9]) = Inr X \<and>
    make_hashes X = Inr H \<and>
    SEstart (\<lambda>_ _ _. Some (replicate 16 1)) (replicate 64 0 @ [3] @ []) 1 (last H) = Inr (sealed_key e (replicate 16 1), e, tok) \<and>
    input_loop e X H tok = Inr (token e 0 (replicate HASH_INBYTES 0), C) \<and>
    take 3 C = map (\<lambda>i. enc_word e (of_nat (i div l_out + 1)) (of_nat (i mod l_out)) ([7, 8, 9] ! i)) [0..<3]"
  by (rule honest_inputs_accepted) (simp_all add: uint_tobytes_def byte_simps config_defs)

section \<open>Snippets\<close>

text \<open>
  The associated data determines every field of the multi-instruction that the secure element
  acts on, when the fields fit into the bytes they are written to.
\<close>

definition fits :: "nat \<Rightarrow> nat \<Rightarrow> AELLS \<Rightarrow> bool" where
  "fits lb_m lb_o a \<longleftrightarrow>
     length (inputIDs a) = unat (inp_count a) \<and> unat (inp_count a) < 256 ^ lb_m \<and>
     unat (out_count a) < 256 ^ lb_m \<and> (\<forall>p\<in>set (inputIDs a). unat (outputID p) < 256 ^ lb_o)"

lemma be_bytes_small_inject:
  assumes "n \<le> 4" "unat v < 256 ^ n" "unat w < 256 ^ n" "be_bytes n v = be_bytes n (w :: u32)"
  shows "v = w"
proof -
  have "unat v mod 256 ^ n = unat w mod 256 ^ n"
    using assms(1,4) be_nat_bytes [where 'a = 32, of n v] be_nat_bytes [where 'a = 32, of n w] by simp
  then show ?thesis using assms(2,3) by (simp add: word_unat_eq_iff)
qed

lemma ids_inject:
  assumes "lb_o \<le> 4"
  shows "length ps = length qs \<Longrightarrow> \<forall>p\<in>set ps. unat (outputID p) < 256 ^ lb_o \<Longrightarrow>
    \<forall>p\<in>set qs. unat (outputID p) < 256 ^ lb_o \<Longrightarrow>
    concat (map (\<lambda>p. be_bytes 4 (instrID p) @ be_bytes lb_o (outputID p)) ps) =
    concat (map (\<lambda>p. be_bytes 4 (instrID p) @ be_bytes lb_o (outputID p)) qs) \<Longrightarrow> ps = (qs :: ID list)"
proof (induction ps qs rule: list_induct2)
  case (Cons p ps q qs)
  then have "be_bytes 4 (instrID p) = be_bytes 4 (instrID q)" "be_bytes lb_o (outputID p) = be_bytes lb_o (outputID q)"
    by auto
  then have "p = q" using Cons.prems be_bytes_small_inject [OF assms] by (simp add: be_bytes_4_inject)
  then show ?case using Cons by simp
qed simp

lemma llmi_ad_inject:
  assumes lb: "lb_m \<in> {1..4}" "lb_o \<in> {1..4}" and f: "fits lb_m lb_o a" "fits lb_m lb_o b"
    and eq: "llmi_ad lb_m lb_o a = llmi_ad lb_m lb_o b"
  shows "aells_instrID a = aells_instrID b \<and> reveal_flag a = reveal_flag b \<and> inp_count a = inp_count b \<and>
    inputIDs a = inputIDs b \<and> out_count a = out_count b"
proof -
  have h: "be_bytes 4 (aells_instrID a) = be_bytes 4 (aells_instrID b)" "reveal_flag a = reveal_flag b"
      "be_bytes lb_m (inp_count a) = be_bytes lb_m (inp_count b)"
    using eq by (auto simp: llmi_ad_def)
  have ic: "inp_count a = inp_count b"
    using h(3) f lb by (intro be_bytes_small_inject [of lb_m]) (auto simp: fits_def)
  let ?c = "\<lambda>a. concat (map (\<lambda>p. be_bytes 4 (instrID p) @ be_bytes lb_o (outputID p)) (inputIDs a))"
  have len: "length (inputIDs a) = length (inputIDs b)" using f ic by (simp add: fits_def)
  then have "length (?c a) = length (?c b)" by (simp only: length_llmi_ad_ids)
  then have c: "?c a = ?c b" "be_bytes lb_m (out_count a) = be_bytes lb_m (out_count b)"
    using eq h ic by (simp_all add: llmi_ad_def)
  have "inputIDs a = inputIDs b" using c(1) len f lb(2) by (intro ids_inject [of lb_o]) (auto simp: fits_def)
  moreover have "out_count a = out_count b"
    using c(2) f lb by (intro be_bytes_small_inject [of lb_m]) (auto simp: fits_def)
  ultimately show ?thesis using h ic by (simp add: be_bytes_4_inject)
qed

lemma LLS_decrypt_cases:
  assumes f: "fits lb_m lb_o a" "unat (inp_count a) \<le> 1000000" and lb: "lb_m \<in> {1..4}" "lb_o \<in> {1..4}"
    and key: "length key = 16" and bl: "16 \<le> unat (bytelen a)" and len: "unat (bytelen a) \<le> length (bytecode a)"
  obtains r m where "adec (take (unat (bytelen a)) (bytecode a)) (llmi_ad lb_m lb_o a) (llmi_nonce a) key = Inr (r, m)"
    "r = 0 \<longleftrightarrow> take (unat (bytelen a)) (bytecode a) = aenc m (llmi_ad lb_m lb_o a) (llmi_nonce a) key"
    "LLS_decrypt a key lb_m lb_o = (if r \<noteq> 0 then Inl LLSDecryptFailed else Inr m)"
proof -
  let ?c = "take (unat (bytelen a)) (bytecode a)"
  have n: "length (llmi_nonce a) = 32" by (simp add: llmi_nonce_def)
  obtain r m where d: "adec ?c (llmi_ad lb_m lb_o a) (llmi_nonce a) key = Inr (r, m)" "length m + 16 = length ?c"
      and ok: "r = 0 \<longleftrightarrow> ?c = aenc m (llmi_ad lb_m lb_o a) (llmi_nonce a) key"
    by (rule adec_total [OF n key, of ?c "llmi_ad lb_m lb_o a"]) (use len bl in auto)
  have "16 \<le> bytelen a" using bl by (simp add: word_le_nat_alt)
  then have "unat (bytelen a - 16) = length m" using d(2) len by (simp add: unat_sub)
  then have "LLS_decrypt a key lb_m lb_o = (if r \<noteq> 0 then Inl LLSDecryptFailed else Inr m)"
    using len d(1) f by (simp add: LLS_decrypt_def LLS_ad_eq [OF _ f(2) lb] fits_def se_sizes Let_def u32_tobytes_be
        flip: llmi_nonce_def)
  then show thesis using that d(1) ok by blast
qed

lemma LLS_decrypt_iff:
  assumes f: "fits lb_m lb_o a" "unat (inp_count a) \<le> 1000000" and lb: "lb_m \<in> {1..4}" "lb_o \<in> {1..4}"
    and key: "length key = 16" and bl: "16 \<le> unat (bytelen a)" and len: "unat (bytelen a) \<le> length (bytecode a)"
  shows "LLS_decrypt a key lb_m lb_o = Inr msg \<longleftrightarrow>
    take (unat (bytelen a)) (bytecode a) = aenc msg (llmi_ad lb_m lb_o a) (llmi_nonce a) key"
proof (rule LLS_decrypt_cases [OF assms])
  fix r m
  let ?c = "take (unat (bytelen a)) (bytecode a)"
  assume d: "adec ?c (llmi_ad lb_m lb_o a) (llmi_nonce a) key = Inr (r, m)"
    and ok: "r = 0 \<longleftrightarrow> ?c = aenc m (llmi_ad lb_m lb_o a) (llmi_nonce a) key"
    and dec: "LLS_decrypt a key lb_m lb_o = (if r \<noteq> 0 then Inl LLSDecryptFailed else Inr m)"
  have n: "length (llmi_nonce a) = 32" by (simp add: llmi_nonce_def)
  have "r = 0 \<and> m = msg" if c: "?c = aenc msg (llmi_ad lb_m lb_o a) (llmi_nonce a) key"
    using d unfolding c adec_aenc [OF n key] by simp
  then show ?thesis unfolding dec using ok by (cases "r = 0") (simp_all, blast+)
qed

lemma unat_of_nat_le: "unat (of_nat n :: 'a :: len word) \<le> n"
  by (simp add: unat_of_nat)

lemma LLS_decrypt_result:
  assumes "fits lb_m lb_o a" "unat (inp_count a) \<le> 1000000" "lb_m \<in> {1..4}" "lb_o \<in> {1..4}"
    and "length key = 16" "16 \<le> unat (bytelen a)" "unat (bytelen a) \<le> length (bytecode a)"
  shows "LLS_decrypt a key lb_m lb_o = Inl LLSDecryptFailed \<or> (\<exists>msg. LLS_decrypt a key lb_m lb_o = Inr msg)"
  by (rule LLS_decrypt_cases [OF assms]) auto

text \<open>
  C5: \<^verbatim>\<open>LLS_decrypt\<close> accepts exactly the encryptions under the fields it is given: it returns a message
  when the bytes are the encryption of it with the identifier, reveal flag, counts and input
  identifiers of this multi-instruction as associated data and nonce, and fails to decrypt when they are
  no such encryption; and no other values of these fields give the same associated data.
\<close>

theorem LLS_decrypt_accepts:
  assumes "fits lb_m lb_o a" and "unat (inp_count a) \<le> 1000000" and "lb_m \<in> {1..4}" and "lb_o \<in> {1..4}"
    and "length key = 16" and "16 \<le> unat (bytelen a)" and "unat (bytelen a) \<le> length (bytecode a)"
  shows "(\<forall>msg. LLS_decrypt a key lb_m lb_o = Inr msg \<longleftrightarrow>
      take (unat (bytelen a)) (bytecode a) = aenc msg (llmi_ad lb_m lb_o a) (llmi_nonce a) key) \<and>
    ((\<forall>msg. take (unat (bytelen a)) (bytecode a) \<noteq> aenc msg (llmi_ad lb_m lb_o a) (llmi_nonce a) key) \<longrightarrow>
      LLS_decrypt a key lb_m lb_o = Inl LLSDecryptFailed) \<and>
    (\<forall>b. fits lb_m lb_o b \<longrightarrow> llmi_ad lb_m lb_o a = llmi_ad lb_m lb_o b \<longrightarrow>
      (aells_instrID a, reveal_flag a, inp_count a, inputIDs a, out_count a) =
      (aells_instrID b, reveal_flag b, inp_count b, inputIDs b, out_count b))"
proof -
  note iff = LLS_decrypt_iff [OF assms]
  have "LLS_decrypt a key lb_m lb_o = Inl LLSDecryptFailed" if "\<And>msg. LLS_decrypt a key lb_m lb_o \<noteq> Inr msg"
    using LLS_decrypt_result [OF assms] that by blast
  then show ?thesis using iff llmi_ad_inject [OF assms(3,4,1)] by (auto simp del: Pair_inject simp: prod_eq_iff) 
qed

definition snippet :: "u8 list \<Rightarrow> AELLS" where
  "snippet c =
     \<lparr>reveal_flag = 0, inp_count = 0, out_count = 1, inputIDs = [], aells_instrID = 2,
      bytelen = of_nat (length c), bytecode = c\<rparr>"

lemma snippet_decrypts:
  assumes "length k = 16" and "length m < 1000"
    and c: "c = aenc m (llmi_ad 1 1 (snippet [])) (llmi_nonce (snippet [])) k"
  shows "fits 1 1 (snippet c)" "unat (inp_count (snippet c)) \<le> 1000000" "16 \<le> unat (bytelen (snippet c))"
    "take (unat (bytelen (snippet c))) (bytecode (snippet c)) = c" "LLS_decrypt (snippet c) k 1 1 = Inr m"
    "llmi_ad 1 1 (snippet c) = llmi_ad 1 1 (snippet [])"
proof -
  have lc: "length c = length m + 16" using assms(1) by (simp add: c llmi_nonce_def)
  have "length c < 2 ^ 32" using lc assms(2) by simp
  then have bl: "unat (bytelen (snippet c)) = length c" by (simp add: snippet_def unat_of_nat)
  show f: "fits 1 1 (snippet c)" "unat (inp_count (snippet c)) \<le> 1000000" by (simp_all add: fits_def snippet_def)
  show b: "16 \<le> unat (bytelen (snippet c))" using bl lc by simp
  show t: "take (unat (bytelen (snippet c))) (bytecode (snippet c)) = c" using bl by (simp add: snippet_def)
  have "llmi_nonce (snippet c) = llmi_nonce (snippet [])" by (simp add: snippet_def llmi_nonce_def)
  moreover show "llmi_ad 1 1 (snippet c) = llmi_ad 1 1 (snippet [])" by (simp add: snippet_def llmi_ad_def)
  moreover have "(1 :: nat) \<in> {1..4}" by simp
  ultimately show "LLS_decrypt (snippet c) k 1 1 = Inr m"
    using LLS_decrypt_iff [OF f _ _ assms(1) b, of m] t bl c by (simp add: snippet_def)
qed

theorem LLS_decrypt_accepts_witness:
  "\<exists>c. LLS_decrypt (snippet c) (replicate 16 1) 1 1 = Inr [0] \<and> c = aenc [0] (llmi_ad 1 1 (snippet c)) (llmi_nonce (snippet c)) (replicate 16 1)"
proof -
  let ?k = "replicate 16 (1 :: u8)" and ?b = "snippet []"
  define c where "c = aenc [0] (llmi_ad 1 1 ?b) (llmi_nonce ?b) ?k"
  have k: "length ?k = 16" and one: "(1 :: nat) \<in> {1..4}" by simp_all
  have "length [0 :: u8] < 1000" by simp
  note s = snippet_decrypts [OF k this c_def]
  have "unat (bytelen (snippet c)) \<le> length (bytecode (snippet c))"
    using arg_cong [OF s(4), of length] unat_of_nat_le [of "length c"] by (simp add: snippet_def)
  from LLS_decrypt_accepts [OF s(1,2) one one k s(3) this] s(4,5)
  show ?thesis by (intro exI [of _ c]) metis
qed

section \<open>Execution\<close>

lemma LLS_loop_nops:
  "LLS_loop lb_c lb_r counter (replicate n 0) reg =
     (if n = 0 \<or> counter + n \<le> LLS_MAX_LENGTH then Inr reg else Inl LLSTooLong)"
proof (induction n arbitrary: counter)
  case (Suc n)
  have "LLS_step lb_c lb_r 0 ptr reg = Inr (ptr, reg)" for ptr by (simp add: LLS_step_def op_NOP_def)
  then show ?case using Suc [of "Suc counter"] by auto
qed simp

text \<open>
  The loop of \<^verbatim>\<open>LLS_execute\<close> stops at the limit of the configuration: a run of
  instructions without effect is executed to its end, and changes nothing, if there are at most
  that many of them, and is the error of the limit otherwise, however long it is.
\<close>

theorem LLS_execute_nops:
  "LLS_execute reg (replicate n 0) lb_c lb_r = (if n \<le> LLS_MAX_LENGTH then Inr reg else Inl LLSTooLong)"
  unfolding LLS_execute_def LLS_loop_nops by (cases n) simp_all

section \<open>Outputs\<close>

text \<open>
  C8: when the reveal flag is not set, all that \<^verbatim>\<open>SEeval\<close> returns are encryptions of words under
  the identifier of the multi-instruction and their positions; only with the flag, which the
  associated data of the snippet authenticates, are the words themselves returned.
\<close>

theorem SEeval_outputs:
  assumes "length e = HASH_INBYTES" and "l_out \<le> unat r" and "unat (out_count a) \<le> l_out"
    and "SEeval e ek a Cx r lb_m lb_r lb_c lb_o = Inr outs"
  shows "\<exists>ws. length ws = unat (out_count a) \<and>
    outs = (if reveal_flag a = 0
            then map (\<lambda>j. enc_word e (aells_instrID a) (of_nat j) (ws ! j)) [0..<unat (out_count a)]
            else map (be_bytes 4) ws)"
proof -
  obtain reg where o: "reveal_flag a \<noteq> 0 \<longrightarrow> EWORD_encode a reg r = Inr outs"
      "reveal_flag a = 0 \<longrightarrow> EWORD_encrypt a e reg r = Inr outs"
    using assms(4) by (auto simp: SEeval_def res_simps split: if_splits)
  let ?m = "mapM (\<lambda>j. bindr (read_at reg (unat r - l_out + j)) initialised) [0..<unat (out_count a)]"
  have reg: "out_register reg r j = bindr (read_at reg (unat r - l_out + j)) initialised"
    if "j \<in> set [0..<unat (out_count a)]" for j
    using that assms(2,3) by (intro out_register_eq) auto
  have ?thesis if ws: "?m = Inr ws" for ws
    using EWORD_outputs [OF assms(2,3,1) ws] o mapM_Inr_length [OF ws] by (intro exI [of _ ws]) auto
  moreover have "\<exists>ws. ?m = Inr ws"
  proof (cases ?m)
    case (Inl x)
    have "mapM f xs = Inr ys \<Longrightarrow> (\<And>j. j \<in> set xs \<Longrightarrow> f j = bindr (g j) (k j)) \<Longrightarrow> \<exists>zs. mapM g xs = Inr zs"
      for f :: "nat \<Rightarrow> EWORD res" and g :: "nat \<Rightarrow> uSE res" and k xs ys
      by (induction xs arbitrary: ys) (auto simp: res_simps)
    from this [of _ "[0..<unat (out_count a)]" outs "\<lambda>j. bindr (read_at reg (unat r - l_out + j)) initialised"]
    show ?thesis using o reg by (cases "reveal_flag a = 0") (auto simp: EWORD_encode_def EWORD_encrypt_def)
  qed blast
  ultimately show ?thesis by blast
qed

theorem SEeval_outputs_witness:
  "\<exists>c w. SEeval (replicate 32 9) (sealed_key (replicate 32 9) (replicate 16 1)) (snippet c) [] 40 1 1 4 1 =
     Inr [enc_word (replicate 32 9) 2 0 w]"
proof -
  let ?e = "replicate 32 (9 :: u8)" and ?k = "replicate 16 (1 :: u8)" and ?b = "snippet []"
  let ?m = "[0x10, 32, 0, 0, 0, 7] :: u8 list"
  define c where "c = aenc ?m (llmi_ad 1 1 ?b) (llmi_nonce ?b) ?k"
  have k: "length ?k = 16" and m: "length ?m < 1000" and e: "length ?e = HASH_INBYTES" "length ?e = 32"
    by (simp_all add: se_sizes)
  note s = snippet_decrypts [OF k m c_def]
  have "serialize_lls 40 1 [LLI O_MOV 32 (Src1 (ImmOperand 7))] = Some ?m"
    by (simp add: create_memdict_def uint_tobytes_def WORD_SIZE_def byte_simps)
  from LLS_execute_short [OF this, of "replicate 40 None"]
  have x: "LLS_execute (replicate 40 None) ?m 4 1 = Inr ((replicate 40 None)[32 := Some 7])"
    by (simp add: config_defs)
  have "EWORD_decrypt (replicate 40 None) (snippet c) ?e [] = Inr (replicate 40 None)"
    by (simp add: EWORD_decrypt_def snippet_def)
  then have "SEeval ?e (sealed_key ?e ?k) (snippet c) [] 40 1 1 4 1 = EWORD_encrypt (snippet c) ?e ((replicate 40 None)[32 := Some 7]) 40"
    using SEeval_eq [OF e(2) k, of "snippet c" "[]" 40 1 1 4 1] s(5) x by (simp add: snippet_def)
  also have "\<exists>outs. \<dots> = Inr outs"
    using EWORD_outputs(2) [of 40 "snippet c" ?e "(replicate 40 None)[32 := Some 7]" "[7]"] e(1)
    by (simp add: snippet_def config_defs initialised_def)
  finally obtain outs where o: "SEeval ?e (sealed_key ?e ?k) (snippet c) [] 40 1 1 4 1 = Inr outs" by blast
  from SEeval_outputs [OF e(1) _ _ o]
  have "\<exists>ws. length ws = 1 \<and> outs = [enc_word ?e 2 0 (ws ! 0)]"
    by (simp add: snippet_def config_defs)
  then show ?thesis using o by auto
qed

section \<open>Bytecode\<close>

text \<open>
  C19: \<^verbatim>\<open>interpret_meta\<close> accepts a bytecode exactly when its first 28 bytes are the six constants
  of the configuration in their order and a memory size, each big-endian in four bytes; it
  returns that size and the bytes behind.
\<close>

theorem interpret_meta_accepts:
  "interpret_meta bc = Inr (mc, rest) \<longleftrightarrow>
     bc = be_bytes 4 (of_nat VERSION :: u32) @ be_bytes 4 (of_nat WORD_SIZE :: u32) @
       be_bytes 4 (of_nat LLMI_MAX_INPUT_COUNT :: u32) @ be_bytes 4 (of_nat LLMI_MAX_OUTPUT_COUNT :: u32) @
       be_bytes 4 (of_nat REGISTER_COUNT :: u32) @ be_bytes 4 (of_nat LLS_MAX_LENGTH :: u32) @
       be_bytes 4 mc @ rest"
proof
  have ld: "load_bytes 4 p = Inr (w, q) \<longleftrightarrow> p = be_bytes 4 w @ q" for p w q
  proof
    assume "load_bytes 4 p = Inr (w, q)"
    then have l: "4 \<le> length p" "w = be_word (take 4 p)" "q = drop 4 p"
      by (auto simp: load_bytes_eq load_u32_be read_bytes_def res_simps split: if_splits)
    then show "p = be_bytes 4 w @ q" using be_bytes_4_word [of "take 4 p"] by simp
  qed (simp add: load_bytes_4)
  show "interpret_meta bc = Inr (mc, rest) \<Longrightarrow> bc = be_bytes 4 (of_nat VERSION :: u32) @ be_bytes 4 (of_nat WORD_SIZE :: u32) @
       be_bytes 4 (of_nat LLMI_MAX_INPUT_COUNT :: u32) @ be_bytes 4 (of_nat LLMI_MAX_OUTPUT_COUNT :: u32) @
       be_bytes 4 (of_nat REGISTER_COUNT :: u32) @ be_bytes 4 (of_nat LLS_MAX_LENGTH :: u32) @
       be_bytes 4 mc @ rest"
    by (auto simp: interpret_meta_def res_simps ld split: if_splits)
qed (simp add: interpret_meta_eq)

text \<open>
  C21: the field widths that the interpreter computes with single-precision logarithms are
  right for memories of up to 16777216 cells: the least number of bytes that all cell numbers
  fit into.
\<close>

theorem byte_length_exact:
  assumes "0 < n" and "n \<le> 2 ^ 24"
  shows "\<exists>b. byte_length n = Inr b \<and> n \<le> 256 ^ b \<and> (\<forall>c<b. 256 ^ c < n)"
proof -
  obtain b where b: "byte_length n = Inr b" "n \<le> 256 ^ b" "0 < b \<longrightarrow> 256 ^ (b - 1) < n"
    using byte_length_exact_lemma [OF assms] by blast
  have "256 ^ c < n" if "c < b" for c
  proof -
    have "(256 :: nat) ^ c \<le> 256 ^ (b - 1)" using that by (intro power_increasing) auto
    moreover have "256 ^ (b - 1) < n" using b(3) that by simp
    ultimately show ?thesis by (rule le_less_trans)
  qed
  with b show ?thesis by blast
qed

theorem byte_length_exact_witness:
  "\<exists>b. byte_length 257 = Inr b \<and> 257 \<le> (256 :: nat) ^ b \<and> 256 ^ (b - 1) < (257 :: nat)"
proof -
  obtain b where b: "byte_length 257 = Inr b" "257 \<le> (256 :: nat) ^ b" "\<forall>c<b. 256 ^ c < (257 :: nat)"
    using byte_length_exact [of 257] by auto
  then have "0 < b" by (cases b) auto
  with b show ?thesis by auto
qed

text \<open>
  Above that size they are not: for 16777217 cells the interpreter reads cell numbers of three
  bytes where the compiler writes four.
\<close>

lemma byte_length_too_short: "byte_length (2 ^ 24 + 1) = Inr 3 \<and> py_byte_length (2 ^ 24 + 1) = Some 4"
proof -
  have i: "ilog2 16777217 = 24" "ilog2 16777216 = 24" by (rule ilog2_unique; simp)+
  show ?thesis
    by (simp add: byte_length_def ceilf_log2f_def float_of_u32_def py_byte_length_def ceil_log2_def Let_def i)
qed

text \<open>
  C20: a bytecode with the right program is refused, before anything is computed, when bytes
  follow it, when the number of inputs given is not the program's, and when the number of
  outputs asked for is not, with the error that the code prints for each.
\<close>

theorem interpret_refuses:
  assumes "serialize ct key ir = Some bc" and "2 \<le> ir_memory_count ir" and "ir_memory_count ir \<le> 2 ^ 24"
    and "length ct = 64"
  shows "(extra \<noteq> [] \<longrightarrow> interpret_bytecode seal_open (bc @ extra) inps ni no = Inl TrailingBytecode) \<and>
    (ni \<noteq> of_nat (length (ir_prog_inputs ir)) \<longrightarrow>
       interpret_bytecode seal_open bc inps ni no = Inl (InvalidInputCount ni (of_nat (length (ir_prog_inputs ir))))) \<and>
    (ni = of_nat (length (ir_prog_inputs ir)) \<and> no \<noteq> of_nat (length (ir_prog_outputs ir)) \<longrightarrow>
       interpret_bytecode seal_open bc inps ni no = Inl (InvalidOutputCount no (of_nat (length (ir_prog_outputs ir)))))"
proof -
  let ?mc = "ir_memory_count ir" and ?cells = "ir_prog_inputs ir" and ?po = "ir_prog_outputs ir"
  let ?n = "length ?cells"
  obtain lb_m nb ins ob os lc ls where p: "byte_length ?mc = Inr lb_m" "lb_m \<in> {1..4}" "lb_m \<le> 3"
      "uint_tobytes ?n lb_m = Some nb" "concat_opt (map (create_memdict ?mc lb_m) ?cells) = Some ins"
      "uint_tobytes (length ?po) lb_m = Some ob" "concat_opt (map (create_memdict ?mc lb_m) ?po) = Some os"
      "uint_tobytes (length (ir_instrs ir)) 4 = Some lc"
      "serialize_llmis key lb_m 1 1 ?mc ?po (1 + (?n div l_out + 1)) (input_ids ?cells) (ir_instrs ir) = Some ls"
      "\<And>rest. interpret_meta (bc @ rest) = Inr (of_nat ?mc, ct @ nb @ ins @ ob @ os @ lc @ ls @ rest)"
    by (rule serialize_parts [OF assms(1-3)]) blast
  have one: "(1 :: nat) \<in> {1..4}" by simp
  have prog: "\<exists>ll. interpret_prog lb_m 1 (nb @ ins @ ob @ os @ lc @ ls @ rest) =
       Inr (\<lparr>prog_inp_count = of_nat ?n, prog_out_count = of_nat (length ?po), prog_mem_inps = map of_nat ?cells,
             prog_mem_outs = map of_nat ?po, llmi_count = of_nat (length (ir_instrs ir)), llmis = ll\<rparr>, rest)" for rest
    by (rule interpret_prog_parts [OF p(4-9) p(2) one, where rest = rest]) blast
  have mc: "unat (of_nat ?mc :: u32) = ?mc" using assms(3) by (simp add: unat_of_nat)
  note run = interpret_bytecode_def p(1) mc small_byte_lengths Let_def skip_bytes_def CT_SEPUB_INBYTES_def
  have "interpret_bytecode seal_open (bc @ extra) inps ni no = Inl TrailingBytecode" if "extra \<noteq> []"
    using p(10) [of extra] prog [of extra] assms(4) that by (auto simp: run)
  moreover have "interpret_bytecode seal_open bc inps ni no = Inl (InvalidInputCount ni (of_nat ?n))" if "ni \<noteq> of_nat ?n"
    using p(10) [of "[]"] prog [of "[]"] assms(4) that by (auto simp: run)
  moreover have "interpret_bytecode seal_open bc inps ni no = Inl (InvalidOutputCount no (of_nat (length ?po)))"
    if "ni = of_nat ?n" "no \<noteq> of_nat (length ?po)"
    using p(10) [of "[]"] prog [of "[]"] assms(4) that by (auto simp: run)
  ultimately show ?thesis by blast
qed

theorem interpret_refuses_witness:
  "\<exists>bc. serialize (replicate 64 0) (replicate 16 1) add_five = Some bc \<and>
     interpret_bytecode (\<lambda>_ _ _. None) (bc @ [0]) [Some 7] 1 1 = Inl TrailingBytecode \<and>
     interpret_bytecode (\<lambda>_ _ _. None) bc [Some 7] 2 1 = Inl (InvalidInputCount 2 1) \<and>
     interpret_bytecode (\<lambda>_ _ _. None) bc [Some 7] 1 0 = Inl (InvalidOutputCount 0 1)"
proof -
  obtain bc where bc: "serialize (replicate 64 0) (replicate 16 1) add_five = Some bc"
    using serialize_add_five by fastforce
  have mc: "2 \<le> ir_memory_count add_five" "ir_memory_count add_five \<le> 2 ^ 24" by (simp_all add: add_five_def)
  note r = interpret_refuses [OF bc mc, of _ "\<lambda>_ _ _. None" "[Some 7]"]
  show ?thesis
    using bc r [of "[0]" 1 1] r [of "[]" 2 1] r [of "[]" 1 0] by (simp add: add_five_def)
qed

end
