(* ===== verification/Ascon_Words.thy ===== *)
theory Ascon_Words
  imports Prelude
begin

text \<open>
  The words of the Ascon program: \<^verbatim>\<open>programs/Ascon32/interleave.h\<close>, \<^verbatim>\<open>endian.h\<close> and
  \<^verbatim>\<open>word.h\<close>. A 64-bit word is kept as two 32-bit words, its even and its odd bits, so that
  rotations of the 64-bit word are rotations of the halves. Memory that the code accesses
  through \<^verbatim>\<open>uint64_t *\<close> is a list of bytes, little-endian, and an access that does not fit into
  the list is the error \<open>OutOfBounds\<close>.
\<close>

section \<open>interleave.h\<close>

text \<open>\<^verbatim>\<open>t = (x ^ (x >> k)) & m, x ^= t ^ (t << k)\<close>\<close>

definition swap_step :: "u32 \<Rightarrow> nat \<Rightarrow> u32 \<Rightarrow> u32" where
  "swap_step m k x = (let t = (x XOR drop_bit k x) AND m in x XOR (t XOR push_bit k t))"

definition deinterleave_uint32 :: "u32 \<Rightarrow> u32" where
  "deinterleave_uint32 x =
     (let x = swap_step 0x22222222 1 x; x = swap_step 0x0C0C0C0C 2 x;
          x = swap_step 0x00F000F0 4 x; x = swap_step 0x0000FF00 8 x in x)"

definition interleave_uint32 :: "u32 \<Rightarrow> u32" where
  "interleave_uint32 x =
     (let x = swap_step 0x0000FF00 8 x; x = swap_step 0x00F000F0 4 x;
          x = swap_step 0x0C0C0C0C 2 x; x = swap_step 0x22222222 1 x in x)"

definition deinterleave32 :: "u64 \<Rightarrow> u64" where
  "deinterleave32 inp =
     (let hi = ucast (drop_bit 32 inp) :: u32; lo = ucast inp :: u32;
          lo = deinterleave_uint32 lo; hi = deinterleave_uint32 hi;
          r0 = (lo AND 0x0000FFFF) OR push_bit 16 hi;
          r1 = drop_bit 16 lo OR (hi AND 0xFFFF0000)
      in push_bit 32 (ucast r1) OR ucast r0)"

definition interleave32 :: "u64 \<Rightarrow> u64" where
  "interleave32 inp =
     (let r0 = ucast inp :: u32; r1 = ucast (drop_bit 32 inp) :: u32;
          lo = (r0 AND 0x0000FFFF) OR push_bit 16 r1;
          hi = drop_bit 16 r0 OR (r1 AND 0xFFFF0000);
          lo = interleave_uint32 lo; hi = interleave_uint32 hi
      in push_bit 32 (ucast hi) OR ucast lo)"

section \<open>endian.h\<close>

text \<open>The macro for little-endian machines.\<close>

definition U64BIG :: "u64 \<Rightarrow> u64" where
  "U64BIG x =
     push_bit 56 (0x00000000000000FF AND x) OR push_bit 40 (0x000000000000FF00 AND x) OR
     push_bit 24 (0x0000000000FF0000 AND x) OR push_bit 8 (0x00000000FF000000 AND x) OR
     drop_bit 8 (0x000000FF00000000 AND x) OR drop_bit 24 (0x0000FF0000000000 AND x) OR
     drop_bit 40 (0x00FF000000000000 AND x) OR drop_bit 56 (0xFF00000000000000 AND x)"

section \<open>word.h\<close>

record word_t =
  we :: u32
  wo :: u32

definition ROR32 :: "u32 \<Rightarrow> nat \<Rightarrow> u32" where
  "ROR32 x n = (if n = 0 then x else drop_bit n x OR push_bit (32 - n) x)"

definition ROR_w :: "word_t \<Rightarrow> nat \<Rightarrow> word_t" where
  "ROR_w x n =
     \<lparr>we = (if n mod 2 \<noteq> 0 then ROR32 (wo x) ((n - 1) div 2) else ROR32 (we x) (n div 2)),
      wo = (if n mod 2 \<noteq> 0 then ROR32 (we x) ((n + 1) div 2) else ROR32 (wo x) (n div 2))\<rparr>"

definition WORD_T :: "u64 \<Rightarrow> word_t" where
  "WORD_T x = \<lparr>we = ucast x, wo = ucast (drop_bit 32 x)\<rparr>"

definition UINT64_T :: "word_t \<Rightarrow> u64" where
  "UINT64_T x = push_bit 32 (ucast (wo x)) OR ucast (we x)"

definition U64TOWORD :: "u64 \<Rightarrow> word_t" where
  "U64TOWORD x = WORD_T (deinterleave32 x)"

definition WORDTOU64 :: "word_t \<Rightarrow> u64" where
  "WORDTOU64 w = interleave32 (UINT64_T w)"

definition NOT_w :: "word_t \<Rightarrow> word_t" where
  "NOT_w a = a\<lparr>we := NOT (we a), wo := NOT (wo a)\<rparr>"

definition XOR_w :: "word_t \<Rightarrow> word_t \<Rightarrow> word_t" where
  "XOR_w a b = a\<lparr>we := we a XOR we b, wo := wo a XOR wo b\<rparr>"

definition AND_w :: "word_t \<Rightarrow> word_t \<Rightarrow> word_t" where
  "AND_w a b = a\<lparr>we := we a AND we b, wo := wo a AND wo b\<rparr>"

definition KEYROT :: "word_t \<Rightarrow> word_t \<Rightarrow> word_t" where
  "KEYROT lo2hi hi2lo =
     \<lparr>we = push_bit 16 (we lo2hi) OR drop_bit 16 (we hi2lo), wo = push_bit 16 (wo lo2hi) OR drop_bit 16 (wo hi2lo)\<rparr>"

text \<open>The last line computes in \<^verbatim>\<open>int\<close>, with an arithmetic shift.\<close>

definition NOTZERO :: "word_t \<Rightarrow> word_t \<Rightarrow> int" where
  "NOTZERO a b =
     (let result = we a OR wo a OR we b OR wo b;
          result = result OR drop_bit 16 result;
          result = result OR drop_bit 8 result
      in (drop_bit 8 (uint (result AND 0xff) - 1) AND 1) - 1)"

definition PAD :: "nat \<Rightarrow> word_t" where
  "PAD i = WORD_T (push_bit 32 (push_bit (28 - 4 * i) 0x8))"

definition CLEAR :: "word_t \<Rightarrow> nat \<Rightarrow> word_t" where
  "CLEAR w n =
     (let mask = drop_bit (n * 4 - 4) 0x0fffffff
      in w\<lparr>we := we w AND mask, wo := wo w AND mask\<rparr>)"

definition MASK :: "nat \<Rightarrow> u64" where
  "MASK n = drop_bit (64 - 8 * n) (NOT 0)"

text \<open>\<^verbatim>\<open>*(uint64_t*)bytes\<close> as a value and as bytes.\<close>

definition le64 :: "u8 list \<Rightarrow> u64" where
  "le64 b = ucast (words_of_bytes b ! 0) OR push_bit 32 (ucast (words_of_bytes b ! 1))"

definition le64_bytes :: "u64 \<Rightarrow> u8 list" where
  "le64_bytes x = bytes_of_words [ucast x, ucast (drop_bit 32 x)]"

text \<open>\<open>LOAD bs i n\<close> is \<^verbatim>\<open>LOAD(bytes + i, n)\<close>; it reads 8 bytes whatever \<open>n\<close> is.\<close>

definition LOAD :: "u8 list \<Rightarrow> nat \<Rightarrow> nat \<Rightarrow> word_t res" where
  "LOAD bs i n = bindr (read_bytes (drop i bs) 8) (\<lambda>b. Inr (U64TOWORD (U64BIG (le64 b AND MASK n))))"

text \<open>It writes 8 bytes: those behind the first \<open>n\<close> are combined with the rest of the word.\<close>

definition STORE :: "u8 list \<Rightarrow> nat \<Rightarrow> word_t \<Rightarrow> nat \<Rightarrow> u8 list res" where
  "STORE bs i w n =
     (let x = WORDTOU64 w
      in bindr (read_bytes (drop i bs) 8) (\<lambda>b.
         let y = le64 b AND NOT (MASK n); y = y OR U64BIG x
         in Inr (take i bs @ le64_bytes y @ drop (i + 8) bs)))"

definition LOADBYTES :: "u8 list \<Rightarrow> nat \<Rightarrow> nat \<Rightarrow> word_t res" where
  "LOADBYTES bs i n =
     bindr (read_bytes (drop i bs) n) (\<lambda>b.
       Inr (U64TOWORD (le64 (fold (\<lambda>j x. x[7 - j := b ! j]) [0..<n] (replicate 8 0)))))"

definition STOREBYTES :: "u8 list \<Rightarrow> nat \<Rightarrow> word_t \<Rightarrow> nat \<Rightarrow> u8 list res" where
  "STOREBYTES bs i w n =
     (let x = WORDTOU64 w
      in foldM (\<lambda>j bs. write_at bs (i + j) (le64_bytes x ! (7 - j))) [0..<n] bs)"

section \<open>Bits of interleaved words\<close>

lemma bit_swap_step:
  assumes "\<And>j. bit m j \<Longrightarrow> k \<le> j \<Longrightarrow> \<not> bit m (j - k)" "j < 32"
  shows "bit (swap_step m k x) j =
    (if bit m j then bit x (j + k) else if k \<le> j \<and> bit m (j - k) then bit x (j - k) else bit x j)"
  using assms by (auto simp: swap_step_def Let_def bit_simps add.commute)

lemma u32_bit_cases:
  assumes "j < (32 :: nat)"
  obtains "j = 0" | "j = 1" | "j = 2" | "j = 3" | "j = 4" | "j = 5" | "j = 6" | "j = 7" | "j = 8" | "j = 9"
    | "j = 10" | "j = 11" | "j = 12" | "j = 13" | "j = 14" | "j = 15" | "j = 16" | "j = 17" | "j = 18" | "j = 19"
    | "j = 20" | "j = 21" | "j = 22" | "j = 23" | "j = 24" | "j = 25" | "j = 26" | "j = 27" | "j = 28" | "j = 29"
    | "j = 30" | "j = 31"
  using assms by (fastforce simp: numeral_eq_Suc less_Suc_eq)

lemma mask_disjoint:
  assumes "m AND push_bit k m = (0 :: u32)" "bit m j" "k \<le> j"
  shows "\<not> bit m (j - k)"
proof
  assume "bit m (j - k)"
  moreover have "j < 32" using assms(2) by (auto dest: bit_imp_le_length)
  ultimately have "bit (m AND push_bit k m) j" using assms(2,3) by (simp add: bit_simps)
  then show False using assms(1) by simp
qed

lemma bit_swap_masks:
  assumes "j < 32"
  shows
    "bit (swap_step 0x22222222 (Suc 0) x) j =
       (if bit (0x22222222 :: u32) j then bit x (j + Suc 0)
        else if Suc 0 \<le> j \<and> bit (0x22222222 :: u32) (j - Suc 0) then bit x (j - Suc 0) else bit x j)"
    "bit (swap_step 0x0C0C0C0C 2 x) j =
       (if bit (0x0C0C0C0C :: u32) j then bit x (j + 2)
        else if 2 \<le> j \<and> bit (0x0C0C0C0C :: u32) (j - 2) then bit x (j - 2) else bit x j)"
    "bit (swap_step 0x00F000F0 4 x) j =
       (if bit (0x00F000F0 :: u32) j then bit x (j + 4)
        else if 4 \<le> j \<and> bit (0x00F000F0 :: u32) (j - 4) then bit x (j - 4) else bit x j)"
    "bit (swap_step 0x0000FF00 8 x) j =
       (if bit (0x0000FF00 :: u32) j then bit x (j + 8)
        else if 8 \<le> j \<and> bit (0x0000FF00 :: u32) (j - 8) then bit x (j - 8) else bit x j)"
  using assms by (intro bit_swap_step mask_disjoint; simp)+

lemma bit_interleave_uint32:
  assumes "j < 32"
  shows "bit (interleave_uint32 x) j = bit x (if even j then j div 2 else 16 + j div 2)"
  by (rule u32_bit_cases [OF assms]; simp add: interleave_uint32_def bit_swap_masks)

lemma bit_deinterleave_uint32:
  assumes "j < 32"
  shows "bit (deinterleave_uint32 x) j = bit x (if j < 16 then 2 * j else 2 * (j - 16) + 1)"
  by (rule u32_bit_cases [OF assms]; simp add: deinterleave_uint32_def bit_swap_masks flip: numeral_2_eq_2)

lemma half_masks: "(0x0000FFFF :: u32) = mask 16" "(0xFFFF0000 :: u32) = push_bit 16 (mask 16)"
  by (simp_all add: mask_eq_exp_minus_1)

lemma bit_u32_high [simp]: "32 \<le> n \<Longrightarrow> \<not> bit (a :: u32) n"
  by (auto dest: bit_imp_le_length)

lemma bit_u64_high [simp]: "64 \<le> n \<Longrightarrow> \<not> bit (a :: u64) n"
  by (auto dest: bit_imp_le_length)

lemma bit_half_masks [simp]:
  "bit (0x0000FFFF :: u32) n = (n < 16)" "bit (0xFFFF0000 :: u32) n = (16 \<le> n \<and> n < 32)"
  unfolding half_masks by (auto simp: bit_simps)

lemma bit_half_masks_int [simp]: "bit (65535 :: int) n = (n < 16)" "bit (4294901760 :: int) n = (16 \<le> n \<and> n < 32)"
proof -
  have m: "(65535 :: int) = mask 16" "(4294901760 :: int) = push_bit 16 (mask 16)"
    by (simp_all add: mask_eq_exp_minus_1 push_bit_eq_mult)
  show "bit (65535 :: int) n = (n < 16)" "bit (4294901760 :: int) n = (16 \<le> n \<and> n < 32)"
    unfolding m by (auto simp: bit_simps)
qed

lemma bit_packed:
  "j < 32 \<Longrightarrow> bit ((a AND 0x0000FFFF) OR push_bit 16 b :: u32) j = (if j < 16 then bit a j else bit b (j - 16))"
  "j < 32 \<Longrightarrow> bit (drop_bit 16 a OR (b AND 0xFFFF0000) :: u32) j = (if j < 16 then bit a (16 + j) else bit b j)"
  unfolding half_masks by (auto simp: bit_simps)

lemma UINT64_T_halves [simp]: "ucast (UINT64_T w) = we w" "ucast (drop_bit 32 (UINT64_T w)) = wo w"
  by (rule bit_word_eqI, auto simp: UINT64_T_def bit_simps)+

lemma bit_WORDTOU64:
  assumes "i < 64"
  shows "bit (WORDTOU64 w) i = bit (if even i then we w else wo w) (i div 2)"
proof (cases "i < 32")
  case True
  then have "i div 2 < 16" by linarith
  with True show ?thesis
    by (simp add: WORDTOU64_def interleave32_def Let_def bit_simps bit_interleave_uint32 bit_packed)
next
  case False
  define j where "j = i - 32"
  have j: "i = j + 32" "j < 32" using False assms by (simp_all add: j_def)
  then have "j div 2 < 16" "(j + 32) div 2 = j div 2 + 16" by linarith+
  with j show ?thesis
    by (simp add: add.commute [of 16] WORDTOU64_def interleave32_def Let_def bit_simps bit_interleave_uint32 bit_packed)
qed

lemma WORD_T_pack [simp]: "WORD_T (push_bit 32 (ucast b) OR ucast a) = \<lparr>we = a, wo = b\<rparr>"
  by (simp add: WORD_T_def) (rule conjI; rule bit_word_eqI; auto simp: bit_simps)

lemma bit_U64TOWORD:
  assumes "j < 32"
  shows "bit (we (U64TOWORD x)) j = bit x (2 * j)" "bit (wo (U64TOWORD x)) j = bit x (2 * j + 1)"
proof -
  show "bit (we (U64TOWORD x)) j = bit x (2 * j)"
  proof (cases "j < 16")
    case True
    with assms show ?thesis
      by (simp add: U64TOWORD_def deinterleave32_def Let_def bit_packed bit_deinterleave_uint32 bit_simps)
  next
    case False
    then have "2 * (j - 16) < 32" "32 + 2 * (j - 16) = 2 * j" using assms by linarith+
    with assms False show ?thesis
      by (simp add: U64TOWORD_def deinterleave32_def Let_def bit_packed bit_deinterleave_uint32 bit_simps)
  qed
  show "bit (wo (U64TOWORD x)) j = bit x (2 * j + 1)"
  proof (cases "j < 16")
    case True
    with assms show ?thesis
      by (simp add: U64TOWORD_def deinterleave32_def Let_def bit_packed bit_deinterleave_uint32 bit_simps)
  next
    case False
    then have "Suc (2 * (j - 16)) < 32" "32 + Suc (2 * (j - 16)) = Suc (2 * j)" using assms by linarith+
    with assms False show ?thesis
      by (simp add: U64TOWORD_def deinterleave32_def Let_def bit_packed bit_deinterleave_uint32 bit_simps)
  qed
qed

lemma WORDTOU64_U64TOWORD [simp]: "WORDTOU64 (U64TOWORD x) = x"
proof (rule bit_word_eqI)
  fix i assume "i < LENGTH(64)"
  then have i: "i < 64" "i div 2 < 32" by simp_all
  then show "bit (WORDTOU64 (U64TOWORD x)) i = bit x i"
    by (cases "even i") (simp_all add: bit_WORDTOU64 bit_U64TOWORD odd_two_times_div_two_succ)
qed

lemma U64TOWORD_WORDTOU64 [simp]: "U64TOWORD (WORDTOU64 w) = w"
proof -
  have "we (U64TOWORD (WORDTOU64 w)) = we w" "wo (U64TOWORD (WORDTOU64 w)) = wo w"
    by (rule bit_word_eqI, simp add: bit_U64TOWORD bit_WORDTOU64)+
  then show ?thesis by simp
qed

lemma WORDTOU64_inject: "WORDTOU64 v = WORDTOU64 w \<longleftrightarrow> v = w"
  by (metis U64TOWORD_WORDTOU64)

text \<open>The operations on interleaved words are the operations on the 64-bit words.\<close>

lemma WORDTOU64_logic [simp]:
  "WORDTOU64 (XOR_w a b) = WORDTOU64 a XOR WORDTOU64 b"
  "WORDTOU64 (AND_w a b) = WORDTOU64 a AND WORDTOU64 b"
  "WORDTOU64 (NOT_w a) = NOT (WORDTOU64 a)"
  by (rule bit_word_eqI, auto simp: XOR_w_def AND_w_def NOT_w_def bit_WORDTOU64 bit_simps)+

lemma bit_ROR32: "n < 32 \<Longrightarrow> j < 32 \<Longrightarrow> bit (ROR32 x n) j = bit x ((j + n) mod 32)"
  by (auto simp: ROR32_def bit_simps mod_if add.commute)

lemma WORDTOU64_ROR:
  assumes "n < 63"
  shows "WORDTOU64 (ROR_w x n) = word_rotr n (WORDTOU64 x)"
proof (rule bit_word_eqI)
  fix i assume "i < LENGTH(64)"
  then have i: "i < 64" by simp
  have k: "(i + n) mod 64 < 64" by simp
  have div: "(i + n) mod 64 div 2 = (i + n) div 2 mod 32"
    using div_mult2_eq [of "i + n" 2 32] by (simp add: mod_mult2_eq' [of _ 2 32, simplified])
  have par: "even ((i + n) mod 64) = even (i + n)" by (simp add: even_iff_mod_2_eq_zero mod_mod_cancel)
  have "bit (WORDTOU64 (ROR_w x n)) i = bit (if even (i + n) then we x else wo x) ((i + n) div 2 mod 32)"
  proof (cases "even n")
    case True
    then obtain m where m: "n = 2 * m" by (elim evenE)
    then have "(i + n) div 2 = i div 2 + m" by simp
    with m assms i show ?thesis by (auto simp: bit_WORDTOU64 ROR_w_def bit_ROR32 add.commute)
  next
    case False
    then obtain m where m: "n = 2 * m + 1" by (elim oddE)
    have "(i + n) div 2 = (if even i then i div 2 + m else i div 2 + m + 1)" using m by (auto elim!: evenE oddE)
    with m assms i show ?thesis by (auto simp: bit_WORDTOU64 ROR_w_def bit_ROR32)
  qed
  also have "\<dots> = bit (WORDTOU64 x) ((i + n) mod 64)" unfolding bit_WORDTOU64 [OF k] div par ..
  also have "\<dots> = bit (word_rotr n (WORDTOU64 x)) i" using i by (simp add: bit_word_rotr_iff add.commute)
  finally show "bit (WORDTOU64 (ROR_w x n)) i = bit (word_rotr n (WORDTOU64 x)) i" .
qed

section \<open>Words as eight bytes\<close>

lemma bit_le64:
  assumes "length b = 8" "i < 64"
  shows "bit (le64 b) i = bit (b ! (i div 8)) (i mod 8)"
proof (cases "i < 32")
  case True
  with assms show ?thesis by (simp add: le64_def bit_simps bit_words_of_bytes)
next
  case False
  define j where "j = i - 32"
  have j: "i = j + 32" "j < 32" using False assms by (simp_all add: j_def)
  then have "i div 8 = 4 + j div 8" "i mod 8 = j mod 8" using mod_mult_self1 [of j 4 8] by simp_all
  with assms j show ?thesis by (simp add: le64_def bit_simps bit_words_of_bytes add.commute)
qed

lemma up_to_7: "k < (8 :: nat) \<longleftrightarrow> k = 0 \<or> k = 1 \<or> k = 2 \<or> k = 3 \<or> k = 4 \<or> k = 5 \<or> k = 6 \<or> k = 7"
  by linarith

lemma length_le64_bytes [simp]: "length (le64_bytes x) = 8"
  by (simp add: le64_bytes_def)

lemma bit_le64_bytes:
  assumes "k < 8" "t < 8"
  shows "bit (le64_bytes x ! k) t = bit x (8 * k + t)"
  using assms unfolding up_to_7 [of k]
  by (elim disjE) (simp_all add: le64_bytes_def le_bytes_def bit_simps)

lemma bytes_eqI:
  fixes a b :: "u8 list"
  assumes "length a = length b" "\<And>k t. k < length b \<Longrightarrow> t < 8 \<Longrightarrow> bit (a ! k) t = bit (b ! k) t"
  shows "a = b"
  using assms by (intro nth_equalityI bit_word_eqI) auto

lemma le64_bytes_le64 [simp]: "length b = 8 \<Longrightarrow> le64_bytes (le64 b) = b"
  by (rule bytes_eqI) (simp_all add: bit_le64_bytes bit_le64)

lemma le64_le64_bytes [simp]: "le64 (le64_bytes x) = x"
  by (rule bit_word_eqI) (simp add: bit_le64 bit_le64_bytes less_mult_imp_div_less)

lemma U64BIG_masks:
  "(0x00000000000000FF :: u64) = mask 8" "(0x000000000000FF00 :: u64) = push_bit 8 (mask 8)"
  "(0x0000000000FF0000 :: u64) = push_bit 16 (mask 8)" "(0x00000000FF000000 :: u64) = push_bit 24 (mask 8)"
  "(0x000000FF00000000 :: u64) = push_bit 32 (mask 8)" "(0x0000FF0000000000 :: u64) = push_bit 40 (mask 8)"
  "(0x00FF000000000000 :: u64) = push_bit 48 (mask 8)" "(0xFF00000000000000 :: u64) = push_bit 56 (mask 8)"
  by (simp_all add: mask_eq_exp_minus_1)

lemma bit_U64BIG:
  assumes "q < 8" "t < 8"
  shows "bit (U64BIG x) (8 * q + t) = bit x (8 * (7 - q) + t)"
  using assms unfolding up_to_7 [of q] U64BIG_def U64BIG_masks
  by (elim disjE) (simp_all add: bit_simps)

text \<open>The bytes of a word in the order of the memory.\<close>

definition wbytes :: "word_t \<Rightarrow> u8 list" where
  "wbytes w = le64_bytes (U64BIG (WORDTOU64 w))"

lemma length_wbytes [simp]: "length (wbytes w) = 8"
  by (simp add: wbytes_def)

lemma bit_wbytes: "k < 8 \<Longrightarrow> t < 8 \<Longrightarrow> bit (wbytes w ! k) t = bit (WORDTOU64 w) (8 * (7 - k) + t)"
  by (simp add: wbytes_def bit_le64_bytes bit_U64BIG)

lemma U64BIG_U64BIG [simp]: "U64BIG (U64BIG x) = x"
proof (rule bit_word_eqI)
  fix i assume "i < LENGTH(64)"
  then have "i = 8 * (i div 8) + i mod 8" "i div 8 < 8" "i mod 8 < 8" by simp_all
  then show "bit (U64BIG (U64BIG x)) i = bit x i"
    using bit_U64BIG [of "i div 8" "i mod 8" "U64BIG x"] bit_U64BIG [of "7 - i div 8" "i mod 8" x] by simp
qed

lemma wbytes_inject: "wbytes v = wbytes w \<longleftrightarrow> v = w"
  unfolding wbytes_def by (metis U64BIG_U64BIG U64TOWORD_WORDTOU64 le64_le64_bytes)

lemma wbytes_le64 [simp]: "length b = 8 \<Longrightarrow> wbytes (U64TOWORD (U64BIG (le64 b))) = b"
  by (simp add: wbytes_def)

lemma wbytes_xor [simp]: "wbytes (XOR_w a b) = xor_list (wbytes a) (wbytes b)"
  by (rule bytes_eqI) (simp_all add: bit_wbytes bit_simps)

text \<open>The word whose leading bytes are \<open>b\<close> and whose other bytes are 0.\<close>

definition wpad :: "u8 list \<Rightarrow> word_t" where
  "wpad b = U64TOWORD (U64BIG (le64 (b @ replicate (8 - length b) 0)))"

lemma wbytes_wpad [simp]: "length b \<le> 8 \<Longrightarrow> wbytes (wpad b) = b @ replicate (8 - length b) 0"
  by (simp add: wpad_def)

lemma bit_MASK: "n \<in> {1..8} \<Longrightarrow> i < 64 \<Longrightarrow> bit (MASK n) i = (i < 8 * n)"
  by (auto simp: MASK_def bit_simps)

lemma LOAD_eq:
  assumes "i + 8 \<le> length bs" "n \<in> {1..8}"
  shows "LOAD bs i n = Inr (wpad (take n (drop i bs)))"
proof -
  let ?b = "take 8 (drop i bs)" and ?c = "take n (drop i bs)"
  have len: "length ?b = 8" "length ?c = n" using assms by auto
  have "le64 ?b AND MASK n = le64 (?c @ replicate (8 - n) 0)"
  proof (rule bit_word_eqI)
    fix j assume "j < LENGTH(64)"
    then have j: "j < 64" "j div 8 < 8" by simp_all
    have "j < 8 * n \<longleftrightarrow> j div 8 < n" by (simp add: div_less_iff_less_mult mult.commute)
    then show "bit (le64 ?b AND MASK n) j = bit (le64 (?c @ replicate (8 - n) 0)) j"
      using assms j len by (auto simp: bit_and_iff bit_MASK bit_le64 nth_append)
  qed
  then show ?thesis using assms(1) len(2) by (simp add: LOAD_def wpad_def)
qed

lemma LOAD_out_of_bounds: "\<not> i + 8 \<le> length bs \<Longrightarrow> LOAD bs i n = Inl OutOfBounds"
  by (simp add: LOAD_def)

lemma STORE_eq:
  assumes "i + 8 \<le> length bs" "n \<in> {1..8}"
  shows "\<exists>g. length g = 8 - n \<and> STORE bs i w n = Inr (take i bs @ take n (wbytes w) @ g @ drop (i + 8) bs)"
proof -
  let ?b = "take 8 (drop i bs)"
  let ?y = "le64 ?b AND NOT (MASK n) OR U64BIG (WORDTOU64 w)"
  have len: "length ?b = 8" using assms by auto
  have "take n (le64_bytes ?y) = take n (wbytes w)"
  proof (rule bytes_eqI)
    fix k t assume kt: "k < length (take n (wbytes w))" "t < (8 :: nat)"
    then have k: "k < 8" "k < n" "8 * k + t < 8 * n" "8 * k + t < 64" by auto
    then show "bit (take n (le64_bytes ?y) ! k) t = bit (take n (wbytes w) ! k) t"
      using kt(2) assms(2) by (simp add: bit_le64_bytes bit_simps bit_MASK wbytes_def)
  qed simp
  then have "le64_bytes ?y = take n (wbytes w) @ drop n (le64_bytes ?y)" by (metis append_take_drop_id)
  then have "STORE bs i w n = Inr (take i bs @ take n (wbytes w) @ drop n (le64_bytes ?y) @ drop (i + 8) bs)"
    using assms(1) by (simp add: STORE_def Let_def)
  then show ?thesis by (intro exI [of _ "drop n (le64_bytes ?y)"]) simp
qed

lemma STORE_8: "i + 8 \<le> length bs \<Longrightarrow> STORE bs i w 8 = Inr (take i bs @ wbytes w @ drop (i + 8) bs)"
  using STORE_eq [of i bs 8 w] by auto

lemma STORE_out_of_bounds: "\<not> i + 8 \<le> length bs \<Longrightarrow> STORE bs i w n = Inl OutOfBounds"
  by (simp add: STORE_def Let_def)

lemma STOREBYTES_8:
  assumes "i + 8 \<le> length bs"
  shows "STOREBYTES bs i w 8 = Inr (take i bs @ wbytes w @ drop (i + 8) bs)"
proof -
  let ?x = "WORDTOU64 w"
  have rev: "le64_bytes ?x ! (7 - j) = wbytes w ! j" if "j < 8" for j
    using that by (intro bit_word_eqI) (simp add: bit_le64_bytes bit_wbytes)
  have "foldM (\<lambda>j bs. write_at bs (i + j) (le64_bytes ?x ! (7 - j))) [0..<n] bs =
      Inr (take i bs @ take n (wbytes w) @ drop (i + n) bs)" if "n \<le> 8" for n
    using that
  proof (induction n)
    case (Suc n)
    have "drop (i + n) bs = bs ! (i + n) # drop (i + Suc n) bs"
      using assms Suc.prems by (simp add: Cons_nth_drop_Suc)
    then show ?case
      using Suc assms rev [of n]
      by (simp add: foldM_append list_update_append take_Suc_conv_app_nth)
  qed simp
  from this [of 8] show ?thesis by (simp add: STOREBYTES_def Let_def)
qed

lemma length_8:
  "length xs = 8 \<Longrightarrow> \<exists>b0 b1 b2 b3 b4 b5 b6 b7. xs = [b0, b1, b2, b3, b4, b5, b6, b7]"
  by (auto simp: numeral_eq_Suc length_Suc_conv)

lemma LOADBYTES_8:
  assumes "i + 8 \<le> length bs"
  shows "LOADBYTES bs i 8 = Inr (wpad (take 8 (drop i bs)))"
proof -
  obtain b0 b1 b2 b3 b4 b5 b6 b7 where b: "take 8 (drop i bs) = [b0, b1, b2, b3, b4, b5, b6, b7]"
    using assms length_8 [of "take 8 (drop i bs)"] by auto
  have "[0..<8] = [0, 1, 2, 3, 4, 5, 6, 7 :: nat]" by (simp add: upt_rec)
  then have "fold (\<lambda>j x. x[7 - j := take 8 (drop i bs) ! j]) [0..<8] (replicate 8 0) = [b7, b6, b5, b4, b3, b2, b1, b0]"
    unfolding b by (simp add: numeral_eq_Suc)
  moreover have "le64 [b7, b6, b5, b4, b3, b2, b1, b0] = U64BIG (le64 [b0, b1, b2, b3, b4, b5, b6, b7])"
  proof (rule bit_word_eqI)
    fix j assume "j < LENGTH(64)"
    then have j: "j = 8 * (j div 8) + j mod 8" "j div 8 < 8" "j mod 8 < 8" by simp_all
    have "bit (U64BIG (le64 [b0, b1, b2, b3, b4, b5, b6, b7])) j =
        bit ([b0, b1, b2, b3, b4, b5, b6, b7] ! (7 - j div 8)) (j mod 8)"
      using bit_U64BIG [OF j(2,3)] j by (simp add: bit_le64)
    moreover have "[b7, b6, b5, b4, b3, b2, b1, b0] ! (j div 8) = [b0, b1, b2, b3, b4, b5, b6, b7] ! (7 - j div 8)"
      using j(2) unfolding up_to_7 by (elim disjE) simp_all
    ultimately show "bit (le64 [b7, b6, b5, b4, b3, b2, b1, b0]) j = bit (U64BIG (le64 [b0, b1, b2, b3, b4, b5, b6, b7])) j"
      using \<open>j < LENGTH(64)\<close> by (simp add: bit_le64)
  qed
  ultimately show ?thesis using assms b by (simp add: LOADBYTES_def wpad_def)
qed

lemma wbytes_PAD:
  assumes "i < 8"
  shows "wbytes (PAD i) = replicate i 0 @ [0x80] @ replicate (7 - i) 0"
proof (rule bytes_eqI)
  show "length (wbytes (PAD i)) = length (replicate i 0 @ [0x80 :: u8] @ replicate (7 - i) 0)" using assms by simp
  fix k t assume "k < length (replicate i 0 @ [0x80 :: u8] @ replicate (7 - i) 0)" and t: "t < (8 :: nat)"
  then have k: "k < 8" using assms by simp
  have pad: "we (PAD i) = 0" "wo (PAD i) = push_bit (31 - 4 * i) 1"
  proof -
    have "(0x8 :: u64) = push_bit 3 1" by simp
    then have "push_bit (28 - 4 * i) 0x8 = (push_bit (31 - 4 * i) 1 :: u64)" using assms by (simp only: push_bit_push_bit) simp
    then have "PAD i = WORD_T (push_bit 32 (push_bit (31 - 4 * i) 1))" by (simp only: PAD_def)
    then show "we (PAD i) = 0" "wo (PAD i) = push_bit (31 - 4 * i) 1"
      by (simp_all only: WORD_T_def word_t.simps) (rule bit_word_eqI, auto simp: bit_simps)+
  qed
  have "bit (wbytes (PAD i) ! k) t = (odd (8 * (7 - k) + t) \<and> (8 * (7 - k) + t) div 2 = 31 - 4 * i)"
    using k t assms by (auto simp: bit_wbytes bit_WORDTOU64 pad bit_simps)
  also have "\<dots> = (8 * (7 - k) + t = 8 * (7 - i) + 7)"
  proof -
    have "odd j \<and> j div 2 = 31 - 4 * i \<longleftrightarrow> j = 8 * (7 - i) + 7" for j :: nat
    proof
      assume "odd j \<and> j div 2 = 31 - 4 * i"
      then show "j = 8 * (7 - i) + 7" using assms by (auto elim!: oddE)
    next
      assume "j = 8 * (7 - i) + 7"
      moreover from this have "j = 2 * (4 * (7 - i) + 3) + 1" by simp
      ultimately show "odd j \<and> j div 2 = 31 - 4 * i" using assms by simp
    qed
    then show ?thesis by blast
  qed
  also have "\<dots> = (k = i \<and> t = 7)" using k t assms by (cases k i rule: linorder_cases) auto
  also have "\<dots> = bit ((replicate i 0 @ [0x80 :: u8] @ replicate (7 - i) 0) ! k) t"
  proof -
    have "bit (0x80 :: u8) t = (t = 7)" using t unfolding up_to_7 by (elim disjE) simp_all
    then show ?thesis using k t assms by (auto simp: nth_append nth_Cons')
  qed
  finally show "bit (wbytes (PAD i) ! k) t = bit ((replicate i 0 @ [0x80 :: u8] @ replicate (7 - i) 0) ! k) t" .
qed

lemma wbytes_CLEAR:
  assumes "n \<in> {1..7}"
  shows "wbytes (CLEAR w n) = replicate n 0 @ drop n (wbytes w)"
proof (rule bytes_eqI)
  show "length (wbytes (CLEAR w n)) = length (replicate n 0 @ drop n (wbytes w))" using assms by simp
  fix k t assume "k < length (replicate n 0 @ drop n (wbytes w))" and t: "t < (8 :: nat)"
  then have k: "k < 8" using assms by simp
  have "(0x0fffffff :: u32) = mask 28" by (simp add: mask_eq_exp_minus_1)
  have mask: "bit (drop_bit (n * 4 - 4) (0x0fffffff :: u32)) j = (j < 32 - 4 * n)" for j
    unfolding \<open>0x0fffffff = mask 28\<close> using assms by (auto simp: bit_simps)
  have "bit (WORDTOU64 (CLEAR w n)) j = (bit (WORDTOU64 w) j \<and> j div 2 < 32 - 4 * n)" if "j < 64" for j
    using that by (auto simp: bit_WORDTOU64 CLEAR_def Let_def bit_and_iff mask)
  moreover have "(8 * (7 - k) + t) div 2 < 32 - 4 * n \<longleftrightarrow> n \<le> k" using k t assms by auto
  ultimately show "bit (wbytes (CLEAR w n) ! k) t = bit ((replicate n 0 @ drop n (wbytes w)) ! k) t"
    using k t assms by (auto simp: bit_wbytes nth_append)
qed

lemma low_byte_zero:
  fixes r :: u32
  defines "s \<equiv> r OR drop_bit 16 r"
  shows "(s OR drop_bit 8 s) AND mask 8 = 0 \<longleftrightarrow> r = 0"
proof
  assume v: "(s OR drop_bit 8 s) AND mask 8 = 0"
  show "r = 0"
  proof (rule bit_word_eqI)
    fix j assume "j < LENGTH(32)"
    then have j: "j = 8 * (j div 8) + j mod 8" "j div 8 < 4" "j mod 8 < 8" by simp_all
    have "\<not> bit ((s OR drop_bit 8 s) AND mask 8) (j mod 8)" unfolding v by simp
    then have "\<not> bit r (8 * q + j mod 8)" if "q \<in> {0, 1, 2, 3}" for q
      using that j(3) by (auto simp: s_def bit_and_iff bit_or_iff bit_drop_bit_eq bit_mask_iff)
    moreover have "j div 8 \<in> {0, 1, 2, 3}" using j(2) by auto
    ultimately have "\<not> bit r (8 * (j div 8) + j mod 8)" by blast
    then show "bit r j = bit 0 j" using j(1) by simp
  qed
qed (simp add: s_def)

lemma NOTZERO_eq: "NOTZERO (XOR_w a b) (XOR_w c d) = (if a = b \<and> c = d then 0 else -1)"
proof -
  let ?r = "(we a XOR we b) OR (wo a XOR wo b) OR (we c XOR we d) OR (wo c XOR wo d)"
  let ?s = "?r OR drop_bit 16 ?r" let ?v = "(?s OR drop_bit 8 ?s) AND mask 8"
  have m: "(0xff :: u32) = mask 8" by (simp add: mask_eq_exp_minus_1)
  have "?v = 0 \<longleftrightarrow> a = b \<and> c = d" unfolding low_byte_zero by (auto simp: or_eq_0_iff)
  moreover have "(drop_bit 8 (uint v - 1) AND 1) - 1 = (if v = 0 then 0 else -1 :: int)" if "v = w AND mask 8" for v w :: u32
  proof -
    have "uint v < 256"
      unfolding that by (simp add: take_bit_eq_mask [symmetric] take_bit_eq_mod uint_mod)
    moreover have "0 \<le> uint v" by simp
    moreover have "v \<noteq> 0 \<Longrightarrow> 0 < uint v" using uint_0_iff [of v] uint_ge_0 [of v] by linarith
    ultimately show ?thesis by (cases "v = 0") (simp_all add: drop_bit_eq_div and_one_eq div_pos_pos_trivial)
  qed
  ultimately show ?thesis by (simp add: NOTZERO_def XOR_w_def Let_def m)
qed

end
