(* ===== verification/Ascon.thy ===== *)
theory Ascon
  imports Ascon_Words AEAD_Interface
begin

text \<open>
  The reference Ascon-128 program: \<^verbatim>\<open>programs/Ascon32/round.h\<close>, \<^verbatim>\<open>permutations.h\<close>,
  \<^verbatim>\<open>permutations.c\<close> and \<^verbatim>\<open>ascon128v12_orig.c\<close>, with the configuration of \<^verbatim>\<open>api.h\<close> (keys of
  16 bytes, blocks of 8) and \<^verbatim>\<open>config.h\<close>. The branches for other key and block sizes are not
  compiled and not modelled. Buffers are lists of bytes of the size the caller provides; the
  code reads and writes whole blocks of 8 bytes, also for the last, shorter block.
\<close>

section \<open>The permutation\<close>

record state_t =
  x0 :: word_t
  x1 :: word_t
  x2 :: word_t
  x3 :: word_t
  x4 :: word_t

definition KINIT :: "word_t \<times> word_t \<times> word_t" where
  "KINIT = (WORD_T 0, WORD_T 0, WORD_T 0)"

definition PINIT :: state_t where
  "PINIT = \<lparr>x0 = WORD_T 0, x1 = WORD_T 0, x2 = WORD_T 0, x3 = WORD_T 0, x4 = WORD_T 0\<rparr>"

definition ROUND :: "state_t \<Rightarrow> word_t \<Rightarrow> state_t" where
  "ROUND s C =
     (let s = s\<lparr>x2 := XOR_w (x2 s) C\<rparr>;
          s = s\<lparr>x0 := XOR_w (x0 s) (x4 s)\<rparr>;
          s = s\<lparr>x4 := XOR_w (x4 s) (x3 s)\<rparr>;
          s = s\<lparr>x2 := XOR_w (x2 s) (x1 s)\<rparr>;
          t = \<lparr>x0 = XOR_w (x0 s) (AND_w (NOT_w (x1 s)) (x2 s)),
               x1 = XOR_w (x1 s) (AND_w (NOT_w (x2 s)) (x3 s)),
               x2 = XOR_w (x2 s) (AND_w (NOT_w (x3 s)) (x4 s)),
               x3 = XOR_w (x3 s) (AND_w (NOT_w (x4 s)) (x0 s)),
               x4 = XOR_w (x4 s) (AND_w (NOT_w (x0 s)) (x1 s))\<rparr>;
          t = t\<lparr>x1 := XOR_w (x1 t) (x0 t)\<rparr>;
          t = t\<lparr>x3 := XOR_w (x3 t) (x2 t)\<rparr>;
          t = t\<lparr>x0 := XOR_w (x0 t) (x4 t)\<rparr>;
          s = s\<lparr>x2 := XOR_w (x2 t) (ROR_w (x2 t) (6 - 1))\<rparr>;
          s = s\<lparr>x3 := XOR_w (x3 t) (ROR_w (x3 t) (17 - 10))\<rparr>;
          s = s\<lparr>x4 := XOR_w (x4 t) (ROR_w (x4 t) (41 - 7))\<rparr>;
          s = s\<lparr>x0 := XOR_w (x0 t) (ROR_w (x0 t) (28 - 19))\<rparr>;
          s = s\<lparr>x1 := XOR_w (x1 t) (ROR_w (x1 t) (61 - 39))\<rparr>;
          s = s\<lparr>x2 := XOR_w (x2 t) (ROR_w (x2 s) 1)\<rparr>;
          s = s\<lparr>x3 := XOR_w (x3 t) (ROR_w (x3 s) 10)\<rparr>;
          s = s\<lparr>x4 := XOR_w (x4 t) (ROR_w (x4 s) 7)\<rparr>;
          s = s\<lparr>x0 := XOR_w (x0 t) (ROR_w (x0 s) 19)\<rparr>;
          s = s\<lparr>x1 := XOR_w (x1 t) (ROR_w (x1 s) 39)\<rparr>
      in s\<lparr>x2 := NOT_w (x2 s)\<rparr>)"

definition RC :: "u64 \<Rightarrow> u64 \<Rightarrow> word_t" where
  "RC e od = WORD_T (push_bit 32 od OR e)"

definition P12ROUNDS :: "state_t \<Rightarrow> state_t" where
  "P12ROUNDS s =
     (let s = ROUND s (RC 0xc 0xc); s = ROUND s (RC 0x9 0xc); s = ROUND s (RC 0xc 0x9); s = ROUND s (RC 0x9 0x9);
          s = ROUND s (RC 0x6 0xc); s = ROUND s (RC 0x3 0xc); s = ROUND s (RC 0x6 0x9); s = ROUND s (RC 0x3 0x9);
          s = ROUND s (RC 0xc 0x6); s = ROUND s (RC 0x9 0x6); s = ROUND s (RC 0xc 0x3); s = ROUND s (RC 0x9 0x3)
      in s)"

definition P8ROUNDS :: "state_t \<Rightarrow> state_t" where
  "P8ROUNDS s =
     (let s = ROUND s (RC 0x6 0xc); s = ROUND s (RC 0x3 0xc); s = ROUND s (RC 0x6 0x9); s = ROUND s (RC 0x3 0x9);
          s = ROUND s (RC 0xc 0x6); s = ROUND s (RC 0x9 0x6); s = ROUND s (RC 0xc 0x3); s = ROUND s (RC 0x9 0x3)
      in s)"

definition P6ROUNDS :: "state_t \<Rightarrow> state_t" where
  "P6ROUNDS s =
     (let s = ROUND s (RC 0x6 0x9); s = ROUND s (RC 0x3 0x9); s = ROUND s (RC 0xc 0x6); s = ROUND s (RC 0x9 0x6);
          s = ROUND s (RC 0xc 0x3); s = ROUND s (RC 0x9 0x3)
      in s)"

text \<open>The table and the loop of the configuration without unrolling.\<close>

definition round_constants :: "(u64 \<times> u64) list" where
  "round_constants =
     [(0xc, 0xc), (0x9, 0xc), (0xc, 0x9), (0x9, 0x9), (0x6, 0xc), (0x3, 0xc), (0x6, 0x9), (0x3, 0x9),
      (0xc, 0x6), (0x9, 0x6), (0xc, 0x3), (0x9, 0x3)]"

definition PROUNDS :: "state_t \<Rightarrow> nat \<Rightarrow> state_t" where
  "PROUNDS s nr =
     fold (\<lambda>i s. ROUND s (RC (fst (round_constants ! i)) (snd (round_constants ! i)))) [12 - nr..<12] s"

text \<open>The permutation of the configuration in use.\<close>

definition P :: "state_t \<Rightarrow> nat \<Rightarrow> state_t" where
  "P s nr =
     (let s = if nr = 12 then P12ROUNDS s else s;
          s = if nr = 8 then P8ROUNDS s else s
      in if nr = 6 then P6ROUNDS s else s)"

section \<open>The permutation of the specification\<close>

type_synonym sstate = "u64 \<times> u64 \<times> u64 \<times> u64 \<times> u64"

definition spec_round :: "u64 \<Rightarrow> sstate \<Rightarrow> sstate" where
  "spec_round c = (\<lambda>(a, b, c', d, e).
     let c' = c' XOR c;
         a = a XOR e; e = e XOR d; c' = c' XOR b;
         t0 = NOT a AND b; t1 = NOT b AND c'; t2 = NOT c' AND d; t3 = NOT d AND e; t4 = NOT e AND a;
         a = a XOR t1; b = b XOR t2; c' = c' XOR t3; d = d XOR t4; e = e XOR t0;
         b = b XOR a; a = a XOR e; d = d XOR c'; c' = NOT c'
     in (a XOR word_rotr 19 a XOR word_rotr 28 a,
         b XOR word_rotr 61 b XOR word_rotr 39 b,
         c' XOR word_rotr 1 c' XOR word_rotr 6 c',
         d XOR word_rotr 10 d XOR word_rotr 17 d,
         e XOR word_rotr 7 e XOR word_rotr 41 e))"

definition spec_constant :: "nat \<Rightarrow> u64" where
  "spec_constant r = of_nat (0xf0 - r * 0x10 + r)"

definition spec_perm :: "nat \<Rightarrow> sstate \<Rightarrow> sstate" where
  "spec_perm nr s = fold (\<lambda>r. spec_round (spec_constant r)) [12 - nr..<12] s"

definition abs_state :: "state_t \<Rightarrow> sstate" where
  "abs_state s = (WORDTOU64 (x0 s), WORDTOU64 (x1 s), WORDTOU64 (x2 s), WORDTOU64 (x3 s), WORDTOU64 (x4 s))"

lemma word_rotr_xor: "word_rotr n (a XOR b :: u64) = word_rotr n a XOR word_rotr n b"
  by (rule bit_word_eqI) (simp add: bit_word_rotr_iff bit_xor_iff)

lemma word_rotr_not: "word_rotr n (NOT a :: u64) = NOT (word_rotr n a)"
  by (rule bit_word_eqI) (simp add: bit_word_rotr_iff bit_not_iff)

lemma word_rotr_word_rotr: "word_rotr m (word_rotr n (a :: u64)) = word_rotr (m + n) a"
proof (rule bit_word_eqI)
  fix i assume "i < LENGTH(64)"
  moreover have "((i + m) mod 64 + n) mod 64 = (i + (m + n)) mod 64" by (simp add: mod_simps add.assoc)
  moreover have "(i + m) mod 64 < 64" by simp
  ultimately show "bit (word_rotr m (word_rotr n a)) i = bit (word_rotr (m + n) a) i"
    by (simp add: bit_word_rotr_iff)
qed

lemma abs_ROUND: "abs_state (ROUND s C) = spec_round (WORDTOU64 C) (abs_state s)"
  by (simp add: ROUND_def abs_state_def spec_round_def Let_def WORDTOU64_ROR word_rotr_xor word_rotr_not
      word_rotr_word_rotr xor_ac)

lemma interleave_constants:
  "interleave_uint32 0 = 0"
  "interleave_uint32 0xc000c = 0xf0"
  "interleave_uint32 0xc0009 = 0xe1"
  "interleave_uint32 0x9000c = 0xd2"
  "interleave_uint32 0x90009 = 0xc3"
  "interleave_uint32 0xc0006 = 0xb4"
  "interleave_uint32 0xc0003 = 0xa5"
  "interleave_uint32 0x90006 = 0x96"
  "interleave_uint32 0x90003 = 0x87"
  "interleave_uint32 0x6000c = 0x78"
  "interleave_uint32 0x60009 = 0x69"
  "interleave_uint32 0x3000c = 0x5a"
  "interleave_uint32 0x30009 = 0x4b"
  by (simp_all add: interleave_uint32_def swap_step_def)

lemma WORDTOU64_record:
  "WORDTOU64 \<lparr>we = a, wo = b\<rparr> =
     push_bit 32 (ucast (interleave_uint32 (drop_bit 16 a OR (b AND 0xFFFF0000)))) OR
     ucast (interleave_uint32 ((a AND 0x0000FFFF) OR push_bit 16 b))"
  by (simp add: WORDTOU64_def interleave32_def Let_def)

lemma RC_record: "RC (ucast a) (ucast b) = \<lparr>we = a, wo = b\<rparr>"
  by (simp add: RC_def)

lemma abs_RC:
  "WORDTOU64 (RC 0xc 0xc) = 0xf0"
  "WORDTOU64 (RC 0x9 0xc) = 0xe1"
  "WORDTOU64 (RC 0xc 0x9) = 0xd2"
  "WORDTOU64 (RC 0x9 0x9) = 0xc3"
  "WORDTOU64 (RC 0x6 0xc) = 0xb4"
  "WORDTOU64 (RC 0x3 0xc) = 0xa5"
  "WORDTOU64 (RC 0x6 0x9) = 0x96"
  "WORDTOU64 (RC 0x3 0x9) = 0x87"
  "WORDTOU64 (RC 0xc 0x6) = 0x78"
  "WORDTOU64 (RC 0x9 0x6) = 0x69"
  "WORDTOU64 (RC 0xc 0x3) = 0x5a"
  "WORDTOU64 (RC 0x9 0x3) = 0x4b"
  using RC_record [of "0xc" "0xc"]
    RC_record [of "0x9" "0xc"]
    RC_record [of "0xc" "0x9"]
    RC_record [of "0x9" "0x9"]
    RC_record [of "0x6" "0xc"]
    RC_record [of "0x3" "0xc"]
    RC_record [of "0x6" "0x9"]
    RC_record [of "0x3" "0x9"]
    RC_record [of "0xc" "0x6"]
    RC_record [of "0x9" "0x6"]
    RC_record [of "0xc" "0x3"]
    RC_record [of "0x9" "0x3"]
  by (simp_all add: WORDTOU64_record interleave_constants)

lemma upt_12:
  "[0..<12] = [0, 1, 2, 3, 4, 5, 6, 7, 8, 9, 10, 11]" "[4..<12] = [4, 5, 6, 7, 8, 9, 10, 11]"
  "[6..<12] = [6, 7, 8, 9, 10, 11]"
  by (simp_all add: upt_rec)

lemma P_rounds: "nr \<in> {12, 8, 6} \<Longrightarrow> P s nr = PROUNDS s nr"
  by (auto simp: P_def PROUNDS_def P12ROUNDS_def P8ROUNDS_def P6ROUNDS_def upt_12 round_constants_def Let_def)

lemma round_constants_spec:
  "r < 12 \<Longrightarrow> WORDTOU64 (RC (fst (round_constants ! r)) (snd (round_constants ! r))) = spec_constant r"
proof -
  assume "r < 12"
  then have "r \<in> set [0..<12]" by simp
  then show ?thesis
    unfolding upt_12 by (auto simp: round_constants_def spec_constant_def abs_RC)
qed

lemma abs_fold:
  "\<forall>r\<in>set rs. r < 12 \<Longrightarrow>
   abs_state (fold (\<lambda>i s. ROUND s (RC (fst (round_constants ! i)) (snd (round_constants ! i)))) rs s) =
     fold (\<lambda>r. spec_round (spec_constant r)) rs (abs_state s)"
  by (induction rs arbitrary: s) (simp_all add: abs_ROUND round_constants_spec)

text \<open>
  C26: the permutation on the even and odd halves is the permutation of the Ascon specification
  on 64-bit words, for the three numbers of rounds the program can ask for; the unrolled rounds
  and the loop over the table of constants are the same.
\<close>

theorem P_refines:
  assumes "nr \<in> {12, 8, 6}"
  shows "abs_state (P s nr) = spec_perm nr (abs_state s) \<and> P s nr = PROUNDS s nr"
  using P_rounds [OF assms] abs_fold [of "[12 - nr..<12]" s] by (simp add: PROUNDS_def spec_perm_def)

theorem P_refines_witness:
  "abs_state (P PINIT 6) = spec_perm 6 (abs_state PINIT) \<and> P PINIT 6 = PROUNDS PINIT 6"
  by (rule P_refines) simp

end
