(* ===== verification/Ascon_AEAD.thy ===== *)
theory Ascon_AEAD
  imports Ascon
begin

text \<open>
  The cipher of \<^verbatim>\<open>programs/Ascon32/ascon128v12_orig.c\<close> on caller-provided buffers, shown to be
  an authenticated cipher when the buffers have room for whole blocks, and to leave its buffers
  when they have not.
\<close>

section \<open>The code\<close>

definition CRYPTO_ABYTES :: nat where "CRYPTO_ABYTES = 16"
definition ASCON_AEAD_RATE :: nat where "ASCON_AEAD_RATE = 8"
definition ASCON_128_IV :: word_t where "ASCON_128_IV = WORD_T 0x8021000008220000"

definition ascon_loadkey :: "u8 list \<Rightarrow> (word_t \<times> word_t \<times> word_t) res" where
  "ascon_loadkey k =
     (case KINIT of (K0, K1, K2) \<Rightarrow>
        bindr (LOAD k 0 8) (\<lambda>k1.
        bindr (LOAD k 8 8) (\<lambda>k2. Inr (K0, XOR_w K1 k1, XOR_w K2 k2))))"

definition ascon_aeadinit :: "u8 list \<Rightarrow> u8 list \<Rightarrow> state_t res" where
  "ascon_aeadinit npub k =
     bindr (LOAD npub 0 8) (\<lambda>N0.
     bindr (LOAD npub 8 8) (\<lambda>N1.
     bindr (ascon_loadkey k) (\<lambda>(K0, K1, K2).
       let s = PINIT;
           s = s\<lparr>x0 := XOR_w (x0 s) ASCON_128_IV\<rparr>;
           s = s\<lparr>x1 := XOR_w (x1 s) K1\<rparr>;
           s = s\<lparr>x2 := XOR_w (x2 s) K2\<rparr>;
           s = s\<lparr>x3 := XOR_w (x3 s) N0\<rparr>;
           s = s\<lparr>x4 := XOR_w (x4 s) N1\<rparr>;
           s = P s 12;
           s = s\<lparr>x3 := XOR_w (x3 s) K1\<rparr>
       in Inr (s\<lparr>x4 := XOR_w (x4 s) K2\<rparr>))))"

text \<open>The pointer \<^verbatim>\<open>ad\<close> is the offset \<open>i\<close> into the buffer.\<close>

function adata_blocks :: "state_t \<Rightarrow> u8 list \<Rightarrow> nat \<Rightarrow> nat \<Rightarrow> (state_t \<times> nat \<times> nat) res" where
  "adata_blocks s ad i adlen =
     (if ASCON_AEAD_RATE \<le> adlen then
        bindr (LOAD ad i 8) (\<lambda>w.
          adata_blocks (P (s\<lparr>x0 := XOR_w (x0 s) w\<rparr>) 6) ad (i + ASCON_AEAD_RATE) (adlen - ASCON_AEAD_RATE))
      else Inr (s, i, adlen))"
  by pat_completeness auto
termination
  by (relation "measure (\<lambda>(s, ad, i, adlen). adlen)") (auto simp: ASCON_AEAD_RATE_def)

declare adata_blocks.simps [simp del]

definition ascon_adata :: "state_t \<Rightarrow> u8 list \<Rightarrow> nat \<Rightarrow> state_t res" where
  "ascon_adata s ad adlen =
     bindr (if adlen \<noteq> 0 then
              bindr (adata_blocks s ad 0 adlen) (\<lambda>(s, i, adlen).
                let s = s\<lparr>x0 := XOR_w (x0 s) (PAD adlen)\<rparr>
                in bindr (if adlen \<noteq> 0 then bindr (LOAD ad i adlen) (\<lambda>w. Inr (s\<lparr>x0 := XOR_w (x0 s) w\<rparr>))
                          else Inr s) (\<lambda>s. Inr (P s 6)))
            else Inr s) (\<lambda>s. Inr (s\<lparr>x4 := XOR_w (x4 s) (WORD_T 1)\<rparr>))"

function encrypt_blocks :: "state_t \<Rightarrow> u8 list \<Rightarrow> u8 list \<Rightarrow> nat \<Rightarrow> nat \<Rightarrow> (state_t \<times> u8 list \<times> nat \<times> nat) res" where
  "encrypt_blocks s c m i mlen =
     (if ASCON_AEAD_RATE \<le> mlen then
        bindr (LOAD m i 8) (\<lambda>w.
          let s = s\<lparr>x0 := XOR_w (x0 s) w\<rparr>
          in bindr (STORE c i (x0 s) 8) (\<lambda>c.
               encrypt_blocks (P s 6) c m (i + ASCON_AEAD_RATE) (mlen - ASCON_AEAD_RATE)))
      else Inr (s, c, i, mlen))"
  by pat_completeness auto
termination
  by (relation "measure (\<lambda>(s, c, m, i, mlen). mlen)") (auto simp: ASCON_AEAD_RATE_def)

declare encrypt_blocks.simps [simp del]

definition ascon_encrypt :: "state_t \<Rightarrow> u8 list \<Rightarrow> u8 list \<Rightarrow> nat \<Rightarrow> (state_t \<times> u8 list) res" where
  "ascon_encrypt s c m mlen =
     bindr (encrypt_blocks s c m 0 mlen) (\<lambda>(s, c, i, mlen).
       let s = s\<lparr>x0 := XOR_w (x0 s) (PAD mlen)\<rparr>
       in if mlen \<noteq> 0 then
            bindr (LOAD m i mlen) (\<lambda>w.
              let s = s\<lparr>x0 := XOR_w (x0 s) w\<rparr>
              in bindr (STORE c i (x0 s) mlen) (\<lambda>c. Inr (s, c)))
          else Inr (s, c))"

function decrypt_blocks :: "state_t \<Rightarrow> u8 list \<Rightarrow> u8 list \<Rightarrow> nat \<Rightarrow> nat \<Rightarrow> (state_t \<times> u8 list \<times> nat \<times> nat) res" where
  "decrypt_blocks s m c i clen =
     (if ASCON_AEAD_RATE \<le> clen then
        bindr (LOAD c i 8) (\<lambda>cx.
          let s = s\<lparr>x0 := XOR_w (x0 s) cx\<rparr>
          in bindr (STORE m i (x0 s) 8) (\<lambda>m.
               decrypt_blocks (P (s\<lparr>x0 := cx\<rparr>) 6) m c (i + ASCON_AEAD_RATE) (clen - ASCON_AEAD_RATE)))
      else Inr (s, m, i, clen))"
  by pat_completeness auto
termination
  by (relation "measure (\<lambda>(s, m, c, i, clen). clen)") (auto simp: ASCON_AEAD_RATE_def)

declare decrypt_blocks.simps [simp del]

definition ascon_decrypt :: "state_t \<Rightarrow> u8 list \<Rightarrow> u8 list \<Rightarrow> nat \<Rightarrow> (state_t \<times> u8 list) res" where
  "ascon_decrypt s m c clen =
     bindr (decrypt_blocks s m c 0 clen) (\<lambda>(s, m, i, clen).
       let s = s\<lparr>x0 := XOR_w (x0 s) (PAD clen)\<rparr>
       in if clen \<noteq> 0 then
            bindr (LOAD c i clen) (\<lambda>cx.
              let s = s\<lparr>x0 := XOR_w (x0 s) cx\<rparr>
              in bindr (STORE m i (x0 s) clen) (\<lambda>m.
                 let s = s\<lparr>x0 := CLEAR (x0 s) clen\<rparr>
                 in Inr (s\<lparr>x0 := XOR_w (x0 s) cx\<rparr>, m)))
          else Inr (s, m))"

definition ascon_final :: "state_t \<Rightarrow> u8 list \<Rightarrow> state_t res" where
  "ascon_final s k =
     bindr (ascon_loadkey k) (\<lambda>(K0, K1, K2).
       let s = s\<lparr>x1 := XOR_w (x1 s) K1\<rparr>;
           s = s\<lparr>x2 := XOR_w (x2 s) K2\<rparr>;
           s = P s 12;
           s = s\<lparr>x3 := XOR_w (x3 s) K1\<rparr>
       in Inr (s\<lparr>x4 := XOR_w (x4 s) K2\<rparr>))"

text \<open>The buffer \<open>c\<close> is the one of the caller; the function returns it as it is written.\<close>

definition ascon_aead_encrypt ::
    "u8 list \<Rightarrow> u8 list \<Rightarrow> nat \<Rightarrow> u8 list \<Rightarrow> nat \<Rightarrow> u8 list \<Rightarrow> u8 list \<Rightarrow> u8 list res" where
  "ascon_aead_encrypt c m mlen ad adlen npub k =
     bindr (ascon_aeadinit npub k) (\<lambda>s.
     bindr (ascon_adata s ad adlen) (\<lambda>s.
     bindr (ascon_encrypt s c m mlen) (\<lambda>(s, c).
     bindr (ascon_final s k) (\<lambda>s.
     bindr (STOREBYTES c mlen (x3 s) 8) (\<lambda>c.
     STOREBYTES c (mlen + 8) (x4 s) 8)))))"

definition ascon_aead_decrypt ::
    "u8 list \<Rightarrow> u8 list \<Rightarrow> nat \<Rightarrow> u8 list \<Rightarrow> nat \<Rightarrow> u8 list \<Rightarrow> u8 list \<Rightarrow> (int \<times> u8 list) res" where
  "ascon_aead_decrypt m c clen ad adlen npub k =
     (if clen < CRYPTO_ABYTES then Inr (-1, m)
      else
        let clen = clen - CRYPTO_ABYTES
        in bindr (ascon_aeadinit npub k) (\<lambda>s.
           bindr (ascon_adata s ad adlen) (\<lambda>s.
           bindr (ascon_decrypt s m c clen) (\<lambda>(s, m).
           bindr (ascon_final s k) (\<lambda>s.
           bindr (LOADBYTES c clen 8) (\<lambda>t3.
           bindr (LOADBYTES c (clen + 8) 8) (\<lambda>t4.
             let s = s\<lparr>x3 := XOR_w (x3 s) t3\<rparr>; s = s\<lparr>x4 := XOR_w (x4 s) t4\<rparr>
             in Inr (NOTZERO (x3 s) (x4 s), m))))))))"

section \<open>Without buffers\<close>

text \<open>The same computations on the texts themselves.\<close>

function adata_pure :: "state_t \<Rightarrow> u8 list \<Rightarrow> state_t" where
  "adata_pure s ad =
     (if 8 \<le> length ad then adata_pure (P (s\<lparr>x0 := XOR_w (x0 s) (wpad (take 8 ad))\<rparr>) 6) (drop 8 ad)
      else s\<lparr>x0 := XOR_w (XOR_w (x0 s) (PAD (length ad))) (wpad ad)\<rparr>)"
  by pat_completeness auto
termination
  by (relation "measure (\<lambda>(s, ad). length ad)") auto

function enc_pure :: "state_t \<Rightarrow> u8 list \<Rightarrow> state_t \<times> u8 list" where
  "enc_pure s m =
     (if 8 \<le> length m then
        let w = XOR_w (x0 s) (wpad (take 8 m)); (t, c) = enc_pure (P (s\<lparr>x0 := w\<rparr>) 6) (drop 8 m)
        in (t, wbytes w @ c)
      else let w = XOR_w (XOR_w (x0 s) (PAD (length m))) (wpad m) in (s\<lparr>x0 := w\<rparr>, take (length m) (wbytes w)))"
  by pat_completeness auto
termination
  by (relation "measure (\<lambda>(s, m). length m)") auto

function dec_pure :: "state_t \<Rightarrow> u8 list \<Rightarrow> state_t \<times> u8 list" where
  "dec_pure s c =
     (if 8 \<le> length c then
        let cx = wpad (take 8 c); (t, m) = dec_pure (P (s\<lparr>x0 := cx\<rparr>) 6) (drop 8 c)
        in (t, wbytes (XOR_w (x0 s) cx) @ m)
      else let w = XOR_w (XOR_w (x0 s) (PAD (length c))) (wpad c)
           in (s\<lparr>x0 := if c = [] then w else XOR_w (CLEAR w (length c)) (wpad c)\<rparr>, take (length c) (wbytes w)))"
  by pat_completeness auto
termination
  by (relation "measure (\<lambda>(s, c). length c)") auto

declare adata_pure.simps [simp del] enc_pure.simps [simp del] dec_pure.simps [simp del]

lemma XOR_w_0 [simp]: "XOR_w a (wpad []) = a" "XOR_w (WORD_T 0) a = a"
proof -
  have z: "xor_list b (replicate 8 0) = b" if "length b = 8" for b :: "u8 list"
    using that by (intro nth_equalityI) auto
  have "wbytes (XOR_w a (wpad [])) = wbytes a" by (simp add: z)
  then show "XOR_w a (wpad []) = a" by (simp only: wbytes_inject)
  show "XOR_w (WORD_T 0) a = a" by (simp add: XOR_w_def WORD_T_def)
qed

lemma XOR_w_cancel: "XOR_w a (XOR_w a b) = b"
  by (simp add: XOR_w_def)

lemma wpad_wbytes [simp]: "wpad (wbytes w) = w"
  using wbytes_wpad [of "wbytes w"] by (simp flip: wbytes_inject)

text \<open>Decryption goes through the states of encryption.\<close>

lemma dec_enc_pure: "enc_pure s m = (t, c) \<Longrightarrow> dec_pure s c = (t, m) \<and> length c = length m"
proof (induction s m arbitrary: t c rule: enc_pure.induct)
  case (1 s m)
  show ?case
  proof (cases "8 \<le> length m")
    case True
    let ?w = "XOR_w (x0 s) (wpad (take 8 m))"
    obtain t' c' where r: "enc_pure (P (s\<lparr>x0 := ?w\<rparr>) 6) (drop 8 m) = (t', c')" by force
    have tc: "t = t'" "c = wbytes ?w @ c'" using "1.prems" True r by (simp_all add: enc_pure.simps [of s m] Let_def)
    have IH: "dec_pure (P (s\<lparr>x0 := ?w\<rparr>) 6) c' = (t', drop 8 m)" "length c' = length (drop 8 m)"
      using "1.IH" [OF True refl r] by simp_all
    have "take 8 c = wbytes ?w" "drop 8 c = c'" unfolding tc by (simp_all del: wbytes_xor)
    moreover have "wbytes (XOR_w (x0 s) ?w) = take 8 m" using True by (simp add: XOR_w_cancel del: wbytes_xor)
    moreover have "length c = length m" using True IH(2) unfolding tc by simp
    ultimately show ?thesis using True IH tc(1) by (simp add: dec_pure.simps [of s c] del: wbytes_xor)
  next
    case False
    let ?n = "length m"
    let ?x = "wbytes (XOR_w (x0 s) (PAD ?n))"
    let ?w = "XOR_w (XOR_w (x0 s) (PAD ?n)) (wpad m)"
    have tc: "t = s\<lparr>x0 := ?w\<rparr>" "c = take ?n (wbytes ?w)" using "1.prems" False by (simp_all add: enc_pure.simps [of s m] Let_def)
    have n: "?n < 8" using False by simp
    have w: "wbytes ?w = xor_list (take ?n ?x) m @ drop ?n ?x"
    proof (rule nth_equalityI)
      fix i assume "i < length (wbytes ?w)"
      then show "wbytes ?w ! i = (xor_list (take ?n ?x) m @ drop ?n ?x) ! i"
        using n by (simp add: nth_append del: wbytes_xor) (auto simp: nth_append)
    qed (use n in simp)
    have c: "c = xor_list (take ?n ?x) m" "length c = ?n" using tc n by (simp_all add: w del: wbytes_xor)
    let ?v = "XOR_w (XOR_w (x0 s) (PAD ?n)) (wpad c)"
    have v: "wbytes ?v = m @ drop ?n ?x"
    proof (rule nth_equalityI)
      fix i assume "i < length (wbytes ?v)"
      then show "wbytes ?v ! i = (m @ drop ?n ?x) ! i"
        using n c by (cases "i < ?n") (simp_all add: nth_append del: wbytes_xor, simp_all add: nth_append)
    qed (use n in simp)
    have "XOR_w (CLEAR ?v ?n) (wpad c) = ?w" if "c \<noteq> []"
    proof -
      have "?n \<in> {1..7}" using that c n by (cases m) auto
      then have "wbytes (CLEAR ?v ?n) = replicate ?n 0 @ drop ?n ?x"
        by (simp add: wbytes_CLEAR v del: wbytes_xor)
      moreover have "wbytes (wpad c) = c @ replicate (8 - ?n) 0" using c(2) n by simp
      ultimately have "wbytes (XOR_w (CLEAR ?v ?n) (wpad c)) = xor_list (replicate ?n 0 @ drop ?n ?x) (c @ replicate (8 - ?n) 0)"
        by (simp only: wbytes_xor)
      also have "\<dots> = c @ drop ?n ?x"
        using n c(2) by (intro nth_equalityI) (auto simp: nth_append)
      finally show ?thesis using w c(1) by (simp flip: wbytes_inject del: wbytes_xor)
    qed
    moreover have "c = [] \<longleftrightarrow> m = []" using c(2) by auto
    ultimately show ?thesis
      using tc(1) c(2) n v by (cases "m = []") (simp_all add: dec_pure.simps [of s c] dec_pure.simps [of s "[]"] Let_def del: wbytes_xor)
  qed
qed

lemma wpad_take_xor:
  assumes "length c < 8"
  shows "take (length c) (wbytes (XOR_w a (wpad (take (length c) (wbytes (XOR_w a (wpad c))))))) = c"
  using assms by (intro nth_equalityI) (simp_all add: nth_append)

lemma enc_pure_onto: "\<exists>m t. enc_pure s m = (t, c)"
proof (induction s c rule: dec_pure.induct)
  case (1 s c)
  show ?case
  proof (cases "8 \<le> length c")
    case True
    let ?cx = "wpad (take 8 c)"
    from "1.IH" [OF True refl] obtain m t where m: "enc_pure (P (s\<lparr>x0 := ?cx\<rparr>) 6) m = (t, drop 8 c)" by blast
    let ?v = "wbytes (XOR_w (x0 s) ?cx)"
    have "enc_pure s (?v @ m) = (t, c)"
      using True m by (simp add: enc_pure.simps [of s "?v @ m"] XOR_w_cancel Let_def del: wbytes_xor)
    then show ?thesis by blast
  next
    case False
    let ?w = "XOR_w (XOR_w (x0 s) (PAD (length c))) (wpad c)"
    have "snd (enc_pure s (take (length c) (wbytes ?w))) = c"
      using False wpad_take_xor [of c "XOR_w (x0 s) (PAD (length c))"]
      by (simp add: enc_pure.simps [of s "take (length c) (wbytes ?w)"] min_def Let_def del: wbytes_xor)
    then show ?thesis by (metis prod.collapse)
  qed
qed

lemma dec_pure_iff: "dec_pure s c = (t, m) \<longleftrightarrow> enc_pure s m = (t, c)"
  using enc_pure_onto [of s c] dec_enc_pure [of s] by (metis prod.inject)

section \<open>With buffers\<close>

text \<open>The number of bytes that the loads and stores for a text of \<open>n\<close> bytes touch.\<close>

definition whole :: "nat \<Rightarrow> nat" where "whole n = 8 * ((n + 7) div 8)"

lemma whole_simps: "whole 0 = 0" "0 < n \<Longrightarrow> n < 8 \<Longrightarrow> whole n = 8" "8 \<le> n \<Longrightarrow> whole n = 8 + whole (n - 8)"
proof -
  show "whole 0 = 0" by (simp add: whole_def)
  show "whole n = 8" if "0 < n" "n < 8"
  proof -
    have "(n + 7) div 8 = 1" using that by (intro div_nat_eqI) auto
    then show ?thesis by (simp add: whole_def)
  qed
  show "whole n = 8 + whole (n - 8)" if "8 \<le> n"
  proof -
    have "n + 7 = n - 8 + 7 + 8" using that by simp
    then have "(n + 7) div 8 = (n - 8 + 7) div 8 + 1" by (metis div_add_self2 numeral_eq_Suc old.nat.distinct(1))
    then show ?thesis by (simp add: whole_def)
  qed
qed

lemma whole_bounds: "n \<le> whole n" "whole n \<le> n + 7"
  by (simp_all add: whole_def)

lemma adata_blocks_eq:
  assumes "i + whole adlen \<le> length ad"
  shows "bindr (adata_blocks s ad i adlen) (\<lambda>(s, i, adlen).
      let s = s\<lparr>x0 := XOR_w (x0 s) (PAD adlen)\<rparr>
      in bindr (if adlen \<noteq> 0 then bindr (LOAD ad i adlen) (\<lambda>w. Inr (s\<lparr>x0 := XOR_w (x0 s) w\<rparr>)) else Inr s)
           (\<lambda>s. Inr (P s 6))) = Inr (P (adata_pure s (take adlen (drop i ad))) 6)"
  using assms
proof (induction s ad i adlen rule: adata_blocks.induct)
  case (1 s ad i adlen)
  show ?case
  proof (cases "8 \<le> adlen")
    case True
    let ?w = "wpad (take 8 (drop i ad))"
    have room: "i + 8 \<le> length ad" "i + 8 + whole (adlen - 8) \<le> length ad" "i + adlen \<le> length ad"
      using "1.prems" True whole_bounds(1) [of adlen] by (simp_all add: whole_simps(3))
    have "adata_pure s (take adlen (drop i ad)) =
        adata_pure (P (s\<lparr>x0 := XOR_w (x0 s) ?w\<rparr>) 6) (take (adlen - 8) (drop (i + 8) ad))"
      using True room(3) by (simp add: adata_pure.simps [of s] drop_take add.commute min_def)
    then show ?thesis
      using "1.IH" [of ?w] True room
      by (simp add: adata_blocks.simps [of s] ASCON_AEAD_RATE_def LOAD_eq)
  next
    case False
    then show ?thesis
      using "1.prems" whole_bounds(1) [of adlen]
      by (cases "adlen = 0")
        (simp_all add: adata_blocks.simps [of s] adata_pure.simps [of s] ASCON_AEAD_RATE_def LOAD_eq whole_simps Let_def)
  qed
qed

lemma encrypt_blocks_eq:
  assumes "i + whole mlen \<le> length m" "i + whole mlen \<le> length c"
  shows "\<exists>g. length g = whole mlen - mlen \<and>
    bindr (encrypt_blocks s c m i mlen) (\<lambda>(s, c, i, mlen).
      let s = s\<lparr>x0 := XOR_w (x0 s) (PAD mlen)\<rparr>
      in if mlen \<noteq> 0 then bindr (LOAD m i mlen) (\<lambda>w.
           let s = s\<lparr>x0 := XOR_w (x0 s) w\<rparr> in bindr (STORE c i (x0 s) mlen) (\<lambda>c. Inr (s, c)))
         else Inr (s, c)) =
    (case enc_pure s (take mlen (drop i m)) of (t, x) \<Rightarrow> Inr (t, take i c @ x @ g @ drop (i + whole mlen) c))"
  using assms
proof (induction s c m i mlen rule: encrypt_blocks.induct)
  case (1 s c m i mlen)
  show ?case
  proof (cases "8 \<le> mlen")
    case True
    let ?w = "wpad (take 8 (drop i m))"
    let ?s = "s\<lparr>x0 := XOR_w (x0 s) ?w\<rparr>"
    let ?c = "take i c @ wbytes (x0 ?s) @ drop (i + 8) c"
    have room: "i + 8 \<le> length m" "i + 8 \<le> length c" "i + 8 + whole (mlen - 8) \<le> length m"
        "i + 8 + whole (mlen - 8) \<le> length ?c" "i + mlen \<le> length m"
      using "1.prems" True whole_bounds(1) [of mlen] by (simp_all add: whole_simps(3))
    have min: "min (length m - i) mlen = mlen" using room(5) by auto
    have pure: "enc_pure s (take mlen (drop i m)) = (case enc_pure (P ?s 6) (take (mlen - 8) (drop (i + 8) m)) of
        (t, x) \<Rightarrow> (t, wbytes (x0 ?s) @ x))"
      using True min by (simp add: enc_pure.simps [of s] drop_take add.commute Let_def del: wbytes_xor)
    have *: "take (i + 8) ?c = take i c @ wbytes (x0 ?s)" "drop (i + 8 + n) ?c = drop (i + 8 + n) c" for n
      using room(2) by (simp_all add: ac_simps del: wbytes_xor)
    from "1.IH" [of ?w ?s ?c] True room show ?thesis
      unfolding pure
      by (simp add: encrypt_blocks.simps [of s] ASCON_AEAD_RATE_def LOAD_eq STORE_8 whole_simps(3) * ac_simps split: prod.splits)
  next
    case False
    show ?thesis
    proof (cases "mlen = 0")
      case True
      then show ?thesis
        by (simp add: encrypt_blocks.simps [of s] enc_pure.simps [of s] ASCON_AEAD_RATE_def whole_simps Let_def)
    next
      case pos: False
      let ?w = "XOR_w (XOR_w (x0 s) (PAD mlen)) (wpad (take mlen (drop i m)))"
      have "i + 8 \<le> length m" "i + 8 \<le> length c" using "1.prems" False pos by (simp_all add: whole_simps)
      moreover from this have "min (length m - i) mlen = mlen" using False by simp
      moreover obtain g where "length g = 8 - mlen" "STORE c i ?w mlen = Inr (take i c @ take mlen (wbytes ?w) @ g @ drop (i + 8) c)"
        using STORE_eq [of i c mlen ?w] False pos calculation by auto
      ultimately show ?thesis
        using False pos
        by (simp add: encrypt_blocks.simps [of s] enc_pure.simps [of s] ASCON_AEAD_RATE_def LOAD_eq whole_simps Let_def
            del: wbytes_xor)
    qed
  qed
qed

lemma decrypt_blocks_eq:
  assumes "i + whole clen \<le> length c" "i + whole clen \<le> length m"
  shows "\<exists>g. length g = whole clen - clen \<and>
    bindr (decrypt_blocks s m c i clen) (\<lambda>(s, m, i, clen).
      let s = s\<lparr>x0 := XOR_w (x0 s) (PAD clen)\<rparr>
      in if clen \<noteq> 0 then bindr (LOAD c i clen) (\<lambda>cx.
           let s = s\<lparr>x0 := XOR_w (x0 s) cx\<rparr>
           in bindr (STORE m i (x0 s) clen) (\<lambda>m.
              let s = s\<lparr>x0 := CLEAR (x0 s) clen\<rparr> in Inr (s\<lparr>x0 := XOR_w (x0 s) cx\<rparr>, m)))
         else Inr (s, m)) =
    (case dec_pure s (take clen (drop i c)) of (t, x) \<Rightarrow> Inr (t, take i m @ x @ g @ drop (i + whole clen) m))"
  using assms
proof (induction s m c i clen rule: decrypt_blocks.induct)
  case (1 s m c i clen)
  show ?case
  proof (cases "8 \<le> clen")
    case True
    let ?w = "wpad (take 8 (drop i c))"
    let ?s = "s\<lparr>x0 := XOR_w (x0 s) ?w\<rparr>"
    let ?m = "take i m @ wbytes (x0 ?s) @ drop (i + 8) m"
    have room: "i + 8 \<le> length c" "i + 8 \<le> length m" "i + 8 + whole (clen - 8) \<le> length c"
        "i + 8 + whole (clen - 8) \<le> length ?m" "i + clen \<le> length c"
      using "1.prems" True whole_bounds(1) [of clen] by (simp_all add: whole_simps(3))
    have min: "min (length c - i) clen = clen" using room(5) by auto
    have pure: "dec_pure s (take clen (drop i c)) = (case dec_pure (P (?s\<lparr>x0 := ?w\<rparr>) 6) (take (clen - 8) (drop (i + 8) c)) of
        (t, x) \<Rightarrow> (t, wbytes (x0 ?s) @ x))"
      using True min by (simp add: dec_pure.simps [of s] drop_take add.commute Let_def del: wbytes_xor)
    have *: "take (i + 8) ?m = take i m @ wbytes (x0 ?s)" "drop (i + 8 + n) ?m = drop (i + 8 + n) m" for n
      using room(2) by (simp_all add: ac_simps del: wbytes_xor)
    from "1.IH" [of ?w ?s ?m] True room show ?thesis
      unfolding pure
      by (simp add: decrypt_blocks.simps [of s] ASCON_AEAD_RATE_def LOAD_eq STORE_8 whole_simps(3) * ac_simps split: prod.splits)
  next
    case False
    show ?thesis
    proof (cases "clen = 0")
      case True
      then show ?thesis
        by (simp add: decrypt_blocks.simps [of s] dec_pure.simps [of s] ASCON_AEAD_RATE_def whole_simps Let_def)
    next
      case pos: False
      let ?w = "XOR_w (XOR_w (x0 s) (PAD clen)) (wpad (take clen (drop i c)))"
      have "i + 8 \<le> length c" "i + 8 \<le> length m" using "1.prems" False pos by (simp_all add: whole_simps)
      moreover from this have "min (length c - i) clen = clen" using False by simp
      moreover obtain g where "length g = 8 - clen" "STORE m i ?w clen = Inr (take i m @ take clen (wbytes ?w) @ g @ drop (i + 8) m)"
        using STORE_eq [of i m clen ?w] False pos calculation by auto
      ultimately show ?thesis
        using False pos
        by (simp add: decrypt_blocks.simps [of s] dec_pure.simps [of s] ASCON_AEAD_RATE_def LOAD_eq whole_simps Let_def
            del: wbytes_xor)
    qed
  qed
qed

lemma decrypt_blocks_out_of_bounds:
  assumes "i + whole clen \<le> length c" "length m < i + whole clen"
  shows "bindr (decrypt_blocks s m c i clen) (\<lambda>(s, m, i, clen).
      let s = s\<lparr>x0 := XOR_w (x0 s) (PAD clen)\<rparr>
      in if clen \<noteq> 0 then bindr (LOAD c i clen) (\<lambda>cx.
           let s = s\<lparr>x0 := XOR_w (x0 s) cx\<rparr>
           in bindr (STORE m i (x0 s) clen) (\<lambda>m.
              let s = s\<lparr>x0 := CLEAR (x0 s) clen\<rparr> in Inr (s\<lparr>x0 := XOR_w (x0 s) cx\<rparr>, m)))
         else Inr (s, m)) = Inl OutOfBounds \<or> length m < i"
  using assms
proof (induction s m c i clen rule: decrypt_blocks.induct)
  case (1 s m c i clen)
  show ?case
  proof (cases "8 \<le> clen")
    case True
    show ?thesis
    proof (cases "i + 8 \<le> length m")
      case False
      then show ?thesis
        using "1.prems" True
        by (simp add: decrypt_blocks.simps [of s] ASCON_AEAD_RATE_def LOAD_eq STORE_out_of_bounds whole_simps(3) Let_def)
    next
      case room: True
      let ?w = "wpad (take 8 (drop i c))"
      let ?s = "s\<lparr>x0 := XOR_w (x0 s) ?w\<rparr>"
      let ?m = "take i m @ wbytes (x0 ?s) @ drop (i + 8) m"
      show ?thesis
        using "1.IH" [of ?w ?s ?m] "1.prems" True room
        by (simp add: decrypt_blocks.simps [of s] ASCON_AEAD_RATE_def LOAD_eq STORE_8 whole_simps(3))
    qed
  next
    case False
    with "1.prems" show ?thesis
      by (cases "clen = 0")
        (simp_all add: decrypt_blocks.simps [of s] ASCON_AEAD_RATE_def LOAD_eq STORE_out_of_bounds whole_simps Let_def)
  qed
qed

section \<open>The cipher\<close>

definition adata_state :: "state_t \<Rightarrow> u8 list \<Rightarrow> state_t" where
  "adata_state s a = (let s = if a = [] then s else P (adata_pure s a) 6 in s\<lparr>x4 := XOR_w (x4 s) (WORD_T 1)\<rparr>)"

definition ascon_start :: "u8 list \<Rightarrow> u8 list \<Rightarrow> u8 list \<Rightarrow> state_t" where
  "ascon_start a npub k = (case ascon_aeadinit npub k of Inr s \<Rightarrow> adata_state s a | Inl _ \<Rightarrow> PINIT)"

definition ascon_tag :: "state_t \<Rightarrow> u8 list \<Rightarrow> u8 list" where
  "ascon_tag s k = (case ascon_final s k of Inr s \<Rightarrow> wbytes (x3 s) @ wbytes (x4 s) | Inl _ \<Rightarrow> [])"

definition ascon_pure :: "u8 list \<Rightarrow> u8 list \<Rightarrow> u8 list \<Rightarrow> u8 list \<Rightarrow> u8 list" where
  "ascon_pure m a npub k = (case enc_pure (ascon_start a npub k) m of (t, x) \<Rightarrow> x @ ascon_tag t k)"

lemma ascon_adata_eq: "whole adlen \<le> length ad \<Longrightarrow> ascon_adata s ad adlen = Inr (adata_state s (take adlen ad))"
  using adata_blocks_eq [of 0 adlen ad s] whole_bounds(1) [of adlen]
  by (auto simp: ascon_adata_def adata_state_def Let_def)

lemma ascon_aeadinit_total: "16 \<le> length npub \<Longrightarrow> 16 \<le> length k \<Longrightarrow> \<exists>s. ascon_aeadinit npub k = Inr s"
  by (simp add: ascon_aeadinit_def ascon_loadkey_def KINIT_def LOAD_eq Let_def)

lemma ascon_final_total: "16 \<le> length k \<Longrightarrow> \<exists>t. ascon_final s k = Inr t"
  by (simp add: ascon_final_def ascon_loadkey_def KINIT_def LOAD_eq Let_def)

lemma length_ascon_tag [simp]: "16 \<le> length k \<Longrightarrow> length (ascon_tag s k) = 16"
  using ascon_final_total [of k s] by (auto simp: ascon_tag_def)

lemma length_enc_pure: "enc_pure s m = (t, c) \<Longrightarrow> length c = length m"
  using dec_enc_pure by blast

lemma length_ascon_pure [simp]: "16 \<le> length k \<Longrightarrow> length (ascon_pure m a npub k) = length m + 16"
  by (auto simp: ascon_pure_def split: prod.splits dest: length_enc_pure)

lemma ascon_start_eq:
  assumes "whole adlen \<le> length ad" "16 \<le> length npub" "16 \<le> length k"
  shows "bindr (ascon_aeadinit npub k) (\<lambda>s. bindr (ascon_adata s ad adlen) f) = f (ascon_start (take adlen ad) npub k)"
  using ascon_aeadinit_total [OF assms(2,3)] assms(1) by (auto simp: ascon_start_def ascon_adata_eq)

lemma ascon_encrypt_eq:
  assumes "whole mlen \<le> length m" "whole mlen \<le> length c"
  shows "\<exists>g. length g = whole mlen - mlen \<and> ascon_encrypt s c m mlen =
    (case enc_pure s (take mlen m) of (t, x) \<Rightarrow> Inr (t, x @ g @ drop (whole mlen) c))"
  using encrypt_blocks_eq [of 0 mlen m c s] assms by (simp add: ascon_encrypt_def)

lemma ascon_decrypt_eq:
  assumes "whole clen \<le> length c" "whole clen \<le> length m"
  shows "\<exists>g. length g = whole clen - clen \<and> ascon_decrypt s m c clen =
    (case dec_pure s (take clen c) of (t, x) \<Rightarrow> Inr (t, x @ g @ drop (whole clen) m))"
  using decrypt_blocks_eq [of 0 clen c m s] assms by (simp add: ascon_decrypt_def)

lemma STOREBYTES_tag:
  "i + 16 \<le> length bs \<Longrightarrow> bindr (STOREBYTES bs i v 8) (\<lambda>bs. STOREBYTES bs (i + 8) w 8) =
     Inr (take i bs @ wbytes v @ wbytes w @ drop (i + 16) bs)"
  by (simp add: STOREBYTES_8 ac_simps)

lemma ascon_aead_encrypt_eq:
  assumes room: "whole mlen \<le> length m" "mlen + 16 \<le> length c" "whole adlen \<le> length ad"
    and lens: "16 \<le> length npub" "16 \<le> length k"
  shows "ascon_aead_encrypt c m mlen ad adlen npub k =
    Inr (ascon_pure (take mlen m) (take adlen ad) npub k @ drop (mlen + 16) c)"
proof -
  let ?s = "ascon_start (take adlen ad) npub k"
  obtain t x where e: "enc_pure ?s (take mlen m) = (t, x)" by force
  have x: "length x = mlen" using length_enc_pure [OF e] room(1) whole_bounds(1) [of mlen] by simp
  have w: "whole mlen \<le> length c" using room(2) whole_bounds(2) [of mlen] by simp
  obtain g where g: "length g = whole mlen - mlen" "ascon_encrypt ?s c m mlen = Inr (t, x @ g @ drop (whole mlen) c)"
    using ascon_encrypt_eq [OF room(1) w, of ?s] e by auto
  obtain u where u: "ascon_final t k = Inr u" using ascon_final_total [OF lens(2)] by blast
  let ?c = "x @ g @ drop (whole mlen) c"
  have len: "length ?c = length c" using x g w whole_bounds(1) [of mlen] by simp
  have "drop (mlen + 16) ?c = drop (mlen + 16) c"
    using x g whole_bounds [of mlen] by (simp add: ac_simps)
  then have "ascon_aead_encrypt c m mlen ad adlen npub k = Inr (x @ wbytes (x3 u) @ wbytes (x4 u) @ drop (mlen + 16) c)"
    using len x room(2) STOREBYTES_tag [of mlen ?c "x3 u" "x4 u"]
    by (simp add: ascon_aead_encrypt_def ascon_start_eq [OF room(3) lens] g(2) u)
  then show ?thesis by (simp add: ascon_pure_def e ascon_tag_def u)
qed

lemma ascon_aead_decrypt_eq:
  assumes clen: "16 \<le> clen" "clen \<le> length c" and room: "whole (clen - 16) \<le> length m" "whole adlen \<le> length ad"
    and lens: "16 \<le> length npub" "16 \<le> length k"
  shows "\<exists>m'. length m' = length m \<and> drop (whole (clen - 16)) m' = drop (whole (clen - 16)) m \<and>
    snd (enc_pure (ascon_start (take adlen ad) npub k) (take (clen - 16) m')) = take (clen - 16) c \<and>
    ascon_aead_decrypt m c clen ad adlen npub k =
    Inr (if ascon_pure (take (clen - 16) m') (take adlen ad) npub k = take clen c then 0 else -1, m')"
proof -
  let ?n = "clen - 16" and ?s = "ascon_start (take adlen ad) npub k"
  obtain t x where d: "dec_pure ?s (take ?n c) = (t, x)" by force
  then have e: "enc_pure ?s x = (t, take ?n c)" by (simp add: dec_pure_iff)
  have x: "length x = ?n" using length_enc_pure [OF e] clen by simp
  have w: "whole ?n \<le> length c" using clen whole_bounds(2) [of ?n] by simp
  obtain g where g: "length g = whole ?n - ?n" "ascon_decrypt ?s m c ?n = Inr (t, x @ g @ drop (whole ?n) m)"
    using ascon_decrypt_eq [OF w room(1), of ?s] d by auto
  let ?m = "x @ g @ drop (whole ?n) m"
  obtain u where u: "ascon_final t k = Inr u" using ascon_final_total [OF lens(2)] by blast
  let ?t3 = "take 8 (drop ?n c)" and ?t4 = "take 8 (drop (?n + 8) c)"
  have c: "take clen c = take ?n c @ ?t3 @ ?t4"
  proof -
    have "clen = ?n + (8 + 8)" using clen by simp
    then show ?thesis by (metis take_add drop_drop add.commute)
  qed
  have "x3 u = wpad ?t3 \<and> x4 u = wpad ?t4 \<longleftrightarrow> wbytes (x3 u) = ?t3 \<and> wbytes (x4 u) = ?t4"
    using clen by (simp flip: wbytes_inject)
  also have "\<dots> \<longleftrightarrow> ascon_pure x (take adlen ad) npub k = take clen c"
    using clen by (simp add: ascon_pure_def e ascon_tag_def u c)
  finally have "ascon_aead_decrypt m c clen ad adlen npub k =
      Inr (if ascon_pure x (take adlen ad) npub k = take clen c then 0 else -1, ?m)"
    using clen by (simp add: ascon_aead_decrypt_def CRYPTO_ABYTES_def ascon_start_eq [OF room(2) lens] g(2) u LOADBYTES_8
        NOTZERO_eq Let_def)
  moreover have "length ?m = length m" "take ?n ?m = x" "drop (whole ?n) ?m = drop (whole ?n) m"
    using x g(1) room(1) whole_bounds(1) [of ?n] by simp_all
  ultimately show ?thesis by (intro exI [of _ ?m]) (simp add: e)
qed

section \<open>The cipher behind the interface\<close>

text \<open>A caller whose buffers have room for whole blocks.\<close>

definition whole_buffer :: "u8 list \<Rightarrow> u8 list" where
  "whole_buffer b = b @ replicate (whole (length b) - length b) 0"

definition ascon_enc :: "u8 list \<Rightarrow> u8 list \<Rightarrow> u8 list \<Rightarrow> u8 list \<Rightarrow> u8 list" where
  "ascon_enc m ad npub k =
     (case ascon_aead_encrypt (replicate (length m + CRYPTO_ABYTES) 0) (whole_buffer m) (length m)
        (whole_buffer ad) (length ad) npub k of Inr c \<Rightarrow> c | Inl _ \<Rightarrow> [])"

definition ascon_dec :: "u8 list \<Rightarrow> u8 list \<Rightarrow> u8 list \<Rightarrow> u8 list \<Rightarrow> (int \<times> u8 list) res" where
  "ascon_dec c ad npub k =
     (let n = length c - CRYPTO_ABYTES
      in bindr (ascon_aead_decrypt (replicate (whole n) 0) c (length c) (whole_buffer ad) (length ad) npub k)
           (\<lambda>(r, m). Inr (r, take n m)))"

lemma whole_buffer_simps [simp]: "length (whole_buffer b) = whole (length b)" "take (length b) (whole_buffer b) = b"
  using whole_bounds(1) [of "length b"] by (simp_all add: whole_buffer_def)

lemma ascon_enc_eq: "16 \<le> length npub \<Longrightarrow> 16 \<le> length k \<Longrightarrow> ascon_enc m ad npub k = ascon_pure m ad npub k"
  by (simp add: ascon_enc_def CRYPTO_ABYTES_def ascon_aead_encrypt_eq)

lemma ascon_dec_eq:
  assumes "16 \<le> length npub" "16 \<le> length k" "16 \<le> length c"
  shows "\<exists>m. length m = length c - 16 \<and> snd (enc_pure (ascon_start ad npub k) m) = take (length c - 16) c \<and>
    ascon_dec c ad npub k = Inr (if ascon_pure m ad npub k = c then 0 else -1, m)"
proof -
  let ?n = "length c - 16"
  obtain m' where "length m' = whole ?n" "snd (enc_pure (ascon_start ad npub k) (take ?n m')) = take ?n c"
    "ascon_aead_decrypt (replicate (whole ?n) 0) c (length c) (whole_buffer ad) (length ad) npub k =
       Inr (if ascon_pure (take ?n m') ad npub k = c then 0 else -1, m')"
    using ascon_aead_decrypt_eq [of "length c" c "replicate (whole ?n) 0" "length ad" "whole_buffer ad" npub k] assms by auto
  then show ?thesis
    using whole_bounds(1) [of ?n] by (intro exI [of _ "take ?n m'"]) (simp add: ascon_dec_def CRYPTO_ABYTES_def Let_def)
qed

lemma enc_pure_inject: "snd (enc_pure s m) = snd (enc_pure s m') \<Longrightarrow> m = m'"
  by (metis dec_enc_pure prod.collapse prod.inject)

interpretation ascon: aead ascon_enc ascon_dec "\<lambda>n k. length n = 16 \<and> length k = 16" CRYPTO_ABYTES
proof
  fix n k m ad c :: "u8 list"
  assume ok: "length n = 16 \<and> length k = 16"
  then have len: "length (ascon_pure m ad n k) = length m + 16" by simp
  show "length (ascon_enc m ad n k) = length m + CRYPTO_ABYTES"
    using ok by (simp add: ascon_enc_eq CRYPTO_ABYTES_def)
  show "ascon_dec (ascon_enc m ad n k) ad n k = Inr (0, m)"
  proof -
    define x where "x = ascon_pure m ad n k"
    have x: "length x - 16 = length m" "16 \<le> length x" using len by (simp_all add: x_def)
    obtain m' where m': "snd (enc_pure (ascon_start ad n k) m') = take (length m) x"
      "ascon_dec x ad n k = Inr (if ascon_pure m' ad n k = x then 0 else -1, m')"
    proof -
      have "16 \<le> length n" "16 \<le> length k" using ok by simp_all
      from ascon_dec_eq [OF this x(2), of ad] show thesis
        unfolding x(1) by (elim exE conjE) (rule that)
    qed
    obtain t y where e: "enc_pure (ascon_start ad n k) m = (t, y)" by force
    have "take (length m) x = snd (enc_pure (ascon_start ad n k) m)"
      using length_enc_pure [OF e] by (simp add: x_def ascon_pure_def e)
    with m'(1) have "snd (enc_pure (ascon_start ad n k) m') = snd (enc_pure (ascon_start ad n k) m)" by simp
    then have "m' = m" by (rule enc_pure_inject)
    then show ?thesis using ok m'(2) by (simp add: ascon_enc_eq x_def)
  qed
  show "ascon_enc m ad n k = c" if "ascon_dec c ad n k = Inr (0, m)"
  proof (cases "16 \<le> length c")
    case True
    then show ?thesis
      using ok that ascon_dec_eq [of n k c ad] by (auto simp: ascon_enc_eq split: if_splits)
  next
    case False
    then show ?thesis using that by (simp add: ascon_dec_def ascon_aead_decrypt_def CRYPTO_ABYTES_def Let_def)
  qed
qed

section \<open>Properties of the cipher\<close>

text \<open>
  C27: With buffers that have room for whole blocks, decryption returns 0 exactly on the
  ciphertexts that encrypting what it has written gives, with the same associated data, nonce
  and key, and -1 otherwise; it writes only the whole blocks of the plaintext. Encryption
  always returns, whatever the ciphertext buffer held before.
\<close>

theorem ascon_decrypt_iff:
  assumes "16 \<le> clen" "clen \<le> length c" "whole (clen - 16) \<le> length m" "whole adlen \<le> length ad"
    and "length npub = 16" "length k = 16"
  shows "\<exists>r m' c'. ascon_aead_decrypt m c clen ad adlen npub k = Inr (r, m') \<and>
    ascon_aead_encrypt (replicate clen 0) m' (clen - 16) ad adlen npub k = Inr c' \<and>
    r = (if c' = take clen c then 0 else -1) \<and>
    length m' = length m \<and> drop (whole (clen - 16)) m' = drop (whole (clen - 16)) m"
proof -
  obtain m' where m': "length m' = length m" "drop (whole (clen - 16)) m' = drop (whole (clen - 16)) m"
    "ascon_aead_decrypt m c clen ad adlen npub k =
       Inr (if ascon_pure (take (clen - 16) m') (take adlen ad) npub k = take clen c then 0 else -1, m')"
    using ascon_aead_decrypt_eq [OF assms(1-4), of npub k] assms(5,6) by auto
  moreover have "ascon_aead_encrypt (replicate clen 0) m' (clen - 16) ad adlen npub k =
      Inr (ascon_pure (take (clen - 16) m') (take adlen ad) npub k)"
    using assms m'(1) by (simp add: ascon_aead_encrypt_eq)
  ultimately show ?thesis by auto
qed

theorem ascon_decrypt_iff_witness:
  "\<exists>r m' c'. ascon_aead_decrypt (replicate 8 0) (replicate 21 7) 21 (replicate 8 1) 3 (replicate 16 2) (replicate 16 3) = Inr (r, m') \<and>
    ascon_aead_encrypt (replicate 21 0) m' (21 - 16) (replicate 8 1) 3 (replicate 16 2) (replicate 16 3) = Inr c' \<and>
    r = (if c' = take 21 (replicate 21 7) then 0 else -1) \<and>
    length m' = length (replicate 8 (0 :: u8)) \<and> drop (whole (21 - 16)) m' = drop (whole (21 - 16)) (replicate 8 0)"
  by (rule ascon_decrypt_iff) (simp_all add: whole_def)

text \<open>
  C28: What one caller encrypts another decrypts, when the buffers of the message, of the associated data and
  of the plaintext have room for whole blocks of eight bytes: encryption into a buffer of exactly the
  message and the tag returns, and decryption of the result returns 0 and has the message at the start of its
  buffer.
\<close>

theorem ascon_roundtrip:
  assumes "whole mlen \<le> length m" "length c = mlen + 16" "whole adlen \<le> length ad" "whole mlen \<le> length b"
    and "length npub = 16" "length k = 16"
  shows "\<exists>c' m'. ascon_aead_encrypt c m mlen ad adlen npub k = Inr c' \<and> length c' = mlen + 16 \<and>
    ascon_aead_decrypt b c' (mlen + 16) ad adlen npub k = Inr (0, m') \<and> take mlen m' = take mlen m"
proof -
  let ?a = "take adlen ad"
  let ?c = "ascon_pure (take mlen m) ?a npub k"
  have enc: "ascon_aead_encrypt c m mlen ad adlen npub k = Inr ?c"
    using assms by (simp add: ascon_aead_encrypt_eq)
  have len: "length ?c = mlen + 16" using assms whole_bounds(1) [of mlen] by simp
  obtain m' where m': "snd (enc_pure (ascon_start ?a npub k) (take mlen m')) = take mlen ?c"
    "ascon_aead_decrypt b ?c (mlen + 16) ad adlen npub k =
       Inr (if ascon_pure (take mlen m') ?a npub k = ?c then 0 else -1, m')"
    using ascon_aead_decrypt_eq [of "mlen + 16" ?c b adlen ad npub k] assms len by auto
  obtain t y where e: "enc_pure (ascon_start ?a npub k) (take mlen m) = (t, y)" by force
  have "take mlen ?c = snd (enc_pure (ascon_start ?a npub k) (take mlen m))"
    using length_enc_pure [OF e] assms(1) whole_bounds(1) [of mlen] by (simp add: ascon_pure_def e)
  with m'(1) have "take mlen m' = take mlen m" by (metis enc_pure_inject)
  then show ?thesis using enc len m'(2) by auto
qed

theorem ascon_roundtrip_witness:
  "\<exists>c' m'. ascon_aead_encrypt (replicate 21 9) (replicate 8 5) 5 (replicate 8 1) 3 (replicate 16 2) (replicate 16 3) = Inr c' \<and>
    length c' = 5 + 16 \<and>
    ascon_aead_decrypt (replicate 8 0) c' (5 + 16) (replicate 8 1) 3 (replicate 16 2) (replicate 16 3) = Inr (0, m') \<and>
    take 5 m' = take 5 (replicate 8 5)"
  by (rule ascon_roundtrip) (simp_all add: whole_def)

text \<open>
  C29: Decryption leaves its plaintext buffer exactly when the buffer does not have room for
  whole blocks of eight bytes, so for a buffer of the length of the plaintext whenever that is not a
  multiple of eight.
\<close>

theorem ascon_decrypt_out_of_bounds:
  assumes "16 \<le> clen" "clen \<le> length c" "whole adlen \<le> length ad" "length npub = 16" "length k = 16"
  shows "ascon_aead_decrypt m c clen ad adlen npub k = Inl OutOfBounds \<longleftrightarrow> length m < whole (clen - 16)"
proof (cases "length m < whole (clen - 16)")
  case True
  have lens: "16 \<le> length npub" "16 \<le> length k" using assms by simp_all
  have "whole (clen - 16) \<le> length c" using assms whole_bounds(2) [of "clen - 16"] by simp
  then have "ascon_decrypt s m c (clen - 16) = Inl OutOfBounds" for s
    using decrypt_blocks_out_of_bounds [of 0 "clen - 16" c m s] True by (simp add: ascon_decrypt_def)
  then show ?thesis
    using True assms by (simp add: ascon_aead_decrypt_def CRYPTO_ABYTES_def ascon_start_eq [OF assms(3) lens] Let_def)
next
  case False
  then show ?thesis
    using ascon_aead_decrypt_eq [of clen c m adlen ad npub k] assms by auto
qed

theorem ascon_decrypt_out_of_bounds_witness:
  "ascon_aead_decrypt (replicate 5 0) (replicate 21 7) 21 [] 0 (replicate 16 2) (replicate 16 3) = Inl OutOfBounds"
  using ascon_decrypt_out_of_bounds [of 21 "replicate 21 7" 0 "[]" "replicate 16 2" "replicate 16 3" "replicate 5 0"]
  by (simp add: whole_def)

end
