(* ===== verification/Ascon_Struc.thy ===== *)
theory Ascon_Struc
  imports Ascon_AEAD
begin

text \<open>
  The Ascon program as it is given to the compiler, \<^verbatim>\<open>programs/Ascon32/ascon128v12_struc.c\<close>:
  word arrays instead of bytes, a message and associated data of 16 bytes, no branches on
  data. A state is the array of ten words, the odd half of a 64-bit word before its even half,
  and an array of two words is a pair. The theory shows that it computes what the reference
  program computes.
\<close>

section \<open>The code\<close>

definition PAD0o :: u32 where "PAD0o = 2147483648"
definition PAD0e :: u32 where "PAD0e = 0"
definition ASCON_128_IV_0 :: u32 where "ASCON_128_IV_0 = 2149646336"
definition ASCON_128_IV_1 :: u32 where "ASCON_128_IV_1 = 136445952"

definition deinterleave_uint32_struc :: "u32 \<Rightarrow> u32" where
  "deinterleave_uint32_struc x =
     (let t = (x XOR drop_bit 1 x) AND 0x22222222; x = x XOR (t XOR push_bit 1 t);
          t = (x XOR drop_bit 2 x) AND 0x0C0C0C0C; x = x XOR (t XOR push_bit 2 t);
          t = (x XOR drop_bit 4 x) AND 0x00F000F0; x = x XOR (t XOR push_bit 4 t);
          t = (x XOR drop_bit 8 x) AND 0x0000FF00; x = x XOR (t XOR push_bit 8 t)
      in x)"

definition interleave_uint32_struc :: "u32 \<Rightarrow> u32" where
  "interleave_uint32_struc x =
     (let t = (x XOR drop_bit 8 x) AND 0x0000FF00; x = x XOR (t XOR push_bit 8 t);
          t = (x XOR drop_bit 4 x) AND 0x00F000F0; x = x XOR (t XOR push_bit 4 t);
          t = (x XOR drop_bit 2 x) AND 0x0C0C0C0C; x = x XOR (t XOR push_bit 2 t);
          t = (x XOR drop_bit 1 x) AND 0x22222222; x = x XOR (t XOR push_bit 1 t)
      in x)"

definition deinterleave32_struc :: "u32 \<times> u32 \<Rightarrow> u32 \<times> u32" where
  "deinterleave32_struc inp =
     (let hi = snd inp; lo = fst inp;
          lo = deinterleave_uint32_struc lo;
          hi = deinterleave_uint32_struc hi;
          r0 = (lo AND 0x0000FFFF) OR push_bit 16 hi;
          r1 = drop_bit 16 lo OR (hi AND 0xFFFF0000)
      in (r1, r0))"

definition interleave32_struc :: "u32 \<times> u32 \<Rightarrow> u32 \<times> u32" where
  "interleave32_struc inp =
     (let r0 = snd inp; r1 = fst inp;
          lo = (r0 AND 0x0000FFFF) OR push_bit 16 r1;
          hi = drop_bit 16 r0 OR (r1 AND 0xFFFF0000);
          lo = interleave_uint32_struc lo;
          hi = interleave_uint32_struc hi
      in (lo, hi))"

text \<open>Both halves of the array are reversed by the same expression.\<close>

definition swap_bytes :: "u32 \<Rightarrow> u32" where
  "swap_bytes x =
     push_bit 24 (x AND 0x000000ff) OR push_bit 8 (x AND 0x0000ff00) OR
     drop_bit 8 (x AND 0x00ff0000) OR drop_bit 24 (x AND 0xff000000)"

definition U64BIG_struc :: "u32 \<times> u32 \<Rightarrow> u32 \<times> u32" where
  "U64BIG_struc inp = (swap_bytes (snd inp), swap_bytes (fst inp))"

definition LOAD_struc :: "u32 \<times> u32 \<Rightarrow> u32 \<times> u32" where
  "LOAD_struc inp = deinterleave32_struc (U64BIG_struc inp)"

definition STORE_struc :: "u32 \<times> u32 \<Rightarrow> u32 \<times> u32" where
  "STORE_struc inp = U64BIG_struc (interleave32_struc inp)"

text \<open>
  The counts are \<^verbatim>\<open>unsigned int\<close>: \<^verbatim>\<open>n - 1\<close> wraps around for 0, which is what selects the
  first branch. The second branch is computed in any case; its value is not used for 0, where
  a shift by 32 is undefined in C.
\<close>

definition ROR32_struc :: "u32 \<Rightarrow> u32 \<Rightarrow> u32" where
  "ROR32_struc x n =
     (let c = drop_bit 8 (n - 1) AND 1;
          X = x;
          Y = drop_bit (unat n) x OR push_bit (unat (32 - n)) x
      in if c \<noteq> 0 then X else Y)"

definition RORe :: "u32 \<Rightarrow> u32 \<Rightarrow> u32 \<Rightarrow> u32" where
  "RORe od e n =
     (let c = n mod 2; X = ROR32_struc od ((n - 1) div 2); Y = ROR32_struc e (n div 2)
      in if c \<noteq> 0 then X else Y)"

definition RORo :: "u32 \<Rightarrow> u32 \<Rightarrow> u32 \<Rightarrow> u32" where
  "RORo od e n =
     (let c = n mod 2; X = ROR32_struc e ((n + 1) div 2); Y = ROR32_struc od (n div 2)
      in if c \<noteq> 0 then X else Y)"

definition NOTZERO_struc :: "u32 \<Rightarrow> u32 \<Rightarrow> u32 \<Rightarrow> u32 \<Rightarrow> u32" where
  "NOTZERO_struc ao ae bo be =
     (let result = ae OR ao OR be OR bo;
          result = result OR drop_bit 16 result;
          result = result OR drop_bit 8 result
      in (drop_bit 8 ((result AND 0xff) - 1) AND 1) - 1)"

definition ROUND_struc :: "u32 list \<Rightarrow> u32 \<Rightarrow> u32 \<Rightarrow> u32 list" where
  "ROUND_struc s Ce Co =
     (let s = s[4 := s ! 4 XOR Co]; s = s[5 := s ! 5 XOR Ce];
          s = s[0 := s ! 0 XOR s ! 8]; s = s[1 := s ! 1 XOR s ! 9];
          s = s[8 := s ! 8 XOR s ! 6]; s = s[9 := s ! 9 XOR s ! 7];
          s = s[4 := s ! 4 XOR s ! 2]; s = s[5 := s ! 5 XOR s ! 3];
          t = [s ! 0 XOR (NOT (s ! 2) AND s ! 4), s ! 1 XOR (NOT (s ! 3) AND s ! 5),
               s ! 2 XOR (NOT (s ! 4) AND s ! 6), s ! 3 XOR (NOT (s ! 5) AND s ! 7),
               s ! 4 XOR (NOT (s ! 6) AND s ! 8), s ! 5 XOR (NOT (s ! 7) AND s ! 9),
               s ! 6 XOR (NOT (s ! 8) AND s ! 0), s ! 7 XOR (NOT (s ! 9) AND s ! 1),
               s ! 8 XOR (NOT (s ! 0) AND s ! 2), s ! 9 XOR (NOT (s ! 1) AND s ! 3)];
          t = t[2 := t ! 2 XOR t ! 0]; t = t[3 := t ! 3 XOR t ! 1];
          t = t[6 := t ! 6 XOR t ! 4]; t = t[7 := t ! 7 XOR t ! 5];
          t = t[0 := t ! 0 XOR t ! 8]; t = t[1 := t ! 1 XOR t ! 9];
          s = s[4 := t ! 4 XOR RORo (t ! 4) (t ! 5) (6 - 1)];
          s = s[5 := t ! 5 XOR RORe (t ! 4) (t ! 5) (6 - 1)];
          s = s[6 := t ! 6 XOR RORo (t ! 6) (t ! 7) (17 - 10)];
          s = s[7 := t ! 7 XOR RORe (t ! 6) (t ! 7) (17 - 10)];
          s = s[8 := t ! 8 XOR RORo (t ! 8) (t ! 9) (41 - 7)];
          s = s[9 := t ! 9 XOR RORe (t ! 8) (t ! 9) (41 - 7)];
          s = s[0 := t ! 0 XOR RORo (t ! 0) (t ! 1) (28 - 19)];
          s = s[1 := t ! 1 XOR RORe (t ! 0) (t ! 1) (28 - 19)];
          s = s[2 := t ! 2 XOR RORo (t ! 2) (t ! 3) (61 - 39)];
          s = s[3 := t ! 3 XOR RORe (t ! 2) (t ! 3) (61 - 39)];
          tx0 = s ! 4; tx1 = s ! 5;
          s = s[4 := t ! 4 XOR RORo tx0 tx1 1]; s = s[5 := t ! 5 XOR RORe tx0 tx1 1];
          tx0 = s ! 6; tx1 = s ! 7;
          s = s[6 := t ! 6 XOR RORo tx0 tx1 10]; s = s[7 := t ! 7 XOR RORe tx0 tx1 10];
          tx0 = s ! 8; tx1 = s ! 9;
          s = s[8 := t ! 8 XOR RORo tx0 tx1 7]; s = s[9 := t ! 9 XOR RORe tx0 tx1 7];
          tx0 = s ! 0; tx1 = s ! 1;
          s = s[0 := t ! 0 XOR RORo tx0 tx1 19]; s = s[1 := t ! 1 XOR RORe tx0 tx1 19];
          tx0 = s ! 2; tx1 = s ! 3;
          s = s[2 := t ! 2 XOR RORo tx0 tx1 39]; s = s[3 := t ! 3 XOR RORe tx0 tx1 39];
          s = s[4 := NOT (s ! 4)]; s = s[5 := NOT (s ! 5)]
      in s)"

definition P12_struc :: "u32 list \<Rightarrow> u32 list" where
  "P12_struc s =
     (let s = ROUND_struc s 0xc 0xc; s = ROUND_struc s 0x9 0xc; s = ROUND_struc s 0xc 0x9;
          s = ROUND_struc s 0x9 0x9; s = ROUND_struc s 0x6 0xc; s = ROUND_struc s 0x3 0xc;
          s = ROUND_struc s 0x6 0x9; s = ROUND_struc s 0x3 0x9; s = ROUND_struc s 0xc 0x6;
          s = ROUND_struc s 0x9 0x6; s = ROUND_struc s 0xc 0x3; s = ROUND_struc s 0x9 0x3
      in s)"

definition P6_struc :: "u32 list \<Rightarrow> u32 list" where
  "P6_struc s =
     (let s = ROUND_struc s 0x6 0x9; s = ROUND_struc s 0x3 0x9; s = ROUND_struc s 0xc 0x6;
          s = ROUND_struc s 0x9 0x6; s = ROUND_struc s 0xc 0x3; s = ROUND_struc s 0x9 0x3
      in s)"

text \<open>\<^verbatim>\<open>s[i] ^= p[0]; s[i+1] ^= p[1]\<close>\<close>

definition xor_pair :: "u32 list \<Rightarrow> nat \<Rightarrow> u32 \<times> u32 \<Rightarrow> u32 list" where
  "xor_pair s i p = (let s = s[i := s ! i XOR fst p] in s[i + 1 := s ! (i + 1) XOR snd p])"

definition ascon_aeadinit_struc :: "u32 list \<Rightarrow> u32 list \<Rightarrow> u32 list" where
  "ascon_aeadinit_struc npub k =
     (let N0 = LOAD_struc (npub ! 0, npub ! 1);
          N1 = LOAD_struc (npub ! 2, npub ! 3);
          K0 = LOAD_struc (k ! 0, k ! 1);
          K1 = LOAD_struc (k ! 2, k ! 3);
          s = [ASCON_128_IV_0, ASCON_128_IV_1, fst K0, snd K0, fst K1, snd K1, fst N0, snd N0, fst N1, snd N1];
          s = P12_struc s;
          s = xor_pair s 6 K0
      in xor_pair s 8 K1)"

text \<open>The loops count \<open>i\<close> in steps of 2.\<close>

definition ascon_adata_struc :: "u32 list \<Rightarrow> u32 list \<Rightarrow> nat \<Rightarrow> u32 list" where
  "ascon_adata_struc s ad adlen =
     (let s = fold (\<lambda>i s. P6_struc (xor_pair s 0 (LOAD_struc (ad ! i, ad ! (i + 1))))) (filter even [0..<adlen]) s;
          s = xor_pair s 0 (PAD0o, PAD0e);
          s = P6_struc s
      in xor_pair s 8 (0, 1))"

definition ascon_encrypt_struc :: "u32 list \<Rightarrow> u32 list \<Rightarrow> u32 list \<Rightarrow> nat \<Rightarrow> u32 list \<times> u32 list" where
  "ascon_encrypt_struc s c m mlen =
     (let (s, c) = fold (\<lambda>i (s, c).
            let t = LOAD_struc (m ! i, m ! (i + 1));
                s = xor_pair s 0 t;
                t = STORE_struc (s ! 0, s ! 1);
                c = c[i := fst t]; c = c[i + 1 := snd t]
            in (P6_struc s, c)) (filter even [0..<mlen]) (s, c)
      in (xor_pair s 0 (PAD0o, PAD0e), c))"

definition ascon_decrypt_struc :: "u32 list \<Rightarrow> u32 list \<Rightarrow> u32 list \<Rightarrow> nat \<Rightarrow> u32 list \<times> u32 list" where
  "ascon_decrypt_struc s m c clen =
     (let (s, m) = fold (\<lambda>i (s, m).
            let cx = LOAD_struc (c ! i, c ! (i + 1));
                s = xor_pair s 0 cx;
                t = STORE_struc (s ! 0, s ! 1);
                m = m[i := fst t]; m = m[i + 1 := snd t];
                s = s[0 := fst cx]; s = s[1 := snd cx]
            in (P6_struc s, m)) (filter even [0..<clen]) (s, m)
      in (xor_pair s 0 (PAD0o, PAD0e), m))"

definition ascon_final_struc :: "u32 list \<Rightarrow> u32 list \<Rightarrow> u32 list" where
  "ascon_final_struc s k =
     (let K0 = LOAD_struc (k ! 0, k ! 1);
          K1 = LOAD_struc (k ! 2, k ! 3);
          s = xor_pair s 2 K0; s = xor_pair s 4 K1;
          s = P12_struc s;
          s = xor_pair s 6 K0
      in xor_pair s 8 K1)"

definition ascon_aead_encrypt_struc :: "u32 list \<Rightarrow> u32 list \<Rightarrow> u32 list \<Rightarrow> u32 list \<Rightarrow> u32 list \<Rightarrow> u32 list" where
  "ascon_aead_encrypt_struc c m ad npub k =
     (let s = ascon_aeadinit_struc npub k;
          s = ascon_adata_struc s ad 4;
          (s, c) = ascon_encrypt_struc s c m 4;
          s = ascon_final_struc s k;
          t = STORE_struc (s ! 6, s ! 7);
          c = c[4 := fst t]; c = c[5 := snd t];
          t = STORE_struc (s ! 8, s ! 9);
          c = c[6 := fst t]
      in c[7 := snd t])"

text \<open>The unsigned result is converted to \<^verbatim>\<open>int\<close> on return.\<close>

definition ascon_aead_decrypt_struc ::
    "u32 list \<Rightarrow> u32 list \<Rightarrow> u32 list \<Rightarrow> u32 list \<Rightarrow> u32 list \<Rightarrow> int \<times> u32 list" where
  "ascon_aead_decrypt_struc m c ad npub k =
     (let s = ascon_aeadinit_struc npub k;
          s = ascon_adata_struc s ad 4;
          (s, m) = ascon_decrypt_struc s m c 4;
          s = ascon_final_struc s k;
          s = xor_pair s 6 (LOAD_struc (c ! 4, c ! 5));
          s = xor_pair s 8 (LOAD_struc (c ! 6, c ! 7))
      in (sint (NOTZERO_struc (s ! 6) (s ! 7) (s ! 8) (s ! 9)), m))"

section \<open>Words\<close>

definition w2 :: "word_t \<Rightarrow> u32 \<times> u32" where "w2 w = (wo w, we w)"

lemma interleave_uint32_struc_eq [simp]:
  "deinterleave_uint32_struc x = deinterleave_uint32 x" "interleave_uint32_struc x = interleave_uint32 x"
  by (simp_all add: deinterleave_uint32_struc_def deinterleave_uint32_def interleave_uint32_struc_def
      interleave_uint32_def swap_step_def Let_def)

definition pack :: "u32 \<times> u32 \<Rightarrow> u64" where
  "pack p = push_bit 32 (ucast (snd p)) OR ucast (fst p)"

lemma pack_halves [simp]: "ucast (pack p) = fst p" "ucast (drop_bit 32 (pack p)) = snd p"
  by (rule bit_word_eqI, auto simp: pack_def bit_simps)+

lemma deinterleave32_struc_eq: "deinterleave32_struc p = w2 (U64TOWORD (pack p))"
  by (simp add: deinterleave32_struc_def U64TOWORD_def deinterleave32_def w2_def Let_def)

lemma interleave32_struc_eq: "pack (interleave32_struc (w2 w)) = WORDTOU64 w"
  by (simp add: interleave32_struc_def WORDTOU64_def interleave32_def w2_def Let_def) (simp add: pack_def)

lemma pack_inject: "pack p = pack q \<longleftrightarrow> p = q"
  by (metis pack_halves prod.collapse)

lemma bit_pack: "bit (pack p) i = (if i < 32 then bit (fst p) i else bit (snd p) (i - 32))"
  by (auto simp: pack_def bit_simps dest: bit_imp_le_length)

lemma up_to_3: "k < (4 :: nat) \<longleftrightarrow> k = 0 \<or> k = 1 \<or> k = 2 \<or> k = 3"
  by linarith

lemma swap_masks:
  "(0x000000ff :: u32) = mask 8" "(0x0000ff00 :: u32) = push_bit 8 (mask 8)"
  "(0x00ff0000 :: u32) = push_bit 16 (mask 8)" "(0xff000000 :: u32) = push_bit 24 (mask 8)"
  by (simp_all add: mask_eq_exp_minus_1)

lemma bit_swap_bytes:
  assumes "q < 4" "t < 8"
  shows "bit (swap_bytes x) (8 * q + t) = bit x (8 * (3 - q) + t)"
  using assms unfolding up_to_3 [of q] swap_bytes_def swap_masks
  by (elim disjE) (simp_all add: bit_simps)

lemma pack_U64BIG: "pack (U64BIG_struc p) = U64BIG (pack p)"
proof (rule bit_word_eqI)
  fix i assume "i < LENGTH(64)"
  then have i: "i = 8 * (i div 8) + i mod 8" "i div 8 < 8" "i mod 8 < 8" by simp_all
  have "bit (pack (U64BIG_struc p)) (8 * q + t) = bit (pack p) (8 * (7 - q) + t)" if "q < 8" "t < 8" for q t
  proof (cases "q < 4")
    case True
    then have e: "8 * (7 - q) + t = 32 + (8 * (3 - q) + t)" "8 * q + t < 32" using that by simp_all
    show ?thesis unfolding e(1) bit_pack using e(2) True that by (simp add: U64BIG_struc_def bit_swap_bytes)
  next
    case False
    then obtain r where r: "q = 4 + r" using le_Suc_ex [of 4 q] by auto
    have e: "r < 4" "8 * q + t = 32 + (8 * r + t)" "8 * (7 - q) + t = 8 * (3 - r) + t" "8 * (3 - r) + t < 32"
      using that r by auto
    show ?thesis unfolding e(2,3) bit_pack using e(1,4) that by (simp add: U64BIG_struc_def bit_swap_bytes)
  qed
  from this [OF i(2,3)] show "bit (pack (U64BIG_struc p)) i = bit (U64BIG (pack p)) i"
    using bit_U64BIG [OF i(2,3), of "pack p"] i(1) by simp
qed

text \<open>Two words of a text and its eight bytes.\<close>

lemma le64_pack: "le64 (le_bytes a @ le_bytes b) = pack (a, b)"
  using words_of_bytes_append_word [of a "le_bytes b"] words_of_bytes_append_word [of b "[]"]
  by (simp add: le64_def pack_def or.commute)

lemma LOAD_struc_eq: "LOAD_struc (a, b) = w2 (wpad (le_bytes a @ le_bytes b))"
  by (simp add: LOAD_struc_def deinterleave32_struc_eq pack_U64BIG wpad_def le64_pack)

lemma STORE_struc_eq: "STORE_struc (w2 w) = (a, b) \<Longrightarrow> le_bytes a @ le_bytes b = wbytes w"
proof -
  assume "STORE_struc (w2 w) = (a, b)"
  then have "pack (a, b) = U64BIG (WORDTOU64 w)"
    using pack_U64BIG [of "interleave32_struc (w2 w)"] by (simp add: STORE_struc_def interleave32_struc_eq)
  then show ?thesis
    unfolding wbytes_def using le64_bytes_le64 [of "le_bytes a @ le_bytes b"] by (simp add: le64_pack)
qed

lemma RORo_eq:
  "RORo a b 1 = ROR32 b 1"
  "RORo a b 5 = ROR32 b 3"
  "RORo a b 7 = ROR32 b 4"
  "RORo a b 9 = ROR32 b 5"
  "RORo a b 10 = ROR32 a 5"
  "RORo a b 19 = ROR32 b 10"
  "RORo a b 22 = ROR32 a 11"
  "RORo a b 34 = ROR32 a 17"
  "RORo a b 39 = ROR32 b 20"
  by (simp_all add: RORo_def ROR32_struc_def ROR32_def Let_def)

lemma RORe_eq:
  "RORe a b 1 = ROR32 a 0"
  "RORe a b 5 = ROR32 a 2"
  "RORe a b 7 = ROR32 a 3"
  "RORe a b 9 = ROR32 a 4"
  "RORe a b 10 = ROR32 b 5"
  "RORe a b 19 = ROR32 a 9"
  "RORe a b 22 = ROR32 b 11"
  "RORe a b 34 = ROR32 b 17"
  "RORe a b 39 = ROR32 a 19"
  by (simp_all add: RORe_def ROR32_struc_def ROR32_def Let_def)

lemma ROR_w_eq:
  "ROR_w x 1 = \<lparr>we = ROR32 (wo x) 0, wo = ROR32 (we x) 1\<rparr>"
  "ROR_w x 5 = \<lparr>we = ROR32 (wo x) 2, wo = ROR32 (we x) 3\<rparr>"
  "ROR_w x 7 = \<lparr>we = ROR32 (wo x) 3, wo = ROR32 (we x) 4\<rparr>"
  "ROR_w x 9 = \<lparr>we = ROR32 (wo x) 4, wo = ROR32 (we x) 5\<rparr>"
  "ROR_w x 10 = \<lparr>we = ROR32 (we x) 5, wo = ROR32 (wo x) 5\<rparr>"
  "ROR_w x 19 = \<lparr>we = ROR32 (wo x) 9, wo = ROR32 (we x) 10\<rparr>"
  "ROR_w x 22 = \<lparr>we = ROR32 (we x) 11, wo = ROR32 (wo x) 11\<rparr>"
  "ROR_w x 34 = \<lparr>we = ROR32 (we x) 17, wo = ROR32 (wo x) 17\<rparr>"
  "ROR_w x 39 = \<lparr>we = ROR32 (wo x) 19, wo = ROR32 (we x) 20\<rparr>"
  by (simp_all add: ROR_w_def)

section \<open>The permutation\<close>

definition array :: "state_t \<Rightarrow> u32 list" where
  "array s =
     [wo (x0 s), we (x0 s), wo (x1 s), we (x1 s), wo (x2 s), we (x2 s), wo (x3 s), we (x3 s), wo (x4 s), we (x4 s)]"

lemma halves_simps:
  "we (XOR_w a b) = we a XOR we b" "wo (XOR_w a b) = wo a XOR wo b"
  "we (AND_w a b) = we a AND we b" "wo (AND_w a b) = wo a AND wo b"
  "we (NOT_w a) = NOT (we a)" "wo (NOT_w a) = NOT (wo a)"
  by (simp_all add: XOR_w_def AND_w_def NOT_w_def)

lemma ROUND_struc_eq: "ROUND_struc (array s) (we C) (wo C) = array (ROUND s C)"
  unfolding ROUND_struc_def array_def ROUND_def
  by (simp add: RORo_eq RORe_eq ROR_w_eq ROR_w_eq(1) [unfolded One_nat_def] halves_simps Let_def)

lemma RC_halves: "we (RC (ucast e) x) = e" "wo (RC (ucast (e :: u32)) (ucast od)) = od"
  by (rule bit_word_eqI, auto simp: RC_def WORD_T_def bit_simps)+

lemma ROUND_RC: "ROUND_struc (array s) e od = array (ROUND s (RC (ucast e) (ucast od)))"
  using ROUND_struc_eq [of s "RC (ucast e) (ucast od)"] by (simp add: RC_halves)

lemma P12_struc_eq: "P12_struc (array s) = array (P s 12)"
  by (simp add: P12_struc_def P_def P12ROUNDS_def ROUND_RC Let_def)

lemma P6_struc_eq: "P6_struc (array s) = array (P s 6)"
  by (simp add: P6_struc_def P_def P6ROUNDS_def ROUND_RC Let_def)

lemma xor_pair_array:
  "xor_pair (array s) 0 (w2 w) = array (s\<lparr>x0 := XOR_w (x0 s) w\<rparr>)"
  "xor_pair (array s) 2 (w2 w) = array (s\<lparr>x1 := XOR_w (x1 s) w\<rparr>)"
  "xor_pair (array s) 4 (w2 w) = array (s\<lparr>x2 := XOR_w (x2 s) w\<rparr>)"
  "xor_pair (array s) 6 (w2 w) = array (s\<lparr>x3 := XOR_w (x3 s) w\<rparr>)"
  "xor_pair (array s) 8 (w2 w) = array (s\<lparr>x4 := XOR_w (x4 s) w\<rparr>)"
  by (simp_all add: xor_pair_def array_def w2_def halves_simps Let_def)

lemma array_pairs:
  "(array s ! 0, array s ! 1) = w2 (x0 s)" "(array s ! 6, array s ! 7) = w2 (x3 s)" "(array s ! 8, array s ! 9) = w2 (x4 s)"
  by (simp_all add: array_def w2_def)

lemma constants_w2: "(PAD0o, PAD0e) = w2 (PAD 0)" "(0, 1) = w2 (WORD_T 1)"
  "(ASCON_128_IV_0, ASCON_128_IV_1) = w2 ASCON_128_IV"
  by (simp_all add: PAD0o_def PAD0e_def PAD_def WORD_T_def w2_def ASCON_128_IV_0_def ASCON_128_IV_1_def ASCON_128_IV_def)

section \<open>The cipher\<close>

lemma length_4: "length xs = 4 \<Longrightarrow> \<exists>a b c d. xs = [a, b, c, d]"
  by (auto simp: numeral_eq_Suc length_Suc_conv)

lemma le_bytes_not_Nil [simp]: "le_bytes w \<noteq> []"
  by (simp add: le_bytes_def)

lemma LOAD_words:
  "LOAD (le_bytes a @ le_bytes b @ r) 0 8 = Inr (wpad (le_bytes a @ le_bytes b))"
  "LOAD (le_bytes a @ le_bytes b @ le_bytes c @ le_bytes d) 8 8 = Inr (wpad (le_bytes c @ le_bytes d))"
  by (simp_all add: LOAD_eq)

lemma ascon_aeadinit_struc_eq:
  assumes "length npub = 4" "length k = 4" "ascon_aeadinit (bytes_of_words npub) (bytes_of_words k) = Inr s"
  shows "ascon_aeadinit_struc npub k = array s"
proof -
  obtain n0 n1 n2 n3 where ln: "npub = [n0, n1, n2, n3]" using assms(1) length_4 by blast
  obtain k0 k1 k2 k3 where lk: "k = [k0, k1, k2, k3]" using assms(2) length_4 by blast
  note l = ln lk
  let ?N0 = "wpad (le_bytes n0 @ le_bytes n1)" and ?N1 = "wpad (le_bytes n2 @ le_bytes n3)"
  let ?K0 = "wpad (le_bytes k0 @ le_bytes k1)" and ?K1 = "wpad (le_bytes k2 @ le_bytes k3)"
  let ?s = "\<lparr>x0 = ASCON_128_IV, x1 = ?K0, x2 = ?K1, x3 = ?N0, x4 = ?N1\<rparr>"
  have "array ?s = [ASCON_128_IV_0, ASCON_128_IV_1, wo ?K0, we ?K0, wo ?K1, we ?K1, wo ?N0, we ?N0, wo ?N1, we ?N1]"
    using constants_w2(3) by (simp add: array_def w2_def)
  then have "ascon_aeadinit_struc npub k = xor_pair (xor_pair (P12_struc (array ?s)) 6 (w2 ?K0)) 8 (w2 ?K1)"
    unfolding l by (simp add: ascon_aeadinit_struc_def LOAD_struc_eq Let_def w2_def)
  moreover have "s = (let s = P ?s 12; s = s\<lparr>x3 := XOR_w (x3 s) ?K0\<rparr> in s\<lparr>x4 := XOR_w (x4 s) ?K1\<rparr>)"
    using assms(3) unfolding l
    by (simp add: ascon_aeadinit_def ascon_loadkey_def KINIT_def LOAD_words PINIT_def Let_def)
  ultimately show ?thesis by (simp add: P12_struc_eq xor_pair_array Let_def)
qed

lemma ascon_final_struc_eq:
  assumes "length k = 4" "ascon_final s (bytes_of_words k) = Inr t"
  shows "ascon_final_struc (array s) k = array t"
proof -
  obtain k0 k1 k2 k3 where l: "k = [k0, k1, k2, k3]" using assms(1) length_4 by blast
  show ?thesis using assms(2) unfolding l
    by (auto simp: ascon_final_def ascon_final_struc_def ascon_loadkey_def KINIT_def LOAD_words LOAD_struc_eq
        P12_struc_eq xor_pair_array Let_def)
qed

lemma even_upto_4: "filter even [0..<4] = [0, 2 :: nat]"
  by (simp add: upt_rec)

lemma ascon_adata_struc_eq:
  assumes "length ad = 4"
  shows "ascon_adata_struc (array s) ad 4 = array (adata_state s (bytes_of_words ad))"
proof -
  obtain a0 a1 a2 a3 where l: "ad = [a0, a1, a2, a3]" using assms length_4 by blast
  show ?thesis unfolding l
    by (simp add: ascon_adata_struc_def adata_state_def adata_pure.simps even_upto_4 LOAD_struc_eq P6_struc_eq xor_pair_array
        constants_w2 Let_def)
qed

lemma NOTZERO_struc_eq:
  "NOTZERO_struc (wo (XOR_w a b)) (we (XOR_w a b)) (wo (XOR_w c d)) (we (XOR_w c d)) = (if a = b \<and> c = d then 0 else -1)"
proof -
  let ?r = "(we a XOR we b) OR (wo a XOR wo b) OR (we c XOR we d) OR (wo c XOR wo d)"
  let ?s = "?r OR drop_bit 16 ?r" let ?v = "(?s OR drop_bit 8 ?s) AND mask 8"
  have m: "(0xff :: u32) = mask 8" by (simp add: mask_eq_exp_minus_1)
  have "?v = 0 \<longleftrightarrow> a = b \<and> c = d" unfolding low_byte_zero by (auto simp: or_eq_0_iff)
  moreover have "(drop_bit 8 (v - 1) AND 1) - 1 = (if v = 0 then 0 else -1 :: u32)" if "v = w AND mask 8" for v w :: u32
  proof (cases "v = 0")
    case False
    have "uint v < 256"
      unfolding that by (simp add: take_bit_eq_mask [symmetric] take_bit_eq_mod uint_mod)
    moreover have "0 < uint v" using False uint_0_iff [of v] uint_ge_0 [of v] by linarith
    ultimately have "uint (v - 1) < 256" using uint_minus_simple_alt [of 1 v] by (simp add: word_le_def)
    then have "uint (drop_bit 8 (v - 1)) = 0"
      by (simp add: drop_bit_eq_div uint_div_distrib div_pos_pos_trivial)
    then have "drop_bit 8 (v - 1) = 0" by (simp only: uint_0_iff)
    with False show ?thesis by simp
  qed (simp add: and_one_eq mask_eq_exp_minus_1)
  ultimately show ?thesis by (simp add: NOTZERO_struc_def halves_simps Let_def m)
qed

lemma STORE_struc_bytes: "le_bytes (fst (STORE_struc (w2 w))) @ le_bytes (snd (STORE_struc (w2 w))) = wbytes w"
  using STORE_struc_eq [of w] by (metis prod.collapse)

lemma ascon_encrypt_struc_eq:
  assumes "length m = 4" "length c = 8" "enc_pure s (bytes_of_words m) = (t, x)"
  shows "\<exists>c'. ascon_encrypt_struc (array s) c m 4 = (array t, c' @ drop 4 c) \<and> bytes_of_words c' = x \<and> length c' = 4"
proof -
  obtain m0 m1 m2 m3 where l: "m = [m0, m1, m2, m3]" using assms(1) length_4 by blast
  obtain c0 c1 c2 c3 r where c: "c = [c0, c1, c2, c3] @ r"
    using assms(2) by (auto simp: numeral_eq_Suc length_Suc_conv)
  let ?w0 = "XOR_w (x0 s) (wpad (le_bytes m0 @ le_bytes m1))"
  let ?s1 = "P (s\<lparr>x0 := ?w0\<rparr>) 6"
  let ?w1 = "XOR_w (x0 ?s1) (wpad (le_bytes m2 @ le_bytes m3))"
  let ?s2 = "P (?s1\<lparr>x0 := ?w1\<rparr>) 6"
  let ?t0 = "STORE_struc (w2 ?w0)" and ?t1 = "STORE_struc (w2 ?w1)"
  have p: "t = ?s2\<lparr>x0 := XOR_w (x0 ?s2) (PAD 0)\<rparr>" "x = wbytes ?w0 @ wbytes ?w1"
    using assms(3) unfolding l by (simp_all add: enc_pure.simps Let_def del: wbytes_xor)
  have "ascon_encrypt_struc (array s) c m 4 = (array t, [fst ?t0, snd ?t0, fst ?t1, snd ?t1] @ drop 4 c)"
    unfolding l c p
    by (simp add: ascon_encrypt_struc_def even_upto_4 LOAD_struc_eq P6_struc_eq xor_pair_array array_pairs
        array_pairs [unfolded One_nat_def] constants_w2 Let_def)
  moreover have "bytes_of_words [fst ?t0, snd ?t0, fst ?t1, snd ?t1] = x"
    unfolding p(2) using STORE_struc_bytes [of ?w0] STORE_struc_bytes [of ?w1] by (simp del: wbytes_xor)
  ultimately show ?thesis by (intro exI [of _ "[fst ?t0, snd ?t0, fst ?t1, snd ?t1]"]) simp
qed

lemma ascon_decrypt_struc_eq:
  assumes "length c = 8" "length m = 4" "dec_pure s (take 16 (bytes_of_words c)) = (t, x)"
  shows "\<exists>m'. ascon_decrypt_struc (array s) m c 4 = (array t, m') \<and> bytes_of_words m' = x"
proof -
  obtain c0 c1 c2 c3 r where l: "c = [c0, c1, c2, c3] @ r" using assms(1) by (auto simp: numeral_eq_Suc length_Suc_conv)
  obtain m0 m1 m2 m3 where m: "m = [m0, m1, m2, m3]" using assms(2) length_4 by blast
  let ?c0 = "wpad (le_bytes c0 @ le_bytes c1)" and ?c1 = "wpad (le_bytes c2 @ le_bytes c3)"
  let ?w0 = "XOR_w (x0 s) ?c0"
  let ?s1 = "P (s\<lparr>x0 := ?c0\<rparr>) 6"
  let ?w1 = "XOR_w (x0 ?s1) ?c1"
  let ?s2 = "P (?s1\<lparr>x0 := ?c1\<rparr>) 6"
  let ?t0 = "STORE_struc (w2 ?w0)" and ?t1 = "STORE_struc (w2 ?w1)"
  have upd: "(array u)[0 := fst (w2 w), Suc 0 := snd (w2 w)] = array (u\<lparr>x0 := w\<rparr>)" for u w
    by (simp add: array_def w2_def)
  have p: "t = ?s2\<lparr>x0 := XOR_w (x0 ?s2) (PAD 0)\<rparr>" "x = wbytes ?w0 @ wbytes ?w1"
    using assms(3) unfolding l by (simp_all add: dec_pure.simps Let_def del: wbytes_xor)
  have "ascon_decrypt_struc (array s) m c 4 = (array t, [fst ?t0, snd ?t0, fst ?t1, snd ?t1])"
    unfolding l m p
    by (simp add: ascon_decrypt_struc_def even_upto_4 LOAD_struc_eq xor_pair_array array_pairs [unfolded One_nat_def]
        upd P6_struc_eq constants_w2 Let_def)
  moreover have "bytes_of_words [fst ?t0, snd ?t0, fst ?t1, snd ?t1] = x"
    unfolding p(2) using STORE_struc_bytes [of ?w0] STORE_struc_bytes [of ?w1] by (simp del: wbytes_xor)
  ultimately show ?thesis by (intro exI [of _ "[fst ?t0, snd ?t0, fst ?t1, snd ?t1]"]) simp
qed

lemma ascon_start_struc_eq:
  assumes "length npub = 4" "length k = 4" "length ad = 4"
  shows "ascon_adata_struc (ascon_aeadinit_struc npub k) ad 4 =
    array (ascon_start (bytes_of_words ad) (bytes_of_words npub) (bytes_of_words k))"
proof -
  obtain s where s: "ascon_aeadinit (bytes_of_words npub) (bytes_of_words k) = Inr s"
    using ascon_aeadinit_total [of "bytes_of_words npub" "bytes_of_words k"] assms by auto
  show ?thesis
    using ascon_aeadinit_struc_eq [OF assms(1,2) s] by (simp add: ascon_adata_struc_eq [OF assms(3)] ascon_start_def s)
qed

section \<open>The restructured program computes what the reference program computes\<close>

text \<open>
  C30: On a message and associated data of 16 bytes the restructured encryption writes the
  words of what the reference program writes, whatever the output buffers held before.
\<close>

theorem ascon_encrypt_struc_refines:
  assumes "length m = 4" "length ad = 4" "length npub = 4" "length k = 4" "length c = 8" "length b = 32"
  shows "ascon_aead_encrypt b (bytes_of_words m) 16 (bytes_of_words ad) 16 (bytes_of_words npub) (bytes_of_words k) =
    Inr (bytes_of_words (ascon_aead_encrypt_struc c m ad npub k))"
proof -
  let ?k = "bytes_of_words k"
  let ?s = "ascon_start (bytes_of_words ad) (bytes_of_words npub) ?k"
  obtain t x where e: "enc_pure ?s (bytes_of_words m) = (t, x)" by force
  obtain c' where c': "ascon_encrypt_struc (array ?s) c m 4 = (array t, c' @ drop 4 c)" "bytes_of_words c' = x" "length c' = 4"
    using ascon_encrypt_struc_eq [OF assms(1,5) e] by blast
  obtain u where u: "ascon_final t ?k = Inr u" using ascon_final_total [of ?k t] assms(4) by auto
  obtain d0 d1 d2 d3 where d: "drop 4 c = [d0, d1, d2, d3]" using assms(5) length_4 [of "drop 4 c"] by auto
  let ?t3 = "STORE_struc (w2 (x3 u))" and ?t4 = "STORE_struc (w2 (x4 u))"
  have "ascon_aead_encrypt_struc c m ad npub k = c' @ [fst ?t3, snd ?t3, fst ?t4, snd ?t4]"
    using c'(3) ascon_final_struc_eq [OF assms(4) u]
    by (simp add: ascon_aead_encrypt_struc_def ascon_start_struc_eq [OF assms(3,4,2)] c'(1) d array_pairs
        list_update_append Let_def)
  moreover have "bytes_of_words [fst ?t3, snd ?t3, fst ?t4, snd ?t4] = wbytes (x3 u) @ wbytes (x4 u)"
    using STORE_struc_bytes [of "x3 u"] STORE_struc_bytes [of "x4 u"] by simp
  ultimately have "bytes_of_words (ascon_aead_encrypt_struc c m ad npub k) = x @ wbytes (x3 u) @ wbytes (x4 u)"
    using c'(2) by simp
  also have "\<dots> = ascon_pure (bytes_of_words m) (bytes_of_words ad) (bytes_of_words npub) ?k"
    by (simp add: ascon_pure_def e ascon_tag_def u)
  finally show ?thesis using assms by (simp add: ascon_aead_encrypt_eq whole_def)
qed

theorem ascon_encrypt_struc_refines_witness:
  "ascon_aead_encrypt (replicate 32 9) (bytes_of_words [1, 2, 3, 4]) 16 (bytes_of_words [5, 6, 7, 8]) 16
     (bytes_of_words [9, 10, 11, 12]) (bytes_of_words [13, 14, 15, 16]) =
    Inr (bytes_of_words (ascon_aead_encrypt_struc (replicate 8 0) [1, 2, 3, 4] [5, 6, 7, 8] [9, 10, 11, 12] [13, 14, 15, 16]))"
  by (rule ascon_encrypt_struc_refines) simp_all

text \<open>
  C31: On a ciphertext of 16 bytes with its tag the restructured decryption returns what the
  reference program returns and writes the words of the same plaintext.
\<close>

theorem ascon_decrypt_struc_refines:
  assumes "length c = 8" "length ad = 4" "length npub = 4" "length k = 4" "length m = 4" "length b = 16"
  shows "ascon_aead_decrypt b (bytes_of_words c) 32 (bytes_of_words ad) 16 (bytes_of_words npub) (bytes_of_words k) =
    (case ascon_aead_decrypt_struc m c ad npub k of (r, m') \<Rightarrow> Inr (r, bytes_of_words m'))"
proof -
  let ?k = "bytes_of_words k" and ?c = "bytes_of_words c"
  let ?s = "ascon_start (bytes_of_words ad) (bytes_of_words npub) ?k"
  obtain t x where e: "dec_pure ?s (take 16 ?c) = (t, x)" by force
  obtain m' where m': "ascon_decrypt_struc (array ?s) m c 4 = (array t, m')" "bytes_of_words m' = x"
    using ascon_decrypt_struc_eq [OF assms(1,5) e] by blast
  obtain u where u: "ascon_final t ?k = Inr u" using ascon_final_total [of ?k t] assms(4) by auto
  obtain c0 c1 c2 c3 c4 c5 c6 c7 where l: "c = [c0, c1, c2, c3, c4, c5, c6, c7]"
    using assms(1) by (auto simp: numeral_eq_Suc length_Suc_conv)
  let ?t3 = "wpad (le_bytes c4 @ le_bytes c5)" and ?t4 = "wpad (le_bytes c6 @ le_bytes c7)"
  have v: "LOADBYTES ?c 16 8 = Inr ?t3" "LOADBYTES ?c 24 8 = Inr ?t4"
    unfolding l by (simp_all add: LOADBYTES_8)
  have cn: "c ! 4 = c4" "c ! 5 = c5" "c ! 6 = c6" "c ! 7 = c7" by (simp_all add: l)
  have an: "array s ! 6 = wo (x3 s)" "array s ! 7 = we (x3 s)" "array s ! 8 = wo (x4 s)" "array s ! 9 = we (x4 s)" for s
    by (simp_all add: array_def)
  have "ascon_aead_decrypt_struc m c ad npub k = (if x3 u = ?t3 \<and> x4 u = ?t4 then 0 else -1, m')"
    using ascon_final_struc_eq [OF assms(4) u] NOTZERO_struc_eq [of "x3 u" ?t3 "x4 u" ?t4]
    by (simp add: ascon_aead_decrypt_struc_def ascon_start_struc_eq [OF assms(3,4,2)] m'(1) cn an LOAD_struc_eq xor_pair_array
        Let_def)
  moreover obtain g where "ascon_decrypt ?s b ?c 16 = Inr (t, x @ g @ drop 16 b)" "length g = 0"
    using ascon_decrypt_eq [of 16 ?c b ?s] e assms by (auto simp: whole_def)
  ultimately show ?thesis
    using assms u v m'(2)
    by (simp add: ascon_aead_decrypt_def CRYPTO_ABYTES_def ascon_start_eq whole_def NOTZERO_eq Let_def)
qed

theorem ascon_decrypt_struc_refines_witness:
  "ascon_aead_decrypt (replicate 16 9) (bytes_of_words [1, 2, 3, 4, 5, 6, 7, 8]) 32 (bytes_of_words [5, 6, 7, 8]) 16
     (bytes_of_words [9, 10, 11, 12]) (bytes_of_words [13, 14, 15, 16]) =
    (case ascon_aead_decrypt_struc (replicate 4 0) [1, 2, 3, 4, 5, 6, 7, 8] [5, 6, 7, 8] [9, 10, 11, 12] [13, 14, 15, 16] of
      (r, m') \<Rightarrow> Inr (r, bytes_of_words m'))"
  by (rule ascon_decrypt_struc_refines) simp_all

end
