(* ===== verification/TinyJambu.thy ===== *)
theory TinyJambu
  imports AEAD_Interface
begin

text \<open>
  The two TinyJAMBU programs: the reference code
  \<^verbatim>\<open>programs/TinyJambu/tinyjambu128v2_orig.c\<close> on byte arrays of any length, and the
  restructured \<^verbatim>\<open>tinyjambu128v2_struc.c\<close> for the compiler, on word arrays and a fixed
  length of 16 bytes. The reference code is shown to be an authenticated cipher and its word
  step to be 32 steps of the shift register; the restructured code computes the same.
\<close>

section \<open>The reference code\<close>

type_synonym jstate = "u32 list"

definition FrameBitsIV :: u32 where "FrameBitsIV = 0x10"
definition FrameBitsAD :: u32 where "FrameBitsAD = 0x30"
definition FrameBitsPC :: u32 where "FrameBitsPC = 0x50"
definition FrameBitsFinalization :: u32 where "FrameBitsFinalization = 0x70"
definition NROUND1 :: nat where "NROUND1 = 128 * 5"
definition NROUND2 :: nat where "NROUND2 = 128 * 8"

text \<open>\<^verbatim>\<open>state[i] ^= w\<close>\<close>

definition xor_at :: "nat \<Rightarrow> u32 \<Rightarrow> jstate \<Rightarrow> jstate" where
  "xor_at i w s = s[i := s ! i XOR w]"

definition feedback :: "jstate \<Rightarrow> u32" where
  "feedback s =
     (let t1 = drop_bit 15 (s ! 1) OR push_bit 17 (s ! 2);
          t2 = drop_bit 6 (s ! 2) OR push_bit 26 (s ! 3);
          t3 = drop_bit 21 (s ! 2) OR push_bit 11 (s ! 3);
          t4 = drop_bit 27 (s ! 2) OR push_bit 5 (s ! 3)
      in s ! 0 XOR t1 XOR NOT (t2 AND t3) XOR t4)"

text \<open>The body of the loop; \<^verbatim>\<open>i & 3\<close> is the remainder modulo 4.\<close>

definition update_step :: "u8 list \<Rightarrow> nat \<Rightarrow> jstate \<Rightarrow> jstate" where
  "update_step key i s = [s ! 1, s ! 2, s ! 3, feedback s XOR words_of_bytes key ! (i mod 4)]"

definition state_update :: "jstate \<Rightarrow> u8 list \<Rightarrow> nat \<Rightarrow> jstate" where
  "state_update s key number_of_steps = fold (update_step key) [0..<number_of_steps div 32] s"

definition initialization :: "u8 list \<Rightarrow> u8 list \<Rightarrow> jstate" where
  "initialization key iv =
     fold (\<lambda>i s. xor_at 3 (words_of_bytes iv ! i) (state_update (xor_at 1 FrameBitsIV s) key NROUND1))
       [0..<3] (state_update (replicate 4 0) key NROUND2)"

text \<open>\<^verbatim>\<open>((unsigned char *)state)[off + j] ^= bs[j]\<close> for all the bytes \<open>bs\<close>.\<close>

definition xor_bytes_at :: "nat \<Rightarrow> u8 list \<Rightarrow> jstate \<Rightarrow> jstate" where
  "xor_bytes_at off bs s =
     words_of_bytes (fold (\<lambda>j t. t[off + j := t ! (off + j) XOR bs ! j]) [0..<length bs] (bytes_of_words s))"

text \<open>The bytes behind the last whole word.\<close>

definition tail_bytes :: "u8 list \<Rightarrow> u8 list" where
  "tail_bytes bs = drop (4 * (length bs div 4)) bs"

definition process_ad :: "u8 list \<Rightarrow> u8 list \<Rightarrow> jstate \<Rightarrow> jstate" where
  "process_ad k ad s =
     (let s = fold (\<lambda>i s. xor_at 3 (words_of_bytes ad ! i) (state_update (xor_at 1 FrameBitsAD s) k NROUND1))
                [0..<length ad div 4] s
      in if 0 < length ad mod 4
         then xor_at 1 (of_nat (length ad mod 4))
                (xor_bytes_at 12 (tail_bytes ad) (state_update (xor_at 1 FrameBitsAD s) k NROUND1))
         else s)"

text \<open>The loops over whole words: the state and the words written.\<close>

definition enc_step :: "u8 list \<Rightarrow> u32 \<Rightarrow> jstate \<times> u32 list \<Rightarrow> jstate \<times> u32 list" where
  "enc_step k w = (\<lambda>(s, c).
     let s = xor_at 3 w (state_update (xor_at 1 FrameBitsPC s) k NROUND2) in (s, c @ [s ! 2 XOR w]))"

definition dec_step :: "u8 list \<Rightarrow> u32 \<Rightarrow> jstate \<times> u32 list \<Rightarrow> jstate \<times> u32 list" where
  "dec_step k w = (\<lambda>(s, m).
     let s = state_update (xor_at 1 FrameBitsPC s) k NROUND2; x = s ! 2 XOR w
     in (xor_at 3 x s, m @ [x]))"

text \<open>The remaining bytes. The bytes of word 2 are not changed by the loops, which write word 3.\<close>

definition enc_tail :: "u8 list \<Rightarrow> u8 list \<Rightarrow> jstate \<Rightarrow> jstate \<times> u8 list" where
  "enc_tail k bs s =
     (if bs \<noteq> [] then
        let s = state_update (xor_at 1 FrameBitsPC s) k NROUND2;
            c = map (\<lambda>j. bytes_of_words s ! (8 + j) XOR bs ! j) [0..<length bs]
        in (xor_at 1 (of_nat (length bs)) (xor_bytes_at 12 bs s), c)
      else (s, []))"

definition dec_tail :: "u8 list \<Rightarrow> u8 list \<Rightarrow> jstate \<Rightarrow> jstate \<times> u8 list" where
  "dec_tail k bs s =
     (if bs \<noteq> [] then
        let s = state_update (xor_at 1 FrameBitsPC s) k NROUND2;
            m = map (\<lambda>j. bs ! j XOR bytes_of_words s ! (8 + j)) [0..<length bs]
        in (xor_at 1 (of_nat (length bs)) (xor_bytes_at 12 m s), m)
      else (s, []))"

text \<open>The finalization: the eight bytes of the tag.\<close>

definition finalization :: "u8 list \<Rightarrow> jstate \<Rightarrow> u8 list" where
  "finalization k s =
     (let s1 = state_update (xor_at 1 FrameBitsFinalization s) k NROUND2;
          s2 = state_update (xor_at 1 FrameBitsFinalization s1) k NROUND1
      in bytes_of_words [s1 ! 2, s2 ! 2])"

definition jambu_encrypt :: "u8 list \<Rightarrow> u8 list \<Rightarrow> u8 list \<Rightarrow> u8 list \<Rightarrow> u8 list" where
  "jambu_encrypt m ad npub k =
     (let s = process_ad k ad (initialization k npub);
          (s, c) = fold (enc_step k) (words_of_bytes m) (s, []);
          (s, c') = enc_tail k (tail_bytes m) s
      in bytes_of_words c @ c' @ finalization k s)"

text \<open>
  With \<^verbatim>\<open>clen < 8\<close> the length \<^verbatim>\<open>clen - 8\<close> wraps around and the loop leaves the ciphertext.
\<close>

definition jambu_decrypt :: "u8 list \<Rightarrow> u8 list \<Rightarrow> u8 list \<Rightarrow> u8 list \<Rightarrow> (int \<times> u8 list) res" where
  "jambu_decrypt c ad npub k =
     (if length c < 8 then Inl OutOfBounds
      else
        let mlen = length c - 8; body = take mlen c;
            s = process_ad k ad (initialization k npub);
            (s, m) = fold (dec_step k) (words_of_bytes body) (s, []);
            (s, m') = dec_tail k (tail_bytes body) s;
            mac = finalization k s;
            chk = fold (\<lambda>j d. d OR (mac ! j XOR c ! (mlen + j))) [0..<8] (0 :: u8)
        in Inr (if chk = 0 then 0 else -1, bytes_of_words m @ m'))"

section \<open>Lemmas\<close>

lemma length_update_step [simp]: "length (update_step k i s) = 4"
  by (simp add: update_step_def)

lemma length_state_update [simp]: "length s = 4 \<Longrightarrow> length (state_update s k n) = 4"
  unfolding state_update_def by (rule fold_invariant_set) auto

lemma length_xor_at [simp]: "length (xor_at i w s) = length s"
  by (simp add: xor_at_def)

lemma length_fold_update: "length (fold (\<lambda>j t. t[h j := g j t]) js t) = length t"
  by (induction js arbitrary: t) auto

lemma length_xor_bytes_at [simp]: "length (xor_bytes_at off bs s) = length s"
  by (simp add: xor_bytes_at_def length_fold_update)

lemma length_initialization [simp]: "length (initialization k iv) = 4"
  unfolding initialization_def by (rule fold_invariant_set [where P = "\<lambda>s. length s = 4"]) auto

lemma length_process_ad [simp]: "length s = 4 \<Longrightarrow> length (process_ad k ad s) = 4"
proof -
  assume s: "length s = 4"
  have "length (fold (\<lambda>i s. xor_at 3 (words_of_bytes ad ! i) (state_update (xor_at 1 FrameBitsAD s) k NROUND1))
      [0..<length ad div 4] s) = 4"
    by (rule fold_invariant_set) (use s in auto)
  then show ?thesis by (simp add: process_ad_def Let_def)
qed

lemma length_finalization [simp]: "length (finalization k s) = 8"
  by (simp add: finalization_def Let_def)

lemma xor_at_nth: "length s = 4 \<Longrightarrow> xor_at 3 w s ! 2 = s ! 2"
  by (simp add: xor_at_def)

text \<open>One word: decryption goes through the states of encryption.\<close>

lemma dec_enc_step:
  assumes "length s = 4"
  shows "\<exists>t x. enc_step k w (s, c) = (t, c @ [x]) \<and> dec_step k x (s, m) = (t, m @ [w]) \<and> length t = 4"
  using assms by (simp add: enc_step_def dec_step_def Let_def xor_at_nth xor.assoc)

lemma enc_dec_step:
  assumes "length s = 4"
  shows "\<exists>t x. dec_step k w (s, c) = (t, c @ [x]) \<and> enc_step k x (s, m) = (t, m @ [w]) \<and> length t = 4"
  using assms by (simp add: enc_step_def dec_step_def Let_def xor_at_nth xor_ac)

text \<open>Two loops whose bodies undo each other from the same state do so as a whole.\<close>

lemma inverse_loops:
  assumes "\<And>s w a b. length s = 4 \<Longrightarrow> \<exists>t x. f w (s, a) = (t, a @ [x]) \<and> g x (s, b) = (t, b @ [w]) \<and> length t = (4 :: nat)"
    and "length s = 4"
  shows "\<exists>t xs. fold f ws (s, a) = (t, a @ xs) \<and> fold g xs (s, b) = (t, b @ ws) \<and> length t = 4 \<and>
           length xs = length ws"
  using assms(2)
proof (induction ws arbitrary: s a b)
  case (Cons w ws)
  obtain t x where t: "f w (s, a) = (t, a @ [x])" "g x (s, b) = (t, b @ [w])" "length t = 4"
    using assms(1) [OF Cons.prems] by blast
  obtain u xs where "fold f ws (t, a @ [x]) = (u, (a @ [x]) @ xs)" "fold g xs (t, b @ [w]) = (u, (b @ [w]) @ ws)"
      "length u = 4" "length xs = length ws"
    using Cons.IH [OF t(3)] by blast
  then show ?case using t by (intro exI [of _ u] exI [of _ "x # xs"]) simp
qed simp

lemma dec_enc_tail: "\<exists>t c. enc_tail k bs s = (t, c) \<and> dec_tail k c s = (t, bs) \<and> length c = length bs"
proof (cases "bs = []")
  case False
  let ?s = "state_update (xor_at 1 FrameBitsPC s) k NROUND2"
  let ?c = "map (\<lambda>j. bytes_of_words ?s ! (8 + j) XOR bs ! j) [0..<length bs]"
  have "map (\<lambda>j. ?c ! j XOR bytes_of_words ?s ! (8 + j)) [0..<length ?c] = bs"
    by (rule nth_equalityI) (simp_all add: xor_ac)
  with False show ?thesis by (auto simp: enc_tail_def dec_tail_def Let_def)
qed (simp add: enc_tail_def dec_tail_def)

lemma enc_dec_tail: "\<exists>t m. dec_tail k bs s = (t, m) \<and> enc_tail k m s = (t, bs) \<and> length m = length bs"
proof (cases "bs = []")
  case False
  let ?s = "state_update (xor_at 1 FrameBitsPC s) k NROUND2"
  let ?m = "map (\<lambda>j. bs ! j XOR bytes_of_words ?s ! (8 + j)) [0..<length bs]"
  have "map (\<lambda>j. bytes_of_words ?s ! (8 + j) XOR ?m ! j) [0..<length ?m] = bs"
    by (rule nth_equalityI) (simp_all add: xor_ac)
  with False show ?thesis by (auto simp: enc_tail_def dec_tail_def Let_def)
qed (simp add: enc_tail_def dec_tail_def)

text \<open>The whole words and the remaining bytes of a text.\<close>

lemma words_of_bytes_append_tail:
  "length t < 4 \<Longrightarrow> words_of_bytes (bytes_of_words ws @ t) = ws"
proof (induction ws)
  case Nil
  then show ?case by (cases t rule: words_of_bytes.cases) auto
qed simp

lemma tail_bytes_append: "length t < 4 \<Longrightarrow> tail_bytes (bytes_of_words ws @ t) = t"
  by (simp add: tail_bytes_def div_add1_eq)

lemma length_tail_bytes: "length (tail_bytes bs) = length bs mod 4"
  by (simp add: tail_bytes_def minus_mult_div_eq_mod)

lemma split_bytes: "bytes_of_words (words_of_bytes bs) @ tail_bytes bs = bs"
proof -
  have "bytes_of_words (words_of_bytes bs) = take (4 * (length bs div 4)) bs"
    using bytes_of_words_of_bytes [of "take (4 * (length bs div 4)) bs"]
    by (simp add: words_of_bytes_take min_absorb2)
  then show ?thesis by (simp add: tail_bytes_def)
qed

lemma tag_check:
  assumes "length c = n + 8" "length mac = 8"
  shows "fold (\<lambda>j d. d OR (mac ! j XOR c ! (n + j))) [0..<8] (0 :: u8) = 0 \<longleftrightarrow> drop n c = mac"
  using assms by (auto simp: fold_or_eq_0 list_eq_iff_nth_eq)

section \<open>The contract\<close>

lemma jambu_dec_enc: "jambu_decrypt (jambu_encrypt m ad n k) ad n k = Inr (0, m)"
proof -
  let ?s = "process_ad k ad (initialization k n)"
  obtain t xs where t: "fold (enc_step k) (words_of_bytes m) (?s, []) = (t, [] @ xs)"
      "fold (dec_step k) xs (?s, []) = (t, [] @ words_of_bytes m)" "length t = 4" "length xs = length m div 4"
    using inverse_loops [of "enc_step k" "dec_step k" ?s "words_of_bytes m" "[]" "[]", OF dec_enc_step] by fastforce
  obtain u c where u: "enc_tail k (tail_bytes m) t = (u, c)" "dec_tail k c t = (u, tail_bytes m)"
      "length c = length m mod 4"
    using dec_enc_tail by (metis length_tail_bytes)
  have small: "length c < 4" using u(3) by simp
  have e: "jambu_encrypt m ad n k = bytes_of_words xs @ c @ finalization k u"
    using t u by (simp add: jambu_encrypt_def Let_def)
  have "length xs * 4 + length c = length m" using t(4) u(3) by simp
  then show ?thesis
    unfolding jambu_decrypt_def e
    using t u by (simp add: Let_def words_of_bytes_append_tail [OF small] tail_bytes_append [OF small]
        tag_check split_bytes minus_mult_div_eq_mod)
qed

lemma jambu_enc_dec:
  assumes "jambu_decrypt c ad n k = Inr (0, m)"
  shows "jambu_encrypt m ad n k = c"
proof -
  let ?s = "process_ad k ad (initialization k n)" and ?b = "take (length c - 8) c"
  have len: "8 \<le> length c" using assms by (auto simp: jambu_decrypt_def split: if_splits)
  obtain t xs where t: "fold (dec_step k) (words_of_bytes ?b) (?s, []) = (t, [] @ xs)"
      "fold (enc_step k) xs (?s, []) = (t, [] @ words_of_bytes ?b)" "length t = 4"
    using inverse_loops [of "dec_step k" "enc_step k" ?s "words_of_bytes ?b" "[]" "[]", OF enc_dec_step] by fastforce
  obtain u p where u: "dec_tail k (tail_bytes ?b) t = (u, p)" "enc_tail k p t = (u, tail_bytes ?b)"
      "length p = length ?b mod 4"
    using enc_dec_tail by (metis length_tail_bytes)
  have small: "length p < 4" using u(3) by simp
  have m: "m = bytes_of_words xs @ p" "drop (length c - 8) c = finalization k u"
    using assms len t(1) u(1) tag_check [of c "length c - 8" "finalization k u"]
    by (auto simp: jambu_decrypt_def Let_def split: if_splits)
  have "jambu_encrypt m ad n k = bytes_of_words (words_of_bytes ?b) @ tail_bytes ?b @ finalization k u"
    using t u by (simp add: jambu_encrypt_def Let_def m(1) words_of_bytes_append_tail [OF small] tail_bytes_append [OF small])
  also have "\<dots> = ?b @ finalization k u" by (simp flip: append_assoc add: split_bytes)
  also have "\<dots> = c" by (simp flip: m(2))
  finally show ?thesis .
qed

lemma length_jambu_encrypt: "length (jambu_encrypt m ad n k) = length m + 8"
proof -
  let ?s = "process_ad k ad (initialization k n)"
  obtain t xs where t: "fold (enc_step k) (words_of_bytes m) (?s, []) = (t, xs)" "length xs = length m div 4"
    using inverse_loops [of "enc_step k" "dec_step k" ?s "words_of_bytes m" "[]" "[]", OF dec_enc_step] by fastforce
  obtain u c where u: "enc_tail k (tail_bytes m) t = (u, c)" "length c = length m mod 4"
    using dec_enc_tail by (metis length_tail_bytes)
  show ?thesis using t u by (simp add: jambu_encrypt_def Let_def)
qed

interpretation jambu: aead jambu_encrypt jambu_decrypt "\<lambda>n k. length n = 12 \<and> length k = 16" 8
  by unfold_locales (simp_all add: jambu_dec_enc jambu_enc_dec length_jambu_encrypt)

section \<open>The shift register\<close>

text \<open>
  The permutation as the specification of the cipher gives it, one bit at a time: a register
  of 128 bits, bit 0 leaves it, and bit \<open>i mod 128\<close> of the key enters the feedback of step \<open>i\<close>.
\<close>

definition key_bit :: "u8 list \<Rightarrow> nat \<Rightarrow> bool" where
  "key_bit key i = bit (key ! (i mod 128 div 8)) (i mod 8)"

definition nlfsr_step :: "u8 list \<Rightarrow> nat \<Rightarrow> bool list \<Rightarrow> bool list" where
  "nlfsr_step key i x =
     tl x @ [(x ! 0 \<noteq> x ! 47) \<noteq> (\<not> (x ! 70 \<and> x ! 85) \<noteq> (x ! 91 \<noteq> key_bit key i))]"

definition state_bits :: "jstate \<Rightarrow> bool list" where
  "state_bits s = map (\<lambda>i. bit (s ! (i div 32)) (i mod 32)) [0..<128]"

lemma key_bit_word:
  assumes "length key = 16" "j < 32"
  shows "key_bit key (32 * i + j) = bit (words_of_bytes key ! (i mod 4)) j"
proof -
  have "(32 * i + j) mod 128 = (32 * (i mod 4) + j) mod 128" 
    by (simp add: mult_mod_right mod_simps)
  moreover have "32 * (i mod 4) + j < 128" using assms(2) mod_less_divisor [of 4 i] by linarith
  moreover have "(32 * (i mod 4) + j) div 8 = 4 * (i mod 4) + j div 8"
    using div_mult_self3 [of 8 j "4 * (i mod 4)"] by (simp add: mult.commute add.commute)
  moreover have "(32 * i + j) mod 8 = j mod 8" using mod_mult_self2 [of j 8 "4 * i"] by (simp add: add.commute)
  ultimately show ?thesis using assms by (simp add: key_bit_def bit_words_of_bytes)
qed

lemma bit_feedback:
  assumes "length s = 4" "n < 32"
  shows "bit (feedback s) n =
    ((state_bits s ! n \<noteq> state_bits s ! (47 + n)) \<noteq>
     (\<not> (state_bits s ! (70 + n) \<and> state_bits s ! (85 + n)) \<noteq> state_bits s ! (91 + n)))"
proof -
  have sh: "state_bits s ! (32 * q + r + n) =
      (bit (drop_bit r (s ! q)) n \<or> bit (push_bit (32 - r) (s ! Suc q)) n)" if "r < 32" "q < 3" for q r
  proof (cases "r + n < 32")
    case True
    then have "(32 * q + r + n) div 32 = q" "(32 * q + r + n) mod 32 = r + n"
      using div_mult_self4 [of 32 q "r + n"] mod_mult_self4 [of 32 q "r + n"] by (simp_all add: add.assoc)
    with that assms(2) True show ?thesis by (auto simp: state_bits_def bit_simps add.commute)
  next
    case False
    then have "32 * q + r + n = 32 * Suc q + (r + n - 32)" "r + n - 32 < 32" using that assms(2) by simp_all
    then have "(32 * q + r + n) div 32 = Suc q" "(32 * q + r + n) mod 32 = r + n - 32"
      using div_mult_self4 [of 32 "Suc q" "r + n - 32"] mod_mult_self4 [of 32 "Suc q" "r + n - 32"]
      by (metis div_less add_0_right zero_neq_numeral, metis mod_less)
    moreover have "r + n - 32 = n - (32 - r)" using that by simp
    moreover have "\<not> bit (s ! q) (r + n)" using False by (auto dest: bit_imp_le_length)
    ultimately show ?thesis using that assms(2) False by (auto simp: state_bits_def bit_simps add.commute)
  qed
  have taps: "state_bits s ! n = bit (s ! 0) n"
      "state_bits s ! (47 + n) = (bit (drop_bit 15 (s ! 1)) n \<or> bit (push_bit 17 (s ! 2)) n)"
      "state_bits s ! (70 + n) = (bit (drop_bit 6 (s ! 2)) n \<or> bit (push_bit 26 (s ! 3)) n)"
      "state_bits s ! (85 + n) = (bit (drop_bit 21 (s ! 2)) n \<or> bit (push_bit 11 (s ! 3)) n)"
      "state_bits s ! (91 + n) = (bit (drop_bit 27 (s ! 2)) n \<or> bit (push_bit 5 (s ! 3)) n)"
    using sh [of 15 1] sh [of 6 2] sh [of 21 2] sh [of 27 2] assms(2)
    by (simp_all add: state_bits_def flip: numeral_2_eq_2 numeral_3_eq_3)
  show ?thesis
    unfolding taps feedback_def Let_def bit_xor_iff bit_or_iff bit_and_iff bit_not_iff using assms(2) by auto
qed

lemma nlfsr_word:
  assumes s: "length s = 4" and k: "length key = 16" and n: "n \<le> 32"
  shows "fold (nlfsr_step key) [32 * i..<32 * i + n] (state_bits s) =
    drop n (state_bits s) @ map (bit (update_step key i s ! 3)) [0..<n]"
  using n
proof (induction n)
  case (Suc n)
  let ?x = "state_bits s" and ?new = "map (bit (update_step key i s ! 3)) [0..<n]"
  have len: "length ?x = 128" by (simp add: state_bits_def)
  have at: "(drop n ?x @ ?new) ! j = ?x ! (j + n)" if "j \<le> 91" for j
  proof -
    have "j < 128 - n" using that Suc.prems by linarith
    with len show ?thesis by (simp add: nth_append add.commute)
  qed
  have "bit (update_step key i s ! 3) n = (bit (feedback s) n \<noteq> key_bit key (32 * i + n))"
    using k Suc.prems by (simp add: update_step_def key_bit_word bit_simps numeral_3_eq_3)
  then have "nlfsr_step key (32 * i + n) (drop n ?x @ ?new) =
      tl (drop n ?x @ ?new) @ [bit (update_step key i s ! 3) n]"
    using bit_feedback [OF s, of n] Suc.prems by (auto simp: nlfsr_step_def at)
  moreover have "tl (drop n ?x @ ?new) = drop (Suc n) ?x @ ?new"
    using len Suc.prems by (cases "drop n ?x") (simp_all add: drop_Suc flip: tl_drop)
  ultimately show ?case using Suc by simp
qed simp

lemma state_bits_update_step:
  assumes "length s = 4"
  shows "state_bits (update_step key i s) =
    drop 32 (state_bits s) @ map (bit (update_step key i s ! 3)) [0..<32]"
proof (rule nth_equalityI)
  fix j assume "j < length (state_bits (update_step key i s))"
  then have j: "j < 128" by (simp add: state_bits_def)
  then have "j div 32 \<in> {0, 1, 2, 3}" by auto
  moreover have sh: "(32 + j) div 32 = Suc (j div 32)" "(32 + j) mod 32 = j mod 32" by simp_all
  moreover have "j mod 32 = j - 96" if "96 \<le> j" using that j mod_mult_self4 [of 32 3 "j - 96"] by simp
  ultimately show "state_bits (update_step key i s) ! j =
      (drop 32 (state_bits s) @ map (bit (update_step key i s ! 3)) [0..<32]) ! j"
    using j sh by (auto simp: state_bits_def nth_append update_step_def numeral_3_eq_3 numeral_2_eq_2)
qed (simp add: state_bits_def)

lemma state_update_bits:
  assumes "length s = 4" "length key = 16"
  shows "state_bits (fold (update_step key) [0..<m] s) = fold (nlfsr_step key) [0..<32 * m] (state_bits s)"
proof (induction m)
  case (Suc m)
  let ?t = "fold (update_step key) [0..<m] s"
  have t: "length ?t = 4" by (rule fold_invariant_set) (use assms in auto)
  have "[0..<32 * Suc m] = [0..<32 * m] @ [32 * m..<32 * m + 32]"
    using upt_add_eq_append [of 0 "32 * m" 32] by (simp add: add.commute)
  then show ?case
    using Suc nlfsr_word [OF t assms(2), of 32 m] state_bits_update_step [OF t, of key m] by simp
qed simp

text \<open>
  C33: \<^verbatim>\<open>state_update\<close>, which computes 32 bits of feedback at once, is \<^verbatim>\<open>number_of_steps\<close>
  steps of the shift register of the specification, for every multiple of 32 (the code asks
  for 640 and 1024), every state and every key.
\<close>

theorem state_update_nlfsr:
  assumes "length s = 4" and "length key = 16" and "32 dvd number_of_steps"
  shows "state_bits (state_update s key number_of_steps) =
    fold (nlfsr_step key) [0..<number_of_steps] (state_bits s)"
  using state_update_bits [OF assms(1,2), of "number_of_steps div 32"] assms(3)
  by (simp add: state_update_def)

theorem state_update_nlfsr_witness:
  "length [1, 2, 3, 4 :: u32] = 4 \<and> length (replicate 16 (7 :: u8)) = 16 \<and> 32 dvd NROUND1 \<and>
   state_bits (state_update [1, 2, 3, 4] (replicate 16 7) NROUND1) =
     fold (nlfsr_step (replicate 16 7)) [0..<NROUND1] (state_bits [1, 2, 3, 4])"
  using state_update_nlfsr [of "[1, 2, 3, 4]" "replicate 16 7" NROUND1] by (simp add: NROUND1_def)

section \<open>Properties of the cipher\<close>

text \<open>
  C32: for keys of 16 and nonces of 12 bytes decryption accepts exactly the encryptions: it
  returns 0 and a text \<open>m\<close> if and only if the ciphertext is the encryption of \<open>m\<close>, for
  messages and associated data of every length, also those that are no multiple of 4.
\<close>

theorem jambu_decrypt_iff:
  assumes "length npub = 12" and "length k = 16"
  shows "jambu_decrypt c ad npub k = Inr (0, m) \<longleftrightarrow> c = jambu_encrypt m ad npub k"
  using assms by (intro jambu.dec_iff) simp

theorem jambu_decrypt_iff_witness:
  "length (replicate 12 (1 :: u8)) = 12 \<and> length (replicate 16 (2 :: u8)) = 16 \<and>
   jambu_decrypt (jambu_encrypt [1, 2, 3, 4, 5] [6] (replicate 12 1) (replicate 16 2)) [6]
     (replicate 12 1) (replicate 16 2) = Inr (0, [1, 2, 3, 4, 5])"
  using jambu_decrypt_iff [of "replicate 12 1" "replicate 16 2"] by simp

section \<open>The restructured code\<close>

definition update_step_struc :: "u32 list \<Rightarrow> nat \<Rightarrow> jstate \<Rightarrow> jstate" where
  "update_step_struc key i s =
     (let t1 = drop_bit 15 (s ! 1) OR push_bit 17 (s ! 2);
          t2 = drop_bit 6 (s ! 2) OR push_bit 26 (s ! 3);
          t3 = drop_bit 21 (s ! 2) OR push_bit 11 (s ! 3);
          t4 = drop_bit 27 (s ! 2) OR push_bit 5 (s ! 3)
      in [s ! 1, s ! 2, s ! 3, s ! 0 XOR t1 XOR NOT (t2 AND t3) XOR t4 XOR key ! (i mod 4)])"

definition state_update_struc :: "jstate \<Rightarrow> u32 list \<Rightarrow> nat \<Rightarrow> jstate" where
  "state_update_struc s key number_of_steps =
     fold (update_step_struc key) [0..<number_of_steps div 32] s"

definition initialization_struc :: "u32 list \<Rightarrow> u32 list \<Rightarrow> jstate" where
  "initialization_struc key iv =
     fold (\<lambda>i s. xor_at 3 (iv ! i) (state_update_struc (xor_at 1 FrameBitsIV s) key NROUND1))
       [0..<3] (state_update_struc (replicate 4 0) key NROUND2)"

definition process_ad_struc :: "u32 list \<Rightarrow> u32 list \<Rightarrow> nat \<Rightarrow> jstate \<Rightarrow> jstate" where
  "process_ad_struc k ad adlen s =
     fold (\<lambda>i s. xor_at 3 (ad ! i) (state_update_struc (xor_at 1 FrameBitsAD s) k NROUND1))
       [0..<adlen div 4] s"

text \<open>The two words of the tag.\<close>

definition finalization_struc :: "u32 list \<Rightarrow> jstate \<Rightarrow> u32 list" where
  "finalization_struc k s =
     (let s1 = state_update_struc (xor_at 1 FrameBitsFinalization s) k NROUND2;
          s2 = state_update_struc (xor_at 1 FrameBitsFinalization s1) k NROUND1
      in [s1 ! 2, s2 ! 2])"

definition jambu_encrypt_struc :: "u32 list \<Rightarrow> u32 list \<Rightarrow> u32 list \<Rightarrow> u32 list \<Rightarrow> u32 list" where
  "jambu_encrypt_struc m ad npub k =
     (let mlen = 16; adlen = 16;
          s = process_ad_struc k ad adlen (initialization_struc k npub);
          (s, c) = fold (\<lambda>i (s, c).
              let s = xor_at 3 (m ! i) (state_update_struc (xor_at 1 FrameBitsPC s) k NROUND2)
              in (s, c @ [s ! 2 XOR m ! i])) [0..<mlen div 4] (s, [])
      in c @ finalization_struc k s)"

text \<open>The return value is the collected difference of the tags.\<close>

definition jambu_decrypt_struc :: "u32 list \<Rightarrow> u32 list \<Rightarrow> u32 list \<Rightarrow> u32 list \<Rightarrow> u32 \<times> u32 list" where
  "jambu_decrypt_struc c ad npub k =
     (let mlen = 16; adlen = 16; clen = mlen + 8;
          s = process_ad_struc k ad adlen (initialization_struc k npub);
          (s, m) = fold (\<lambda>i (s, m).
              let s = state_update_struc (xor_at 1 FrameBitsPC s) k NROUND2; x = s ! 2 XOR c ! i
              in (xor_at 3 x s, m @ [x])) [0..<mlen div 4] (s, []);
          mac = finalization_struc k s;
          chk = fold (\<lambda>j d. d OR (mac ! j XOR c ! (clen div 4 - 2 + j))) [0..<2] 0
      in (chk, m))"

lemma state_update_eq_struc: "state_update s k n = state_update_struc s (words_of_bytes k) n"
proof -
  have "update_step k = update_step_struc (words_of_bytes k)"
    by (intro ext) (simp add: update_step_def update_step_struc_def feedback_def Let_def xor.assoc)
  then show ?thesis by (simp add: state_update_def state_update_struc_def)
qed

lemma struc_stages:
  "initialization k iv = initialization_struc (words_of_bytes k) (words_of_bytes iv)"
  "length ad = 16 \<Longrightarrow> process_ad k ad s = process_ad_struc (words_of_bytes k) (words_of_bytes ad) 16 s"
  "finalization k s = bytes_of_words (finalization_struc (words_of_bytes k) s)"
  by (simp_all add: initialization_def initialization_struc_def process_ad_def process_ad_struc_def
      finalization_def finalization_struc_def state_update_eq_struc Let_def)

text \<open>A fold over the elements of an array is a fold over its indices.\<close>

lemma fold_nth: "fold f xs s = fold (\<lambda>i. f (xs ! i)) [0..<length xs] s"
  using fold_map [of f "(!) xs" "[0..<length xs]"] by (simp add: map_nth comp_def)

text \<open>
  C34: on messages and associated data of 16 bytes the restructured program computes the
  ciphertext of the reference code, read as words.
\<close>

theorem jambu_encrypt_struc_eq:
  assumes "length m = 16" and "length ad = 16"
  shows "bytes_of_words (jambu_encrypt_struc (words_of_bytes m) (words_of_bytes ad)
           (words_of_bytes npub) (words_of_bytes k)) = jambu_encrypt m ad npub k"
proof -
  have tail: "tail_bytes m = []" using assms by (simp add: tail_bytes_def)
  have "fold (enc_step k) (words_of_bytes m) = fold (\<lambda>i. enc_step k (words_of_bytes m ! i)) [0..<16 div 4]"
    using fold_nth [of "enc_step k" "words_of_bytes m"] assms by (intro ext) simp
  then show ?thesis
    unfolding jambu_encrypt_def jambu_encrypt_struc_def
    using assms by (simp add: tail enc_tail_def struc_stages enc_step_def state_update_eq_struc Let_def
        split: prod.split)
qed

theorem jambu_encrypt_struc_eq_witness:
  "bytes_of_words (jambu_encrypt_struc (words_of_bytes (replicate 16 1)) (words_of_bytes (replicate 16 2))
     (words_of_bytes (replicate 12 3)) (words_of_bytes (replicate 16 4))) =
   jambu_encrypt (replicate 16 1) (replicate 16 2) (replicate 12 3) (replicate 16 4)"
  by (rule jambu_encrypt_struc_eq) simp_all

lemma tag_words_check:
  assumes "length c = 24" "length mac = (2 :: nat)"
  shows "fold (\<lambda>j d. d OR (mac ! j XOR words_of_bytes c ! (4 + j))) [0..<2] (0 :: u32) = 0
     \<longleftrightarrow> drop 16 c = bytes_of_words mac"
proof -
  have "words_of_bytes (drop 16 c) = drop 4 (words_of_bytes c)"
    using assms by (auto simp: loop_simps)
  moreover have "drop 16 c = bytes_of_words mac \<longleftrightarrow> words_of_bytes (drop 16 c) = mac"
  proof -
    have "4 dvd length (drop 16 c)" using assms by simp
    from bytes_of_words_of_bytes [OF this] show ?thesis by auto
  qed
  moreover have "drop 4 (words_of_bytes c) = mac \<longleftrightarrow> (\<forall>j<2. words_of_bytes c ! (4 + j) = mac ! j)"
    using assms by (auto simp: list_eq_iff_nth_eq)
  ultimately show ?thesis by (auto simp: fold_or_eq_0)
qed

text \<open>
  C35: on ciphertexts of 24 bytes the restructured program returns 0 exactly when the
  reference code returns 0, and both write the same text.
\<close>

theorem jambu_decrypt_struc_eq:
  assumes "length c = 24" and "length ad = 16"
  shows "\<exists>chk m. jambu_decrypt_struc (words_of_bytes c) (words_of_bytes ad) (words_of_bytes npub)
             (words_of_bytes k) = (chk, m) \<and>
           jambu_decrypt c ad npub k = Inr (if chk = 0 then 0 else -1, bytes_of_words m)"
proof -
  let ?b = "take 16 c" and ?s = "process_ad k ad (initialization k npub)"
  have tail: "tail_bytes ?b = []" using assms by (simp add: tail_bytes_def)
  have w: "words_of_bytes ?b ! i = words_of_bytes c ! i" if "i < 4" for i
    using that words_of_bytes_take [of 4 c] by simp
  obtain t m where t: "fold (dec_step k) (words_of_bytes ?b) (?s, []) = (t, m)" by force
  have "fold (dec_step k) (words_of_bytes ?b) (?s, []) =
      fold (\<lambda>i. dec_step k (words_of_bytes c ! i)) [0..<16 div 4] (?s, [])"
    using fold_nth [of "dec_step k" "words_of_bytes ?b"] assms w by (auto intro!: fold_cong)
  then have t': "fold (\<lambda>i. dec_step k (words_of_bytes c ! i)) [0..<16 div 4] (?s, []) = (t, m)" using t by simp
  have tag: "length (finalization_struc (words_of_bytes k) t) = 2" by (simp add: finalization_struc_def Let_def)
  have chk: "fold (\<lambda>j d. d OR (finalization k t ! j XOR c ! (16 + j))) [0..<8] 0 = 0 \<longleftrightarrow>
      fold (\<lambda>j d. d OR (finalization_struc (words_of_bytes k) t ! j XOR words_of_bytes c ! (4 + j)))
        [0..<2] (0 :: u32) = 0"
    unfolding tag_words_check [OF assms(1) tag]
    using tag_check [of c 16 "finalization k t"] assms tag by (simp add: struc_stages)
  show ?thesis
    unfolding jambu_decrypt_def jambu_decrypt_struc_def
    using assms t t' chk by (simp add: tail dec_tail_def struc_stages dec_step_def state_update_eq_struc Let_def)
qed

theorem jambu_decrypt_struc_eq_witness:
  "\<exists>chk m. jambu_decrypt_struc (words_of_bytes (replicate 24 1)) (words_of_bytes (replicate 16 2))
       (words_of_bytes (replicate 12 3)) (words_of_bytes (replicate 16 4)) = (chk, m) \<and>
     jambu_decrypt (replicate 24 1) (replicate 16 2) (replicate 12 3) (replicate 16 4) =
       Inr (if chk = 0 then 0 else -1, bytes_of_words m)"
  by (rule jambu_decrypt_struc_eq) simp_all

end
