(* ===== verification/Reductions.thy ===== *)
theory Reductions
  imports Prelude
begin

text \<open>
  The programs \<^verbatim>\<open>programs/sum\<close> and \<^verbatim>\<open>programs/findmax\<close>: each has a naive loop and a version
  that combines neighbours level by level, in place, so that the additions of a level are
  independent. The code fixes \<^verbatim>\<open>n = 1000\<close>; the definitions take \<open>n\<close> as an argument, since a
  comment of the tree versions says for which \<open>n\<close> they work. The temporary array has
  \<^verbatim>\<open>(n+1)/2\<close> elements, all written by the first level.
\<close>

section \<open>sum\<close>

definition sum_naive_n :: "nat \<Rightarrow> u32 list \<Rightarrow> u32" where
  "sum_naive_n n array = fold (\<lambda>i s. s + array ! i) [0..<n] 0"

definition sum_naive :: "u32 list \<Rightarrow> u32" where
  "sum_naive = sum_naive_n 1000"

text \<open>The last element of a level: \<^verbatim>\<open>cond * last1 + (1-cond) * (last1 + last2)\<close>.\<close>

definition sum_last :: "u32 \<Rightarrow> u32 \<Rightarrow> u32 \<Rightarrow> u32" where
  "sum_last cond last1 last2 = cond * last1 + (1 - cond) * (last1 + last2)"

text \<open>The loop over the levels.\<close>

function sum_levels :: "nat \<Rightarrow> u32 \<Rightarrow> u32 \<Rightarrow> u32 \<Rightarrow> u32 list \<Rightarrow> u32 list" where
  "sum_levels m cond last1 last2 tmp =
     (if 1 < m then
        let tmp = fold (\<lambda>i t. t[i := t ! (2 * i) + t ! (2 * i + 1)]) [0..<m - 1] tmp;
            tmp = tmp[m - 1 := sum_last cond last1 last2]
        in sum_levels ((m + 1) div 2) (of_nat (m mod 2)) (tmp ! (m - 1)) (tmp ! (m - 2)) tmp
      else tmp)"
  by pat_completeness auto
termination
  by (relation "measure (\<lambda>(m, _). m)") auto

declare sum_levels.simps [simp del]

definition sum_tree_n :: "nat \<Rightarrow> u32 list \<Rightarrow> u32" where
  "sum_tree_n n array =
     (let m = (n + 1) div 2; last1 = array ! (n - 1); last2 = array ! (n - 2);
          tmp = map (\<lambda>i. array ! (2 * i) + array ! (2 * i + 1)) [0..<m - 1] @
                [sum_last (of_nat (n mod 2)) last1 last2];
          tmp = sum_levels ((m + 1) div 2) (of_nat (m mod 2)) (tmp ! (m - 1)) (tmp ! (m - 2)) tmp
      in tmp ! 0 + tmp ! 1)"

definition sum_tree :: "u32 list \<Rightarrow> u32" where
  "sum_tree = sum_tree_n 1000"

section \<open>findmax\<close>

text \<open>\<^verbatim>\<open>c = a < b; c ? b : a\<close>\<close>

definition pick :: "u32 \<Rightarrow> u32 \<Rightarrow> u32" where
  "pick a b = (if a < b then b else a)"

definition findmax_naive_n :: "nat \<Rightarrow> u32 list \<Rightarrow> u32" where
  "findmax_naive_n n array = fold (\<lambda>i m. if m < array ! i then array ! i else m) [1..<n] (array ! 0)"

definition findmax_naive :: "u32 list \<Rightarrow> u32" where
  "findmax_naive = findmax_naive_n 1000"

function findmax_levels :: "nat \<Rightarrow> bool \<Rightarrow> u32 \<Rightarrow> u32 \<Rightarrow> u32 list \<Rightarrow> u32 list" where
  "findmax_levels m cl last1 mlast tmp =
     (if 1 < m then
        let tmp = fold (\<lambda>i t. t[i := if t ! (2 * i) < t ! (2 * i + 1) then t ! (2 * i + 1) else t ! (2 * i)])
                    [0..<m - 1] tmp;
            tmp = tmp[m - 1 := if cl then last1 else mlast];
            last1 = tmp ! (m - 1); last2 = tmp ! (m - 2)
        in findmax_levels ((m + 1) div 2) (m mod 2 = 1) last1 (if last2 < last1 then last1 else last2) tmp
      else tmp)"
  by pat_completeness auto
termination
  by (relation "measure (\<lambda>(m, _). m)") auto

declare findmax_levels.simps [simp del]

definition findmax_tree_n :: "nat \<Rightarrow> u32 list \<Rightarrow> u32" where
  "findmax_tree_n n array =
     (let m = (n + 1) div 2; last1 = array ! (n - 1); last2 = array ! (n - 2);
          tmp = map (\<lambda>i. if array ! (2 * i) < array ! (2 * i + 1) then array ! (2 * i + 1) else array ! (2 * i))
                  [0..<m - 1];
          mlast = (if last2 < last1 then last1 else last2);
          tmp = tmp @ [if n mod 2 = 1 then last1 else mlast];
          last1 = tmp ! (m - 1); last2 = tmp ! (m - 2);
          mlast = (if last2 < last1 then last1 else last2);
          tmp = findmax_levels ((m + 1) div 2) (m mod 2 = 1) last1 mlast tmp
      in if tmp ! 0 < tmp ! 1 then tmp ! 1 else tmp ! 0)"

definition findmax_tree :: "u32 list \<Rightarrow> u32" where
  "findmax_tree = findmax_tree_n 1000"

section \<open>Combining neighbours\<close>

fun pairs :: "('a \<Rightarrow> 'a \<Rightarrow> 'a) \<Rightarrow> 'a list \<Rightarrow> 'a list" where
  "pairs f (x # y # xs) = f x y # pairs f xs"
| "pairs f xs = xs"

lemma length_pairs [simp]: "length (pairs f xs) = (length xs + 1) div 2"
  by (induction f xs rule: pairs.induct) auto

lemma nth_pairs:
  "i < (length xs + 1) div 2 \<Longrightarrow>
   pairs f xs ! i = (if 2 * i + 1 < length xs then f (xs ! (2 * i)) (xs ! (2 * i + 1)) else xs ! (2 * i))"
proof (induction f xs arbitrary: i rule: pairs.induct)
  case (1 f x y xs)
  then show ?case by (cases i) auto
qed (auto simp: less_Suc_eq)

text \<open>The in-place loop reads every element before it overwrites it.\<close>

lemma in_place:
  "2 * k \<le> length t \<Longrightarrow>
   fold (\<lambda>i t. t[i := f (t ! (2 * i)) (t ! (2 * i + 1))]) [0..<k] t =
     map (\<lambda>i. f (t ! (2 * i)) (t ! (2 * i + 1))) [0..<k] @ drop k t"
proof (induction k)
  case (Suc k)
  let ?a = "map (\<lambda>i. f (t ! (2 * i)) (t ! (2 * i + 1))) [0..<k]"
  have at: "(?a @ drop k t) ! j = t ! j" if "k \<le> j" "j < length t" for j
    using that by (simp add: nth_append)
  have "drop k t = t ! k # drop (Suc k) t" using Suc.prems by (simp add: Cons_nth_drop_Suc)
  moreover have "(?a @ drop k t) ! (2 * k) = t ! (2 * k)" "(?a @ drop k t) ! (2 * k + 1) = t ! (2 * k + 1)"
    using Suc.prems by (intro at; simp)+
  ultimately show ?case using Suc by (simp add: list_update_append)
qed simp

text \<open>One level: \<open>p\<close> values become \<open>(p + 1) div 2\<close>.\<close>

lemma one_level:
  assumes "2 \<le> p" "p \<le> length tmp" "m = (p + 1) div 2"
    and "v = (if odd p then tmp ! (p - 1) else f (tmp ! (p - 2)) (tmp ! (p - 1)))"
  shows "take m ((fold (\<lambda>i t. t[i := f (t ! (2 * i)) (t ! (2 * i + 1))]) [0..<m - 1] tmp)[m - 1 := v]) =
    pairs f (take p tmp)"
proof -
  let ?a = "map (\<lambda>i. f (tmp ! (2 * i)) (tmp ! (2 * i + 1))) [0..<m - 1]"
  have m: "2 * (m - 1) \<le> length tmp" "0 < m" "m \<le> length tmp" using assms by auto
  have "drop (m - 1) tmp = tmp ! (m - 1) # drop m tmp"
    using m Cons_nth_drop_Suc [of "m - 1" tmp] by simp
  then have "take m ((fold (\<lambda>i t. t[i := f (t ! (2 * i)) (t ! (2 * i + 1))]) [0..<m - 1] tmp)[m - 1 := v]) =
      ?a @ [v]"
    unfolding in_place [OF m(1)] using m(2) by (simp add: list_update_append)
  also have "\<dots> = pairs f (take p tmp)"
  proof (rule nth_equalityI)
    show "length (?a @ [v]) = length (pairs f (take p tmp))" using assms m by (simp add: min_absorb2)
    fix i assume "i < length (?a @ [v])"
    then have i: "i < m" using m by simp
    have pr: "pairs f (take p tmp) ! i =
        (if 2 * i + 1 < p then f (tmp ! (2 * i)) (tmp ! (2 * i + 1)) else tmp ! (2 * i))"
      using i assms by (subst nth_pairs) (auto simp: min_def)
    show "(?a @ [v]) ! i = pairs f (take p tmp) ! i"
    proof (cases "i = m - 1")
      case True
      have "2 * (m - 1) = (if odd p then p - 1 else p - 2)" using assms by (auto elim!: oddE evenE)
      then show ?thesis using True assms pr by (auto simp: nth_append Suc_diff_Suc numeral_2_eq_2)
    next
      case False
      then have "i < m - 1" "2 * i + 1 < p" using i assms by auto
      then show ?thesis using pr by (simp add: nth_append)
    qed
  qed
  finally show ?thesis .
qed

section \<open>Reductions by an associative operation\<close>

locale reduction =
  fixes f :: "'a \<Rightarrow> 'a \<Rightarrow> 'a"
  assumes assoc: "f (f x y) z = f x (f y z)"
begin

fun reduce :: "'a list \<Rightarrow> 'a" where
  "reduce [] = undefined"
| "reduce [x] = x"
| "reduce (x # y # xs) = f x (reduce (y # xs))"

lemma reduce_pairs: "reduce (pairs f xs) = reduce xs"
proof (induction xs rule: induct_list012)
  case (3 x y xs)
  show ?case
  proof (cases xs)
    case (Cons z zs)
    then have "pairs f xs \<noteq> []" by (cases zs) auto
    then show ?thesis using 3 Cons by (cases "pairs f xs") (auto simp: assoc)
  qed simp
qed simp_all

lemma reduce_foldl: "foldl f x xs = reduce (x # xs)"
proof (induction xs arbitrary: x)
  case (Cons y xs)
  have "reduce (f x y # xs) = f x (reduce (y # xs))" by (cases xs) (simp_all add: assoc)
  with Cons show ?case by simp
qed simp

text \<open>A loop over an array from its first element on.\<close>

lemma fold_reduce:
  assumes "0 < n" "n \<le> length xs"
  shows "fold (\<lambda>i a. f a (xs ! i)) [1..<n] (xs ! 0) = reduce (take n xs)"
proof -
  obtain m where m: "n = Suc m" using assms by (cases n) auto
  obtain y ys where xs: "xs = y # ys" using assms by (cases xs) auto
  have "fold (\<lambda>i a. f a (xs ! i)) [1..<n] (xs ! 0) = fold (\<lambda>i a. f a (ys ! i)) [0..<m] y"
    unfolding m xs One_nat_def map_Suc_upt [symmetric] fold_map by (simp add: comp_def)
  also have "\<dots> = foldl f y (map ((!) ys) [0..<m])"
    by (simp add: foldl_conv_fold fold_map comp_def)
  also have "map ((!) ys) [0..<m] = take m ys" using assms m xs by (intro nth_equalityI) auto
  finally show ?thesis using m xs by (simp add: reduce_foldl)
qed

text \<open>
  A loop \<open>L\<close> that takes \<open>p\<close> values through one level after the other until two are left.
\<close>

lemma levels:
  assumes base: "\<And>tmp. 2 \<le> length tmp \<Longrightarrow> L 2 tmp = tmp"
    and step: "\<And>p tmp. 3 \<le> p \<Longrightarrow> p \<le> length tmp \<Longrightarrow>
      \<exists>t. length t = length tmp \<and> take ((p + 1) div 2) t = pairs f (take p tmp) \<and> L p tmp = L ((p + 1) div 2) t"
  shows "2 \<le> p \<Longrightarrow> p \<le> length tmp \<Longrightarrow> f (L p tmp ! 0) (L p tmp ! 1) = reduce (take p tmp)"
proof (induction p arbitrary: tmp rule: less_induct)
  case (less p)
  show ?case
  proof (cases "p = 2")
    case True
    then obtain a b r where "tmp = a # b # r" using less.prems by (cases tmp; cases "tl tmp") auto
    then show ?thesis using True base [of tmp] by simp
  next
    case False
    then have p: "3 \<le> p" "(p + 1) div 2 < p" "2 \<le> (p + 1) div 2" using less.prems by auto
    obtain t where t: "length t = length tmp" "take ((p + 1) div 2) t = pairs f (take p tmp)"
        "L p tmp = L ((p + 1) div 2) t"
      using step p(1) less.prems(2) by blast
    show ?thesis using less.IH [OF p(2,3), of t] t p less.prems by (simp add: reduce_pairs)
  qed
qed

end

interpretation sum: reduction "(+) :: u32 \<Rightarrow> u32 \<Rightarrow> u32"
  by unfold_locales (simp add: add.assoc)

interpretation findmax: reduction pick
  by unfold_locales (auto simp: pick_def)

section \<open>The tree versions\<close>

lemma sum_last_eq:
  "sum_last (of_nat (p mod 2)) b a = (if odd p then b else a + b)"
  by (auto simp: sum_last_def odd_iff_mod_2_eq_one)

lemma sum_levels_reduce:
  assumes "2 \<le> p" "p \<le> length tmp"
  shows "sum_levels ((p + 1) div 2) (of_nat (p mod 2)) (tmp ! (p - 1)) (tmp ! (p - 2)) tmp ! 0 +
    sum_levels ((p + 1) div 2) (of_nat (p mod 2)) (tmp ! (p - 1)) (tmp ! (p - 2)) tmp ! 1 = sum.reduce (take p tmp)"
proof (rule sum.levels [OF _ _ assms])
  fix p :: nat and tmp :: "u32 list" assume p: "3 \<le> p" "p \<le> length tmp"
  let ?m = "(p + 1) div 2"
  let ?t = "(fold (\<lambda>i t. t[i := t ! (2 * i) + t ! (2 * i + 1)]) [0..<?m - 1] tmp)
      [?m - 1 := sum_last (of_nat (p mod 2)) (tmp ! (p - 1)) (tmp ! (p - 2))]"
  have "length (fold (\<lambda>i t. t[i := t ! (2 * i) + t ! (2 * i + 1)]) [0..<?m - 1] tmp) = length tmp"
    using p by (subst in_place) auto
  moreover have "take ?m ?t = pairs (+) (take p tmp)" using p by (intro one_level) (auto simp: sum_last_eq)
  moreover have "1 < ?m" using p by linarith
  then have "sum_levels ?m (of_nat (p mod 2)) (tmp ! (p - 1)) (tmp ! (p - 2)) tmp =
      sum_levels ((?m + 1) div 2) (of_nat (?m mod 2)) (?t ! (?m - 1)) (?t ! (?m - 2)) ?t"
    by (subst sum_levels.simps) (simp add: Let_def)
  ultimately show "\<exists>t. length t = length tmp \<and> take ?m t = pairs (+) (take p tmp) \<and>
      sum_levels ?m (of_nat (p mod 2)) (tmp ! (p - 1)) (tmp ! (p - 2)) tmp =
      sum_levels ((?m + 1) div 2) (of_nat (?m mod 2)) (t ! (?m - 1)) (t ! (?m - 2)) t"
    by (intro exI [of _ ?t]) simp
qed (simp add: sum_levels.simps)

lemma findmax_levels_reduce:
  assumes "2 \<le> p" "p \<le> length tmp"
  shows "pick (findmax_levels ((p + 1) div 2) (p mod 2 = 1) (tmp ! (p - 1)) (pick (tmp ! (p - 2)) (tmp ! (p - 1))) tmp ! 0)
    (findmax_levels ((p + 1) div 2) (p mod 2 = 1) (tmp ! (p - 1)) (pick (tmp ! (p - 2)) (tmp ! (p - 1))) tmp ! 1) =
    findmax.reduce (take p tmp)"
proof (rule findmax.levels [OF _ _ assms])
  fix p :: nat and tmp :: "u32 list" assume p: "3 \<le> p" "p \<le> length tmp"
  let ?m = "(p + 1) div 2"
  let ?t = "(fold (\<lambda>i t. t[i := pick (t ! (2 * i)) (t ! (2 * i + 1))]) [0..<?m - 1] tmp)
      [?m - 1 := if p mod 2 = 1 then tmp ! (p - 1) else pick (tmp ! (p - 2)) (tmp ! (p - 1))]"
  have "length (fold (\<lambda>i t. t[i := pick (t ! (2 * i)) (t ! (2 * i + 1))]) [0..<?m - 1] tmp) = length tmp"
    using p by (subst in_place) auto
  moreover have "take ?m ?t = pairs pick (take p tmp)"
    using p by (intro one_level) (auto simp: odd_iff_mod_2_eq_one)
  moreover have m: "1 < ?m" using p by linarith
  have "findmax_levels ?m (p mod 2 = 1) (tmp ! (p - 1)) (pick (tmp ! (p - 2)) (tmp ! (p - 1))) tmp =
      findmax_levels ((?m + 1) div 2) (?m mod 2 = 1) (?t ! (?m - 1)) (pick (?t ! (?m - 2)) (?t ! (?m - 1))) ?t"
    by (subst findmax_levels.simps) (simp only: m if_True Let_def pick_def)
  ultimately show "\<exists>t. length t = length tmp \<and> take ?m t = pairs pick (take p tmp) \<and>
      findmax_levels ?m (p mod 2 = 1) (tmp ! (p - 1)) (pick (tmp ! (p - 2)) (tmp ! (p - 1))) tmp =
      findmax_levels ((?m + 1) div 2) (?m mod 2 = 1) (t ! (?m - 1)) (pick (t ! (?m - 2)) (t ! (?m - 1))) t"
    by (intro exI [of _ ?t]) simp
qed (simp add: findmax_levels.simps)

text \<open>The first level, which reads the input array.\<close>

lemma first_level:
  assumes "3 \<le> n" "n \<le> length array"
    and "v = (if odd n then array ! (n - 1) else f (array ! (n - 2)) (array ! (n - 1)))"
  shows "map (\<lambda>i. f (array ! (2 * i)) (array ! (2 * i + 1))) [0..<(n + 1) div 2 - 1] @ [v] = pairs f (take n array)"
proof -
  let ?m = "(n + 1) div 2"
  have "2 * (?m - 1) \<le> length array" "0 < ?m" "?m \<le> length array" using assms by auto
  then have "take ?m ((fold (\<lambda>i t. t[i := f (t ! (2 * i)) (t ! (2 * i + 1))]) [0..<?m - 1] array)[?m - 1 := v]) =
      map (\<lambda>i. f (array ! (2 * i)) (array ! (2 * i + 1))) [0..<?m - 1] @ [v]"
    using Cons_nth_drop_Suc [of "?m - 1" array]
    by (subst in_place) (auto simp: list_update_append simp flip: Cons_nth_drop_Suc)
  then show ?thesis using one_level [of n array ?m v f] assms by simp
qed

text \<open>
  C39: the tree version of \<^verbatim>\<open>sum\<close> computes what the loop computes, the sum of the elements
  modulo \<open>2 ^ 32\<close>, for every length from 3 on, as the comment in the code claims, and so for
  the 1000 elements of the program.
\<close>

theorem sum_tree_correct:
  assumes "3 \<le> n" "n \<le> length array"
  shows "sum_tree_n n array = sum_naive_n n array \<and> sum_naive_n n array = sum_list (take n array)"
proof -
  let ?tmp = "map (\<lambda>i. array ! (2 * i) + array ! (2 * i + 1)) [0..<(n + 1) div 2 - 1] @
      [sum_last (of_nat (n mod 2)) (array ! (n - 1)) (array ! (n - 2))]"
  have tmp: "?tmp = pairs (+) (take n array)" by (rule first_level) (use assms in \<open>auto simp: sum_last_eq\<close>)
  have len: "length ?tmp = (n + 1) div 2" "2 \<le> (n + 1) div 2" using assms by auto
  have "sum_tree_n n array = sum.reduce (take ((n + 1) div 2) ?tmp)"
    unfolding sum_tree_n_def Let_def 
    by (rule sum_levels_reduce [OF len(2)]) (simp only: len(1) order.refl)
  also have "\<dots> = sum.reduce (take n array)" using len tmp by (simp add: sum.reduce_pairs)
  finally have t: "sum_tree_n n array = sum.reduce (take n array)" .
  have "sum_naive_n n array = fold (\<lambda>i s. s + array ! i) [1..<n] (array ! 0)"
    using assms by (simp add: sum_naive_n_def upt_conv_Cons [of 0 n])
  also have "\<dots> = sum.reduce (take n array)" using assms by (intro sum.fold_reduce) auto
  finally have l: "sum_naive_n n array = sum.reduce (take n array)" .
  have "sum_list xs = sum.reduce xs" if "xs \<noteq> []" for xs using that by (induction xs rule: induct_list012) auto
  moreover have "take n array \<noteq> []" using assms by auto
  ultimately show ?thesis using t l by simp
qed

theorem sum_tree_correct_witness:
  "sum_tree_n 5 [1, 2, 3, 4, 0xFFFFFFFF] = 9 \<and> sum_tree (replicate 1000 0x10000000) = sum_naive (replicate 1000 0x10000000)"
  using sum_tree_correct [of 5 "[1, 2, 3, 4, 0xFFFFFFFF]"] sum_tree_correct [of 1000 "replicate 1000 0x10000000"]
  by (simp add: sum_tree_def sum_naive_def)

text \<open>
  C40: the tree version of \<^verbatim>\<open>findmax\<close> and the loop both return the greatest element, for
  every length from 3 on.
\<close>

theorem findmax_tree_correct:
  assumes "3 \<le> n" "n \<le> length array"
  shows "findmax_tree_n n array = findmax_naive_n n array \<and> findmax_naive_n n array = Max (set (take n array))"
proof -
  let ?tmp = "map (\<lambda>i. pick (array ! (2 * i)) (array ! (2 * i + 1))) [0..<(n + 1) div 2 - 1] @
      [if n mod 2 = 1 then array ! (n - 1) else pick (array ! (n - 2)) (array ! (n - 1))]"
  have tmp: "?tmp = pairs pick (take n array)"
    by (rule first_level) (use assms in \<open>auto simp: odd_iff_mod_2_eq_one\<close>)
  have len: "length ?tmp = (n + 1) div 2" "2 \<le> (n + 1) div 2" using assms by auto
  have "findmax_tree_n n array = findmax.reduce (take ((n + 1) div 2) ?tmp)"
    unfolding findmax_tree_n_def Let_def pick_def [symmetric]
    by (rule findmax_levels_reduce [OF len(2)]) (simp only: len(1) order.refl)
  also have "\<dots> = findmax.reduce (take n array)" using len tmp by (simp add: findmax.reduce_pairs)
  finally have t: "findmax_tree_n n array = findmax.reduce (take n array)" .
  have l: "findmax_naive_n n array = findmax.reduce (take n array)"
    using findmax.fold_reduce [of n array] assms by (simp add: findmax_naive_n_def pick_def)
  have "findmax.reduce xs = Max (set xs)" if "xs \<noteq> []" for xs
    using that by (induction xs rule: induct_list012) (auto simp: pick_def max_def)
  moreover have "take n array \<noteq> []" using assms by auto
  ultimately show ?thesis using t l by simp
qed

theorem findmax_tree_correct_witness:
  "findmax_tree_n 5 [1, 9, 3, 4, 2] = 9 \<and> findmax_tree (replicate 1000 7) = findmax_naive (replicate 1000 7)"
  using findmax_tree_correct [of 5 "[1, 9, 3, 4, 2]"] findmax_tree_correct [of 1000 "replicate 1000 7"]
  by (simp add: findmax_tree_def findmax_naive_def max_def)

end
