(* ===== verification/MNIST.thy ===== *)
theory MNIST
  imports Prelude
begin

text \<open>
  The digit classifier: \<^verbatim>\<open>programs/MNIST/mnist.c\<close> and the restructured
  \<^verbatim>\<open>mnist_struc.c\<close>. The tables of weights, biases and thresholds are data of some 29,000
  lines; they are arguments of the definitions, so that the theorems hold for every table. The
  restructured program has the rows of each table one behind the other, branches turned into
  selections, and the upper half of a 64-bit product computed on 32-bit words.
\<close>

section \<open>mnist.c\<close>

record net =
  WEIGHTS :: "u32 list list list"
  BIASES :: "u32 list list"
  THRESHOLD :: "u32 list list"
  SLOPE :: "u32 list"

definition activation :: "net \<Rightarrow> nat \<Rightarrow> nat \<Rightarrow> u32 \<Rightarrow> u32" where
  "activation net layer i y =
     (if y < THRESHOLD net ! layer ! i then 0
      else let diff = y - THRESHOLD net ! layer ! i;
               product = (ucast (SLOPE net ! layer) :: u64) * ucast diff
           in ucast (drop_bit 32 product))"

text \<open>The inner loop of a layer.\<close>

definition dense :: "u32 list \<Rightarrow> u32 list \<Rightarrow> nat \<Rightarrow> u32 \<Rightarrow> u32" where
  "dense w x n bias = fold (\<lambda>j y. y + w ! j * x ! j) [0..<n] bias"

text \<open>Layer \<open>l\<close> (from 0) with \<open>n\<close> inputs and 100 outputs.\<close>

definition hidden_layer :: "net \<Rightarrow> nat \<Rightarrow> nat \<Rightarrow> u32 list \<Rightarrow> u32 list" where
  "hidden_layer net l n x =
     map (\<lambda>i. activation net l i (dense (WEIGHTS net ! l ! i) x n (BIASES net ! l ! i))) [0..<100]"

definition mnist32 :: "net \<Rightarrow> u32 list \<Rightarrow> nat" where
  "mnist32 net x0 =
     (let x1 = hidden_layer net 0 784 x0;
          x2 = hidden_layer net 1 100 x1;
          x3 = hidden_layer net 2 100 x2;
          x4 = hidden_layer net 3 100 x3;
          (m, pos) = fold (\<lambda>i (m, pos).
              let y = dense (WEIGHTS net ! 4 ! i) x4 100 (BIASES net ! 4 ! i)
              in if y > m then (y, i) else (m, pos)) [0..<10] (0, 0)
      in pos)"

section \<open>mnist\_struc.c\<close>

definition HI :: "u32 \<Rightarrow> u32" where "HI x = drop_bit 16 x"
definition LO :: "u32 \<Rightarrow> u32" where "LO x = x AND 0xFFFF"

definition msb32_from_mul :: "u32 \<Rightarrow> u32 \<Rightarrow> u32" where
  "msb32_from_mul x y =
     (let t = LO x * LO y;
          t = HI x * LO y + HI t;
          z1 = LO t; z2 = HI t;
          t = z1 + LO x * HI y;
          t = z2 + HI x * HI y + HI t;
          z2 = LO t; z3 = HI t
      in push_bit 16 z3 OR z2)"

record net_struc =
  WEIGHTS_STRUC :: "u32 list list"
  BIASES_STRUC :: "u32 list list"
  THRESHOLD_STRUC :: "u32 list"
  SLOPE_STRUC :: "u32 list"

definition dense_struc :: "u32 list \<Rightarrow> u32 list \<Rightarrow> nat \<Rightarrow> nat \<Rightarrow> u32 \<Rightarrow> u32" where
  "dense_struc w x n i bias = fold (\<lambda>j y. y + w ! (i * n + j) * x ! j) [0..<n] bias"

definition hidden_layer_struc :: "net_struc \<Rightarrow> nat \<Rightarrow> nat \<Rightarrow> u32 list \<Rightarrow> u32 list" where
  "hidden_layer_struc net l n x =
     map (\<lambda>i.
       let y = dense_struc (WEIGHTS_STRUC net ! l) x n i (BIASES_STRUC net ! l ! i);
           c = y < THRESHOLD_STRUC net ! (l * 100 + i);
           diff = y - THRESHOLD_STRUC net ! (l * 100 + i);
           quotient = msb32_from_mul (SLOPE_STRUC net ! l) diff
       in if c then 0 else quotient) [0..<100]"

definition mnist32_struc :: "net_struc \<Rightarrow> u32 list \<Rightarrow> nat" where
  "mnist32_struc net x0 =
     (let x1 = hidden_layer_struc net 0 784 x0;
          x2 = hidden_layer_struc net 1 100 x1;
          x3 = hidden_layer_struc net 2 100 x2;
          x4 = hidden_layer_struc net 3 100 x3;
          (m, pos) = fold (\<lambda>i (m, pos).
              let y = dense_struc (WEIGHTS_STRUC net ! 4) x4 100 i (BIASES_STRUC net ! 4 ! i);
                  c = m < y
              in (if c then y else m, if c then i else pos)) [0..<10] (0, 0)
      in pos)"

section \<open>Properties\<close>

lemma LO_take_bit: "LO x = take_bit 16 x"
  by (simp add: LO_def take_bit_eq_mask mask_eq_exp_minus_1)

lemma unat_HI: "unat (HI x) = unat x div 2 ^ 16"
  by (simp add: HI_def drop_bit_eq_div unat_div)

lemma unat_LO: "unat (LO x) = unat x mod 2 ^ 16"
  by (simp add: LO_take_bit take_bit_eq_mod unat_mod)

lemma half_bounds: "unat (HI x) < 2 ^ 16" "unat (LO x) < 2 ^ 16"
  using unsigned_less [of x, where 'a = nat] by (simp_all add: unat_HI unat_LO less_mult_imp_div_less)

text \<open>Products and sums of half words that fit.\<close>

lemma unat_fits_add: "unat a + unat b < 2 ^ 32 \<Longrightarrow> unat (a + b :: u32) = unat a + unat b"
  by (simp add: unat_word_ariths)

lemma unat_fits_mult: "unat a * unat b < 2 ^ 32 \<Longrightarrow> unat (a * b :: u32) = unat a * unat b"
  by (simp add: unat_word_ariths)

lemma half_product:
  assumes "a < 2 ^ 16" "b < (2 :: nat) ^ 16"
  shows "a * b + 2 ^ 17 \<le> 2 ^ 32 + 1"
proof -
  have "a * b \<le> (2 ^ 16 - 1) * (2 ^ 16 - 1)" using assms by (intro mult_mono) auto
  then show ?thesis by simp
qed

lemma HI_LO: "push_bit 16 (HI t) OR LO t = t"
  by (rule bit_word_eqI) (auto simp: HI_def LO_take_bit bit_simps)

text \<open>Schoolbook multiplication in base \<open>B\<close>, the carries added as in the code.\<close>

lemma schoolbook:
  fixes xh xl yh yl B :: nat
  assumes "0 < B"
  defines "t \<equiv> xh * yl + xl * yl div B"
  shows "t div B + xh * yh + (t mod B + xl * yh) div B = (xh * B + xl) * (yh * B + yl) div (B * B)"
proof -
  have "(xh * B + xl) * (yh * B + yl) = (xh * yh * B + xl * yh + xh * yl) * B + xl * yl"
    by (simp add: algebra_simps)
  then have "(xh * B + xl) * (yh * B + yl) div B = xh * yh * B + xl * yh + t"
    using assms(1) by (simp add: t_def div_add1_eq)
  also have "\<dots> = (xh * yh + t div B) * B + (t mod B + xl * yh)"
    using div_mult_mod_eq [of t B] by (simp add: algebra_simps)
  finally have "(xh * B + xl) * (yh * B + yl) div B div B = xh * yh + t div B + (t mod B + xl * yh) div B"
    using assms(1) by simp
  then show ?thesis by (simp add: div_mult2_eq)
qed

lemma unat_msb32_from_mul: "unat (msb32_from_mul x y) = unat x * unat y div 2 ^ 32"
proof -
  note hb = half_bounds [of x] half_bounds [of y]
  let ?B = "2 ^ 16 :: nat"
  let ?t1 = "LO x * LO y" let ?t2 = "HI x * LO y + HI ?t1" let ?t3 = "LO ?t2 + LO x * HI y"
  let ?t4 = "HI ?t2 + HI x * HI y + HI ?t3"
  have b: "unat (LO x) * unat (LO y) < 2 ^ 32" "unat (HI x) * unat (LO y) + ?B < 2 ^ 32"
      "unat (LO x) * unat (HI y) + ?B < 2 ^ 32" "unat (HI x) * unat (HI y) + ?B + ?B \<le> 2 ^ 32 + 1"
    using half_product [OF hb(2,4)] half_product [OF hb(1,4)] half_product [OF hb(2,3)] half_product [OF hb(1,3)]
    by simp_all
  have t1: "unat ?t1 = unat (LO x) * unat (LO y)" using b by (intro unat_fits_mult)
  have m: "unat (HI x * LO y) = unat (HI x) * unat (LO y)" "unat (LO x * HI y) = unat (LO x) * unat (HI y)"
      "unat (HI x * HI y) = unat (HI x) * unat (HI y)"
    using b by (intro unat_fits_mult; simp)+
  have t2: "unat ?t2 = unat (HI x) * unat (LO y) + unat (LO x) * unat (LO y) div ?B"
    using b half_bounds(1) [of ?t1] m t1 by (subst unat_fits_add) (simp_all add: unat_HI)
  have t3: "unat ?t3 = unat ?t2 mod ?B + unat (LO x) * unat (HI y)"
    using b half_bounds(2) [of ?t2] m by (subst unat_fits_add) (simp_all add: unat_LO)
  have s: "unat (HI ?t2 + HI x * HI y) = unat ?t2 div ?B + unat (HI x) * unat (HI y)"
    using b half_bounds(1) [of ?t2] m by (subst unat_fits_add) (simp_all add: unat_HI)
  have "unat ?t2 div ?B + unat (HI x) * unat (HI y) + unat (HI ?t3) < 2 ^ 32"
    using b half_bounds(1) [of ?t2] half_bounds(1) [of ?t3] by (simp add: unat_HI)
  then have "unat ?t4 = unat ?t2 div ?B + unat (HI x) * unat (HI y) + unat ?t3 div ?B"
    using s by (subst unat_fits_add) (simp_all add: unat_HI)
  also have "\<dots> = (unat (HI x) * ?B + unat (LO x)) * (unat (HI y) * ?B + unat (LO y)) div (?B * ?B)"
    unfolding t3 t2 by (rule schoolbook) simp
  also have "\<dots> = unat x * unat y div 2 ^ 32" by (simp add: unat_HI unat_LO)
  finally show ?thesis by (simp add: msb32_from_mul_def Let_def HI_LO)
qed

lemma msb32_from_mul_upper: "msb32_from_mul x y = ucast (drop_bit 32 ((ucast x :: u64) * ucast y))"
proof -
  have "unat x * unat y < 2 ^ 32 * 2 ^ 32"
    using unsigned_less [of x, where 'a = nat] unsigned_less [of y, where 'a = nat] by (intro mult_strict_mono) auto
  then have p: "unat ((ucast x :: u64) * ucast y) = unat x * unat y"
    by (simp add: unat_word_ariths unsigned_ucast_eq take_bit_eq_mod mod_mult_eq)
  have "unat x * unat y div 2 ^ 32 < 2 ^ 32"
    using \<open>unat x * unat y < 2 ^ 32 * 2 ^ 32\<close> by (rule less_mult_imp_div_less)
  then have "unat (ucast (drop_bit 32 ((ucast x :: u64) * ucast y)) :: u32) = unat x * unat y div 2 ^ 32"
    using p by (simp add: unsigned_ucast_eq take_bit_eq_mod drop_bit_eq_div unat_div)
  then show ?thesis using unat_msb32_from_mul [of x y] by (metis word_unat_eq_iff)
qed

text \<open>
  \<^verbatim>\<open>msb32_from_mul\<close>, which only multiplies and adds 32-bit words, is the upper half of
  the 64-bit product that the original program computes, for all operands.
\<close>

theorem msb32_from_mul_correct:
  "msb32_from_mul x y = ucast (drop_bit 32 ((ucast x :: u64) * ucast y)) \<and>
   unat (msb32_from_mul x y) = unat x * unat y div 2 ^ 32"
  by (rule conjI, rule msb32_from_mul_upper, rule unat_msb32_from_mul)

text \<open>The tables of a network with the sizes of the program, and the flat tables.\<close>

definition well_sized :: "net \<Rightarrow> bool" where
  "well_sized net \<longleftrightarrow>
     map length (WEIGHTS net) = [100, 100, 100, 100, 10] \<and>
     (\<forall>r\<in>set (WEIGHTS net ! 0). length r = 784) \<and>
     (\<forall>l\<in>{1..4}. \<forall>r\<in>set (WEIGHTS net ! l). length r = 100) \<and>
     map length (THRESHOLD net) = [100, 100, 100, 100] \<and>
     length (BIASES net) = 5 \<and> length (SLOPE net) = 4"

definition flatten :: "net \<Rightarrow> net_struc" where
  "flatten net =
     \<lparr>WEIGHTS_STRUC = map concat (WEIGHTS net), BIASES_STRUC = BIASES net,
      THRESHOLD_STRUC = concat (THRESHOLD net), SLOPE_STRUC = SLOPE net\<rparr>"

lemma nth_concat_rows:
  "(\<forall>r\<in>set rows. length r = n) \<Longrightarrow> i < length rows \<Longrightarrow> j < n \<Longrightarrow> concat rows ! (i * n + j) = rows ! i ! j"
proof (induction rows arbitrary: i)
  case (Cons r rows)
  then show ?case by (cases i) (auto simp: nth_append)
qed simp

lemma dense_flat:
  assumes "\<forall>r\<in>set rows. length r = n" "i < length rows"
  shows "dense_struc (concat rows) x n i b = dense (rows ! i) x n b"
  unfolding dense_struc_def dense_def
  by (rule fold_cong) (use assms in \<open>auto simp: nth_concat_rows\<close>)

lemma hidden_layer_flat:
  assumes w: "well_sized net" and l: "l < 4" and n: "n = (if l = 0 then 784 else 100)"
  shows "hidden_layer_struc (flatten net) l n x = hidden_layer net l n x"
proof -
  have rows: "\<forall>r\<in>set (WEIGHTS net ! l). length r = n" "length (WEIGHTS net ! l) = 100" "l < length (WEIGHTS net)"
  proof -
    have len: "length (WEIGHTS net) = 5" using w arg_cong [of _ _ length] by (fastforce simp: well_sized_def)
    then have "length (WEIGHTS net ! l) = map length (WEIGHTS net) ! l" using l by simp
    also have "\<dots> = 100" using w l by (auto simp: well_sized_def less_Suc_eq numeral_eq_Suc)
    finally show "length (WEIGHTS net ! l) = 100" .
    show "\<forall>r\<in>set (WEIGHTS net ! l). length r = n" using w l n by (auto simp: well_sized_def)
    show "l < length (WEIGHTS net)" using l len by simp
  qed
  have th: "concat (THRESHOLD net) ! (l * 100 + i) = THRESHOLD net ! l ! i" if "i < 100" for i
  proof (rule nth_concat_rows)
    have "set (map length (THRESHOLD net)) = {100}" using w by (simp add: well_sized_def)
    then show "\<forall>r\<in>set (THRESHOLD net). length r = 100" by auto
    have "length (THRESHOLD net) = 4" using w arg_cong [of _ _ length] by (fastforce simp: well_sized_def)
    then show "l < length (THRESHOLD net)" using l by simp
  qed (fact that)
  show ?thesis
    unfolding hidden_layer_struc_def hidden_layer_def
    using rows th msb32_from_mul_upper
    by (auto simp: flatten_def activation_def dense_flat Let_def)
qed

lemma BIASES_flatten: "BIASES_STRUC (flatten net) = BIASES net"
  by (simp add: flatten_def)

lemma output_layer_flat:
  assumes w: "well_sized net" and i: "i < 10"
  shows "dense_struc (WEIGHTS_STRUC (flatten net) ! 4) x 100 i b = dense (WEIGHTS net ! 4 ! i) x 100 b"
proof -
  have len: "length (WEIGHTS net) = 5" using w arg_cong [of _ _ length] by (fastforce simp: well_sized_def)
  then have "length (WEIGHTS net ! 4) = map length (WEIGHTS net) ! 4" by simp
  also have "\<dots> = 10" using w by (simp add: well_sized_def)
  finally show ?thesis using w i len by (subst dense_flat [symmetric]) (auto simp: flatten_def well_sized_def)
qed

text \<open>
  C38: the restructured program, on the tables laid out flat, returns the class the original
  program returns, for every network of the program's sizes and every image; the class is a
  digit.
\<close>

theorem mnist32_struc_eq:
  assumes "well_sized net"
  shows "mnist32_struc (flatten net) x0 = mnist32 net x0 \<and> mnist32 net x0 < 10"
proof
  let ?x = "hidden_layer net 3 100 (hidden_layer net 2 100 (hidden_layer net 1 100 (hidden_layer net 0 784 x0)))"
  let ?f = "\<lambda>i (m, pos). let y = dense (WEIGHTS net ! 4 ! i) ?x 100 (BIASES net ! 4 ! i)
      in if y > m then (y, i) else (m, pos)"
  have "fold (\<lambda>i (m, pos).
        let y = dense_struc (WEIGHTS_STRUC (flatten net) ! 4) ?x 100 i (BIASES_STRUC (flatten net) ! 4 ! i); c = m < y
        in (if c then y else m, if c then i else pos)) [0..<10] (0, 0) = fold ?f [0..<10] (0, 0)"
    by (rule fold_cong) (auto simp: output_layer_flat [OF assms] Let_def BIASES_flatten)
  then show "mnist32_struc (flatten net) x0 = mnist32 net x0"
    using assms by (simp add: mnist32_struc_def mnist32_def hidden_layer_flat Let_def del: upt_rec_numeral)
  have "snd (fold ?f [0..<10] (0, 0)) < 10"
    by (rule fold_invariant_set [where P = "\<lambda>s. snd s < 10"]) (auto simp: Let_def split: prod.splits)
  then show "mnist32 net x0 < 10" by (simp add: mnist32_def Let_def case_prod_beta del: upt_rec_numeral)
qed

text \<open>A network of the program's sizes.\<close>

definition constant_net :: net where
  "constant_net =
     \<lparr>WEIGHTS = replicate 100 (replicate 784 1) # replicate 3 (replicate 100 (replicate 100 1)) @
                 [replicate 10 (replicate 100 1)],
      BIASES = replicate 5 (replicate 100 0), THRESHOLD = replicate 4 (replicate 100 7), SLOPE = replicate 4 9\<rparr>"

lemma well_sized_constant_net: "well_sized constant_net"
proof -
  have "\<forall>r\<in>set (WEIGHTS constant_net ! l). length r = 100" if "l \<in> {1..4}" for l
  proof -
    have "l \<in> {1, 2, 3, 4}" using that by auto
    then show ?thesis by (auto simp: constant_net_def numeral_eq_Suc)
  qed
  then show ?thesis by (auto simp: well_sized_def constant_net_def numeral_eq_Suc)
qed

theorem mnist32_struc_eq_witness:
  "mnist32_struc (flatten constant_net) (replicate 784 1) = mnist32 constant_net (replicate 784 1)"
  using mnist32_struc_eq [OF well_sized_constant_net] by blast

text \<open>
  No value leaves an activation that is not smaller than the slope of its layer, so that
  the inputs of the next layer are bounded, whatever the 32-bit sums have wrapped around to.
\<close>

theorem hidden_layer_bounded:
  assumes "v \<in> set (hidden_layer net l n x)" and "0 < SLOPE net ! l"
  shows "v < SLOPE net ! l"
proof -
  obtain i where v: "v = activation net l i (dense (WEIGHTS net ! l ! i) x n (BIASES net ! l ! i))"
    using assms(1) by (auto simp: hidden_layer_def)
  have "msb32_from_mul (SLOPE net ! l) d < SLOPE net ! l" for d
  proof -
    have "unat (SLOPE net ! l) * unat d < unat (SLOPE net ! l) * 2 ^ 32"
      using assms(2) unsigned_less [of d, where 'a = nat] by (simp add: unat_gt_0 word_greater_zero_iff)
    then show ?thesis by (simp add: word_less_nat_alt unat_msb32_from_mul less_mult_imp_div_less)
  qed
  then show ?thesis using assms(2) by (auto simp: v activation_def Let_def simp flip: msb32_from_mul_upper)
qed

theorem hidden_layer_bounded_witness:
  "hidden_layer constant_net 1 100 (replicate 100 5) ! 0 < 9"
proof -
  have "SLOPE constant_net ! 1 = 9" by (simp add: constant_net_def numeral_eq_Suc)
  moreover have "hidden_layer constant_net 1 100 (replicate 100 5) ! 0 \<in>
      set (hidden_layer constant_net 1 100 (replicate 100 5))"
    by (rule nth_mem) (simp add: hidden_layer_def)
  ultimately show ?thesis using hidden_layer_bounded [of _ constant_net 1 100 "replicate 100 5"] by simp
qed

end
