(* ===== verification/Key_Sched.thy ===== *)
theory Key_Sched
  imports Prelude
begin

text \<open>
  The AES-128 key schedule \<^verbatim>\<open>programs/tracingAES/key_sched.c\<close>, which prepares the round keys
  for the tracing AES program. The output array of 176 bytes is a list that the loop updates
  in place, as the code does.
\<close>

section \<open>The code\<close>

definition sbox :: "u8 list" where
  "sbox =
     [0x63, 0x7C, 0x77, 0x7B, 0xF2, 0x6B, 0x6F, 0xC5, 0x30, 0x01, 0x67, 0x2B,
      0xFE, 0xD7, 0xAB, 0x76, 0xCA, 0x82, 0xC9, 0x7D, 0xFA, 0x59, 0x47, 0xF0,
      0xAD, 0xD4, 0xA2, 0xAF, 0x9C, 0xA4, 0x72, 0xC0, 0xB7, 0xFD, 0x93, 0x26,
      0x36, 0x3F, 0xF7, 0xCC, 0x34, 0xA5, 0xE5, 0xF1, 0x71, 0xD8, 0x31, 0x15,
      0x04, 0xC7, 0x23, 0xC3, 0x18, 0x96, 0x05, 0x9A, 0x07, 0x12, 0x80, 0xE2,
      0xEB, 0x27, 0xB2, 0x75, 0x09, 0x83, 0x2C, 0x1A, 0x1B, 0x6E, 0x5A, 0xA0,
      0x52, 0x3B, 0xD6, 0xB3, 0x29, 0xE3, 0x2F, 0x84, 0x53, 0xD1, 0x00, 0xED,
      0x20, 0xFC, 0xB1, 0x5B, 0x6A, 0xCB, 0xBE, 0x39, 0x4A, 0x4C, 0x58, 0xCF,
      0xD0, 0xEF, 0xAA, 0xFB, 0x43, 0x4D, 0x33, 0x85, 0x45, 0xF9, 0x02, 0x7F,
      0x50, 0x3C, 0x9F, 0xA8, 0x51, 0xA3, 0x40, 0x8F, 0x92, 0x9D, 0x38, 0xF5,
      0xBC, 0xB6, 0xDA, 0x21, 0x10, 0xFF, 0xF3, 0xD2, 0xCD, 0x0C, 0x13, 0xEC,
      0x5F, 0x97, 0x44, 0x17, 0xC4, 0xA7, 0x7E, 0x3D, 0x64, 0x5D, 0x19, 0x73,
      0x60, 0x81, 0x4F, 0xDC, 0x22, 0x2A, 0x90, 0x88, 0x46, 0xEE, 0xB8, 0x14,
      0xDE, 0x5E, 0x0B, 0xDB, 0xE0, 0x32, 0x3A, 0x0A, 0x49, 0x06, 0x24, 0x5C,
      0xC2, 0xD3, 0xAC, 0x62, 0x91, 0x95, 0xE4, 0x79, 0xE7, 0xC8, 0x37, 0x6D,
      0x8D, 0xD5, 0x4E, 0xA9, 0x6C, 0x56, 0xF4, 0xEA, 0x65, 0x7A, 0xAE, 0x08,
      0xBA, 0x78, 0x25, 0x2E, 0x1C, 0xA6, 0xB4, 0xC6, 0xE8, 0xDD, 0x74, 0x1F,
      0x4B, 0xBD, 0x8B, 0x8A, 0x70, 0x3E, 0xB5, 0x66, 0x48, 0x03, 0xF6, 0x0E,
      0x61, 0x35, 0x57, 0xB9, 0x86, 0xC1, 0x1D, 0x9E, 0xE1, 0xF8, 0x98, 0x11,
      0x69, 0xD9, 0x8E, 0x94, 0x9B, 0x1E, 0x87, 0xE9, 0xCE, 0x55, 0x28, 0xDF,
      0x8C, 0xA1, 0x89, 0x0D, 0xBF, 0xE6, 0x42, 0x68, 0x41, 0x99, 0x2D, 0x0F,
      0xB0, 0x54, 0xBB, 0x16]"

definition rcon :: "u8 list" where
  "rcon = [0x8d, 0x01, 0x02, 0x04, 0x08, 0x10, 0x20, 0x40, 0x80, 0x1b, 0x36]"

definition rotate_word :: "u8 list \<Rightarrow> u8 list" where
  "rotate_word a = (let tmp = a ! 0; a = fold (\<lambda>i a. a[i := a ! (i + 1)]) [0..<3] a in a[3 := tmp])"

definition sched_core :: "u8 list \<Rightarrow> nat \<Rightarrow> u8 list" where
  "sched_core a i =
     (let a = rotate_word a;
          a = fold (\<lambda>j a. a[j := sbox ! unat (a ! j)]) [0..<4] a
      in a[0 := a ! 0 XOR rcon ! i])"

text \<open>\<^verbatim>\<open>memcpy(tmp,&out[c-4],4)\<close>, and the loop that writes the next word.\<close>

definition last_word :: "nat \<Rightarrow> u8 list \<Rightarrow> u8 list" where
  "last_word c out = take 4 (drop (c - 4) out)"

definition next_word :: "nat \<Rightarrow> u8 list \<Rightarrow> u8 list \<Rightarrow> u8 list" where
  "next_word c tmp out = fold (\<lambda>k out. out[c + k := out ! (c + k - 16) XOR tmp ! k]) [0..<4] out"

function sched_loop :: "nat \<Rightarrow> nat \<Rightarrow> u8 list \<Rightarrow> u8 list" where
  "sched_loop c i out =
     (if c < 176 then
        let out = next_word c (sched_core (last_word c out) i) out;
            c = c + 4;
            (c, out) = fold (\<lambda>j (c, out). (c + 4, next_word c (last_word c out) out)) [0..<3] (c, out)
        in sched_loop c (i + 1) out
      else out)"
  by pat_completeness auto
termination
  by (relation "measure (\<lambda>(c, _). 176 - c)") (auto simp: upt_rec)

declare sched_loop.simps [simp del]

definition key_sched :: "u8 list \<Rightarrow> u8 list" where
  "key_sched key = sched_loop 16 1 (key @ replicate 160 0)"

section \<open>The specification\<close>

text \<open>
  The expanded key as the standard defines it, word by word: a word is the exclusive or of the
  word four before it and of the word before it, which is rotated, substituted and combined
  with the next power of \<open>x\<close> at every fourth word.
\<close>

definition xtime :: "u8 \<Rightarrow> u8" where
  "xtime a = (if bit a 7 then push_bit 1 a XOR 0x1b else push_bit 1 a)"

definition Rcon :: "nat \<Rightarrow> u8" where
  "Rcon j = (xtime ^^ (j - 1)) 1"

definition SubWord :: "u8 list \<Rightarrow> u8 list" where
  "SubWord = map (\<lambda>b. sbox ! unat b)"

function key_word :: "u8 list \<Rightarrow> nat \<Rightarrow> u8 list" where
  "key_word key i =
     (if i < 4 then take 4 (drop (4 * i) key)
      else xor_list (key_word key (i - 4))
             (if i mod 4 = 0
              then xor_list (SubWord (rotate1 (key_word key (i - 1)))) [Rcon (i div 4), 0, 0, 0]
              else key_word key (i - 1)))"
  by pat_completeness auto
termination
  by (relation "measure snd") auto

declare key_word.simps [simp del]

section \<open>Lemmas\<close>

lemma upt_3: "[0..<3] = [0, 1, 2]" and upt_4: "[0..<4] = [0, 1, 2, 3]"
  by (simp_all add: upt_rec numeral_eq_Suc)

lemma funpow_numeral: "(f ^^ numeral n) x = f ((f ^^ pred_numeral n) x)"
  by (simp add: numeral_eq_Suc)

lemma xtime_powers:
  "xtime 1 = 2" "xtime 2 = 4" "xtime 4 = 8" "xtime 8 = 16" "xtime 16 = 32" "xtime 32 = 64" "xtime 64 = 128"
  "xtime 128 = 27" "xtime 27 = 54"
  by (simp_all add: xtime_def)

lemma rcon_powers: "j \<in> {1..10} \<Longrightarrow> rcon ! j = Rcon j"
proof -
  assume "j \<in> {1..10}"
  then have "j \<in> {1, 2, 3, 4, 5, 6, 7, 8, 9, 10}" by simp presburger
  then show ?thesis 
    by (elim insertE emptyE) (simp_all add: rcon_def Rcon_def xtime_powers funpow_numeral)
qed

lemma sched_core_eq:
  assumes "length a = 4"
  shows "sched_core a i = xor_list (SubWord (rotate1 a)) [rcon ! i, 0, 0, 0]"
proof -
  obtain p q r t where "a = [p, q, r, t]" using assms by (auto simp: numeral_eq_Suc length_Suc_conv)
  then show ?thesis
    by (simp add: sched_core_def rotate_word_def SubWord_def upt_3 upt_4 numeral_eq_Suc)
qed

lemma next_word_eq:
  assumes "length tmp = 4" "16 \<le> c" "c + 4 \<le> length out"
  shows "next_word c tmp out =
    take c out @ xor_list (take 4 (drop (c - 16) out)) tmp @ drop (c + 4) out"
proof (rule nth_equalityI)
  show "length (next_word c tmp out) =
      length (take c out @ xor_list (take 4 (drop (c - 16) out)) tmp @ drop (c + 4) out)"
    using assms by (simp add: next_word_def upt_4)
  fix i assume "i < length (next_word c tmp out)"
  then have i: "i < length out" by (simp add: next_word_def upt_4)
  consider "i < c" | k where "i = c + k" "k \<in> {0, 1, 2, 3}" | "c + 4 \<le> i"
  proof (cases "i < c \<or> c + 4 \<le> i")
    case False
    then have "i = c + (i - c)" "i - c = 0 \<or> i - c = 1 \<or> i - c = 2 \<or> i - c = 3" by linarith+
    then show ?thesis using that(2) [of "i - c"] by auto
  qed (use that in auto)
  then show "next_word c tmp out ! i =
      (take c out @ xor_list (take 4 (drop (c - 16) out)) tmp @ drop (c + 4) out) ! i"
  proof cases
    case 1
    then show ?thesis using assms by (simp add: next_word_def upt_4 nth_append)
  next
    case 2
    then show ?thesis using assms i by (auto simp: next_word_def upt_4 nth_append)
  next
    case 3
    then have "\<not> i - c < 4" by simp
    then show ?thesis using 3 assms i by (simp add: next_word_def upt_4 nth_append)
  qed
qed

text \<open>The first \<open>q\<close> words are right.\<close>

definition expanded :: "u8 list \<Rightarrow> nat \<Rightarrow> u8 list \<Rightarrow> bool" where
  "expanded key q out \<longleftrightarrow> length out = 176 \<and> (\<forall>i<q. take 4 (drop (4 * i) out) = key_word key i)"

lemma expanded_next:
  assumes "expanded key q out" "4 \<le> q" "q < 44" "length t = 4" "xor_list (key_word key (q - 4)) t = key_word key q"
  shows "expanded key (Suc q) (next_word (4 * q) t out)"
proof -
  have word_before: "take 4 (drop (4 * q - 16) out) = key_word key (q - 4)"
    using assms spec [of "\<lambda>i. i < q \<longrightarrow> take 4 (drop (4 * i) out) = key_word key i" "q - 4"]
    by (simp add: expanded_def right_diff_distrib')
  have n: "next_word (4 * q) t out = take (4 * q) out @ key_word key q @ drop (4 * q + 4) out"
    using assms word_before by (subst next_word_eq) (auto simp: expanded_def)
  have len: "length out = 176" "length (key_word key q) = 4"
    using assms arg_cong [OF word_before, of length] by (auto simp: expanded_def simp flip: assms(5))
  have "take 4 (drop (4 * i) (next_word (4 * q) t out)) = key_word key i" if "i < Suc q" for i
  proof (cases "i = q")
    case False
    then have i: "i < q" using that by simp
    then have "4 * i + 4 \<le> 4 * q" "4 \<le> 4 * q - 4 * i" by simp_all
    then have "take 4 (drop (4 * i) (next_word (4 * q) t out)) = take 4 (drop (4 * i) out)"
      unfolding n using len assms(3) by (simp add: drop_take min_def)
    then show ?thesis using assms(1) i by (simp add: expanded_def)
  qed (use n len assms(3) in simp)
  then show ?thesis using n len assms(3) by (simp add: expanded_def)
qed

lemma last_word_expanded: "expanded key q out \<Longrightarrow> 4 \<le> q \<Longrightarrow> last_word (4 * q) out = key_word key (q - 1)"
  using spec [of "\<lambda>i. i < q \<longrightarrow> take 4 (drop (4 * i) out) = key_word key i" "q - 1"]
  by (simp add: expanded_def last_word_def right_diff_distrib')

lemma length_key_word: "length key = 16 \<Longrightarrow> length (key_word key i) = 4"
proof (induction key i rule: key_word.induct)
  case (1 key i)
  then show ?case by (subst key_word.simps) (auto simp: SubWord_def)
qed

lemma sched_round:
  assumes "expanded key (4 * j) out" "1 \<le> j" "j \<le> 10" "length key = 16"
  shows "\<exists>out'. sched_loop (16 * j) j out = sched_loop (16 * (j + 1)) (j + 1) out' \<and> expanded key (4 * (j + 1)) out'"
proof -
  let ?q = "4 * j"
  let ?o1 = "next_word (4 * ?q) (sched_core (last_word (4 * ?q) out) j) out"
  let ?o = "\<lambda>q out. next_word (4 * q) (last_word (4 * q) out) out"
  have e1: "expanded key (Suc ?q) ?o1"
  proof (rule expanded_next [OF assms(1)])
    have "key_word key ?q = xor_list (key_word key (?q - 4))
        (xor_list (SubWord (rotate1 (key_word key (?q - 1)))) [Rcon j, 0, 0, 0])"
      using assms by (subst key_word.simps) simp
    then show "xor_list (key_word key (?q - 4)) (sched_core (last_word (4 * ?q) out) j) = key_word key ?q"
      using assms last_word_expanded [OF assms(1)] by (simp add: sched_core_eq length_key_word rcon_powers)
  qed (use assms last_word_expanded [OF assms(1)] in \<open>simp_all add: sched_core_eq length_key_word SubWord_def\<close>)
  have step: "expanded key (Suc q) (?o q o')" if "expanded key q o'" "q mod 4 \<noteq> 0" "4 \<le> q" "q < 44" for q o'
  proof (rule expanded_next [OF that(1,3,4)])
    show "xor_list (key_word key (q - 4)) (last_word (4 * q) o') = key_word key q"
      using that by (subst key_word.simps [of key q]) (simp add: last_word_expanded)
  qed (use that assms in \<open>simp add: last_word_expanded length_key_word\<close>)
  have m: "Suc ?q mod 4 = 1" "Suc (Suc ?q) mod 4 = 2" "Suc (Suc (Suc ?q)) mod 4 = 3" by presburger+
  let ?o2 = "?o (Suc ?q) ?o1" let ?o3 = "?o (Suc (Suc ?q)) ?o2" let ?o4 = "?o (Suc (Suc (Suc ?q))) ?o3"
  have e2: "expanded key (Suc (Suc ?q)) ?o2" by (rule step [OF e1]) (use m assms in simp_all)
  have e3: "expanded key (Suc (Suc (Suc ?q))) ?o3" by (rule step [OF e2]) (use m assms in simp_all)
  have "expanded key (Suc (Suc (Suc (Suc ?q)))) ?o4" by (rule step [OF e3]) (use m assms in simp_all)
  moreover have "sched_loop (16 * j) j out = sched_loop (16 * (j + 1)) (j + 1) ?o4"
    using assms by (subst sched_loop.simps) (simp add: upt_3 Let_def algebra_simps)
  moreover have "4 * (j + 1) = Suc (Suc (Suc (Suc ?q)))" by simp
  ultimately show ?thesis by metis
qed

lemma sched_loop_expanded:
  assumes "length key = 16"
  shows "expanded key (4 * j) out \<Longrightarrow> 1 \<le> j \<Longrightarrow> j \<le> 11 \<Longrightarrow> expanded key 44 (sched_loop (16 * j) j out)"
proof (induction "11 - j" arbitrary: j out)
  case 0
  then show ?case by (simp add: sched_loop.simps)
next
  case (Suc k)
  then obtain o' where o': "sched_loop (16 * j) j out = sched_loop (16 * (j + 1)) (j + 1) o'"
      "expanded key (4 * (j + 1)) o'"
    using sched_round [of key j out] assms by fastforce
  show ?case using Suc.hyps(1) [OF _ o'(2)] Suc.hyps(2) Suc.prems o'(1) by simp
qed

lemma concat_words:
  "length xs = 4 * n \<Longrightarrow> xs = concat (map (\<lambda>i. take 4 (drop (4 * i) xs)) [0..<n])"
proof (induction n arbitrary: xs)
  case (Suc n)
  have "map (\<lambda>i. take 4 (drop (4 * i) xs)) [0..<Suc n] =
      take 4 xs # map (\<lambda>i. take 4 (drop (4 * i) (drop 4 xs))) [0..<n]"
    by (simp add: upt_conv_Cons del: upt_Suc) (simp add: map_Suc_upt [symmetric] comp_def add.commute del: upt_Suc map_Suc_upt)
  then show ?case using Suc.IH [of "drop 4 xs"] Suc.prems by (simp del: upt_Suc) (metis append_take_drop_id)
qed simp

lemma key_sched_words:
  assumes "length key = 16"
  shows "key_sched key = concat (map (key_word key) [0..<44])"
proof -
  let ?o = "key_sched key"
  have "take 4 (drop (4 * i) (key @ replicate 160 0)) = key_word key i" if "i < 4" for i
  proof -
    have "4 * i + 4 \<le> 16" using that by simp
    then show ?thesis using assms that by (subst key_word.simps) simp
  qed
  then have "expanded key (4 * 1) (key @ replicate 160 0)" using assms by (simp add: expanded_def)
  from sched_loop_expanded [OF assms this] have e: "expanded key 44 ?o" by (simp add: key_sched_def)
  then have "?o = concat (map (\<lambda>i. take 4 (drop (4 * i) ?o)) [0..<44])"
    by (intro concat_words) (simp add: expanded_def)
  also have "map (\<lambda>i. take 4 (drop (4 * i) ?o)) [0..<44] = map (key_word key) [0..<44]"
    using e by (auto simp: expanded_def simp del: upt_rec_numeral)
  finally show ?thesis .
qed

text \<open>
  \<^verbatim>\<open>key_sched\<close> writes the 44 words of the key expansion of AES-128, for every key of 16
  bytes: all 176 bytes are written and none outside the array.
\<close>

theorem key_sched_correct:
  assumes "length key = 16"
  shows "key_sched key = concat (map (key_word key) [0..<44])"
  using assms by (rule key_sched_words)

theorem key_sched_correct_witness:
  "length (replicate 16 (0 :: u8)) = 16 \<and>
   key_sched (replicate 16 0) = concat (map (key_word (replicate 16 0)) [0..<44])"
  using key_sched_correct [of "replicate 16 0"] by simp

end
