(* ===== verification/AES_Sbox.thy ===== *)
theory AES_Sbox
  imports Key_Sched
begin

text \<open>
  The substitution table of \<^verbatim>\<open>key_sched.c\<close> against the definition of the standard: the inverse in
  the field of 256 elements, followed by an affine map over the bits.
\<close>

section \<open>The specification\<close>

text \<open>Multiplication in the field, by the bits of the second factor from the highest on.\<close>

definition gf_step :: "u8 \<Rightarrow> u8 \<Rightarrow> nat \<Rightarrow> u8 \<Rightarrow> u8" where
  "gf_step a b n r = xtime r XOR (if bit b n then a else 0)"

definition gf_mult :: "u8 \<Rightarrow> u8 \<Rightarrow> u8" where
  "gf_mult a b = fold (gf_step a b) [7, 6, 5, 4, 3, 2, 1, 0] 0"

definition rotl8 :: "nat \<Rightarrow> u8 \<Rightarrow> u8" where
  "rotl8 n c = push_bit n c OR drop_bit (8 - n) c"

definition affine :: "u8 \<Rightarrow> u8" where
  "affine c = c XOR rotl8 1 c XOR rotl8 2 c XOR rotl8 3 c XOR rotl8 4 c XOR 0x63"

section \<open>Lemmas\<close>

lemma length_sbox: "length sbox = 256"
  by (simp add: sbox_def)

lemma all_bytes:
  "map word_of_nat [0..<256] = ([0, 1, 2, 3, 4, 5, 6, 7, 8, 9, 10, 11, 12, 13, 14, 15, 16, 17, 18, 19,
      20, 21, 22, 23, 24, 25, 26, 27, 28, 29, 30, 31, 32, 33, 34, 35, 36, 37, 38, 39,
      40, 41, 42, 43, 44, 45, 46, 47, 48, 49, 50, 51, 52, 53, 54, 55, 56, 57, 58, 59,
      60, 61, 62, 63, 64, 65, 66, 67, 68, 69, 70, 71, 72, 73, 74, 75, 76, 77, 78, 79,
      80, 81, 82, 83, 84, 85, 86, 87, 88, 89, 90, 91, 92, 93, 94, 95, 96, 97, 98, 99,
      100, 101, 102, 103, 104, 105, 106, 107, 108, 109, 110, 111, 112, 113, 114, 115, 116, 117, 118, 119,
      120, 121, 122, 123, 124, 125, 126, 127, 128, 129, 130, 131, 132, 133, 134, 135, 136, 137, 138, 139,
      140, 141, 142, 143, 144, 145, 146, 147, 148, 149, 150, 151, 152, 153, 154, 155, 156, 157, 158, 159,
      160, 161, 162, 163, 164, 165, 166, 167, 168, 169, 170, 171, 172, 173, 174, 175, 176, 177, 178, 179,
      180, 181, 182, 183, 184, 185, 186, 187, 188, 189, 190, 191, 192, 193, 194, 195, 196, 197, 198, 199,
      200, 201, 202, 203, 204, 205, 206, 207, 208, 209, 210, 211, 212, 213, 214, 215, 216, 217, 218, 219,
      220, 221, 222, 223, 224, 225, 226, 227, 228, 229, 230, 231, 232, 233, 234, 235, 236, 237, 238, 239,
      240, 241, 242, 243, 244, 245, 246, 247, 248, 249, 250, 251, 252, 253, 254, 255] :: u8 list)"
  by (simp add: upt_rec)

definition inverses :: "u8 list" where
  "inverses =
     [0x00, 0x01, 0x8d, 0xf6, 0xcb, 0x52, 0x7b, 0xd1, 0xe8, 0x4f, 0x29, 0xc0, 0xb0, 0xe1, 0xe5, 0xc7,
      0x74, 0xb4, 0xaa, 0x4b, 0x99, 0x2b, 0x60, 0x5f, 0x58, 0x3f, 0xfd, 0xcc, 0xff, 0x40, 0xee, 0xb2,
      0x3a, 0x6e, 0x5a, 0xf1, 0x55, 0x4d, 0xa8, 0xc9, 0xc1, 0x0a, 0x98, 0x15, 0x30, 0x44, 0xa2, 0xc2,
      0x2c, 0x45, 0x92, 0x6c, 0xf3, 0x39, 0x66, 0x42, 0xf2, 0x35, 0x20, 0x6f, 0x77, 0xbb, 0x59, 0x19,
      0x1d, 0xfe, 0x37, 0x67, 0x2d, 0x31, 0xf5, 0x69, 0xa7, 0x64, 0xab, 0x13, 0x54, 0x25, 0xe9, 0x09,
      0xed, 0x5c, 0x05, 0xca, 0x4c, 0x24, 0x87, 0xbf, 0x18, 0x3e, 0x22, 0xf0, 0x51, 0xec, 0x61, 0x17,
      0x16, 0x5e, 0xaf, 0xd3, 0x49, 0xa6, 0x36, 0x43, 0xf4, 0x47, 0x91, 0xdf, 0x33, 0x93, 0x21, 0x3b,
      0x79, 0xb7, 0x97, 0x85, 0x10, 0xb5, 0xba, 0x3c, 0xb6, 0x70, 0xd0, 0x06, 0xa1, 0xfa, 0x81, 0x82,
      0x83, 0x7e, 0x7f, 0x80, 0x96, 0x73, 0xbe, 0x56, 0x9b, 0x9e, 0x95, 0xd9, 0xf7, 0x02, 0xb9, 0xa4,
      0xde, 0x6a, 0x32, 0x6d, 0xd8, 0x8a, 0x84, 0x72, 0x2a, 0x14, 0x9f, 0x88, 0xf9, 0xdc, 0x89, 0x9a,
      0xfb, 0x7c, 0x2e, 0xc3, 0x8f, 0xb8, 0x65, 0x48, 0x26, 0xc8, 0x12, 0x4a, 0xce, 0xe7, 0xd2, 0x62,
      0x0c, 0xe0, 0x1f, 0xef, 0x11, 0x75, 0x78, 0x71, 0xa5, 0x8e, 0x76, 0x3d, 0xbd, 0xbc, 0x86, 0x57,
      0x0b, 0x28, 0x2f, 0xa3, 0xda, 0xd4, 0xe4, 0x0f, 0xa9, 0x27, 0x53, 0x04, 0x1b, 0xfc, 0xac, 0xe6,
      0x7a, 0x07, 0xae, 0x63, 0xc5, 0xdb, 0xe2, 0xea, 0x94, 0x8b, 0xc4, 0xd5, 0x9d, 0xf8, 0x90, 0x6b,
      0xb1, 0x0d, 0xd6, 0xeb, 0xc6, 0x0e, 0xcf, 0xad, 0x08, 0x4e, 0xd7, 0xe3, 0x5d, 0x50, 0x1e, 0xb3,
      0x5b, 0x23, 0x38, 0x34, 0x68, 0x46, 0x03, 0x8c, 0xdd, 0x9c, 0x7d, 0xa0, 0xcd, 0x1a, 0x41, 0x1c]"

lemma inverses_mult:
  "list_all2 (\<lambda>b c. b \<noteq> 0 \<longrightarrow> gf_mult b c = 1) (map word_of_nat [0..<256]) inverses"
  unfolding all_bytes inverses_def
  by (intro list.rel_intros; simp add: gf_mult_def gf_step_def xtime_def)

lemma sbox_affine: "sbox = map affine inverses"
  unfolding sbox_def inverses_def by (simp add: affine_def rotl8_def)

lemma length_inverses: "length inverses = 256"
  by (simp add: inverses_def)

text \<open>
  The table is the substitution of the standard: 0 is mapped as itself, any other byte by the
  byte that it has the product 1 with.
\<close>

theorem sbox_standard:
  "sbox ! unat b = affine 0 \<and> b = 0 \<or> (\<exists>c. gf_mult b c = 1 \<and> sbox ! unat b = affine c)"
proof (cases "b = 0")
  case False
  have b: "unat b < 256" using unsigned_less [of b, where ?'a = nat] by simp
  have "map word_of_nat [0..<256] ! unat b \<noteq> (0 :: u8) \<longrightarrow>
      gf_mult (map word_of_nat [0..<256] ! unat b) (inverses ! unat b) = 1"
    using b by (intro list_all2_nthD2 [OF inverses_mult]) (simp only: length_inverses)
  moreover have "map word_of_nat [0..<256] ! unat b = b" using b by (simp del: upt_rec_numeral)
  ultimately have "gf_mult b (inverses ! unat b) = 1" using False by (simp only:) simp
  moreover have "sbox ! unat b = affine (inverses ! unat b)"
    using b by (simp add: sbox_affine length_inverses)
  ultimately show ?thesis by blast
qed (simp add: sbox_def affine_def rotl8_def)

end
