(* ===== verification/AES_Circuit.thy ===== *)
theory AES_Circuit
  imports AES_Sbox
begin

text \<open>
  The function \<^verbatim>\<open>AES\<close> of \<^verbatim>\<open>programs/tracingAES/tracingAES.c\<close>, a bit-sliced AES-128 encryption
  unrolled into 5,885 assignments. The 16 bytes of the block are spread over eight words: bit
  \<open>15 - p\<close> of word \<open>k\<close> is bit \<open>7 - k\<close> of the byte in row \<open>p div 4\<close> and column \<open>p mod 4\<close> of the
  state of the standard, and the upper half of each word carries nothing.

  The assignments are ten copies of the same three blocks, \<^verbatim>\<open>SubBytes__V16\<close>, \<^verbatim>\<open>ShiftRows__V16\<close> and
  \<^verbatim>\<open>MixColumn__V16\<close> (the last round has no \<^verbatim>\<open>MixColumn__V16\<close>), which differ only in the number of the
  copy that the names of the temporaries carry, interleaved by an instruction scheduler; each
  temporary is assigned once. One definition here is one block, its assignments in the order
  and under the names of the first copy.
\<close>

section \<open>The code\<close>

text \<open>
  The gates of \<^verbatim>\<open>SubBytes__V16\<close> are bitwise, so that the block is stated for words of any width; the
  code runs it on \<^typ>\<open>u32\<close>.
\<close>

definition SubBytes__V16 :: "'a::len word list \<Rightarrow> 'a word list" where
  "SubBytes__V16 xs =
     (let
        x0 = xs ! 0; x1 = xs ! 1; x2 = xs ! 2; x3 = xs ! 3; x4 = xs ! 4; x5 = xs ! 5;
        x6 = xs ! 6; x7 = xs ! 7; t0 = x1 XOR x2; y9 = x0 XOR x3; y14 = x3 XOR x5;
        y8 = x0 XOR x5; y13 = x0 XOR x6; y1 = t0 XOR x7; y12 = y13 XOR y14; y4 = y1 XOR x3;
        y2 = y1 XOR x0; y5 = y1 XOR x6; t1 = x4 XOR y12; t5 = y4 AND x7; y3 = y5 XOR y8;
        t8 = y5 AND y1; y15 = t1 XOR x5; y20 = t1 XOR x1; y6 = y15 XOR x7; y10 = y15 XOR t0;
        t2 = y12 AND y15; y11 = y20 XOR y9; t3 = y3 AND y6; y19 = y10 XOR y8; t15 = y8 AND y10;
        t6 = t5 XOR t2; y7 = x7 XOR y11; y17 = y10 XOR y11; y16 = t0 XOR y11; t12 = y9 AND y11;
        t4 = t3 XOR t2; t10 = y2 AND y7; t13 = y14 AND y17; y21 = y13 XOR y16; y18 = x0 XOR y16;
        t7 = y13 AND y16; t16 = t15 XOR t12; t17 = t4 XOR y20; t14 = t13 XOR t12; t9 = t8 XOR t7;
        t11 = t10 XOR t7; t18 = t6 XOR t16; t21 = t17 XOR t14; t19 = t9 XOR t14;
        t20 = t11 XOR t16; t22 = t18 XOR y19; t23 = t19 XOR y21; t24 = t20 XOR y18;
        t25 = t21 XOR t22; t26 = t21 AND t23; t30 = t23 XOR t24; t27 = t24 XOR t26;
        t31 = t22 XOR t26; t28 = t25 AND t27; t32 = t31 AND t30; t29 = t28 XOR t22;
        t33 = t32 XOR t24; z5 = t29 AND y7; z14 = t29 AND y2; t34 = t23 XOR t33;
        t35 = t27 XOR t33; t42 = t29 XOR t33; z2 = t33 AND x7; z11 = t33 AND y4;
        t36 = t24 AND t35; z6 = t42 AND y11; z15 = t42 AND y9; t37 = t36 XOR t34;
        t38 = t27 XOR t36; t44 = t33 XOR t37; z1 = t37 AND y6; z10 = t37 AND y3;
        t39 = t29 AND t38; z0 = t44 AND y15; z9 = t44 AND y12; t40 = t25 XOR t39;
        tc4 = z0 XOR z2; tc5 = z1 XOR z0; t41 = t40 XOR t37; t43 = t29 XOR t40; z4 = t40 AND y1;
        z13 = t40 AND y5; t45 = t42 XOR t41; z8 = t41 AND y10; z17 = t41 AND y8;
        z3 = t43 AND y16; z12 = t43 AND y13; z7 = t45 AND y17; z16 = t45 AND y14;
        tc6 = z3 XOR z4; tc12 = z3 XOR z5; tc7 = z12 XOR tc4; tc1 = z15 XOR z16;
        tc8 = z7 XOR tc6; tc11 = tc6 XOR tc5; tc14 = tc4 XOR tc12; tc9 = z8 XOR tc7;
        tc2 = z10 XOR tc1; tc13 = z13 XOR tc1; tc16 = z6 XOR tc8; tc10 = tc8 XOR tc9;
        tc3 = z9 XOR tc2; tc21 = tc2 XOR z11; tc18 = tc13 XOR tc14; tc20 = z15 XOR tc16;
        tc17 = z14 XOR tc10; s3 = tc3 XOR tc11; s0 = tc3 XOR tc16; tmp1 = z12 XOR tc18;
        tmp2 = tc10 XOR tc18; tc26 = tc17 XOR tc20; s5 = tc21 XOR tc17; s4 = tc14 XOR s3;
        tmp3 = s3 XOR tc16; s7 = NOT tmp1; s6 = NOT tmp2; tmp4 = tc26 XOR z17; s1 = NOT tmp3;
        s2 = NOT tmp4
      in [s0, s1, s2, s3, s4, s5, s6, s7])"

text \<open>
  \<^verbatim>\<open>ShiftRows__V16\<close> treats the eight words alike; the numbers of the temporaries are those of the first.
\<close>

definition shift_row_word :: "u32 \<Rightarrow> u32" where
  "shift_row_word x =
     (let
        tmp124 = x AND 0x8000; tmp126 = x AND 0x4000; tmp127 = tmp124 XOR tmp126;
        tmp129 = x AND 0x2000; tmp130 = tmp127 XOR tmp129; tmp132 = x AND 0x1000;
        tmp133 = tmp130 XOR tmp132; tmp134 = push_bit 1 x AND 0xFFFF; tmp136 = tmp134 AND 0x800;
        tmp137 = tmp133 XOR tmp136; tmp140 = tmp134 AND 0x400; tmp141 = tmp137 XOR tmp140;
        tmp144 = tmp134 AND 0x200; tmp145 = tmp141 XOR tmp144; tmp146 = drop_bit 3 x;
        tmp148 = tmp146 AND 0x100; tmp149 = tmp145 XOR tmp148; tmp150 = push_bit 2 x AND 0xFFFF;
        tmp152 = tmp150 AND 0x80; tmp153 = tmp149 XOR tmp152; tmp156 = tmp150 AND 0x40;
        tmp157 = tmp153 XOR tmp156; tmp158 = drop_bit 2 x; tmp160 = tmp158 AND 0x20;
        tmp161 = tmp157 XOR tmp160; tmp164 = tmp158 AND 0x10; tmp165 = tmp161 XOR tmp164;
        tmp166 = push_bit 3 x AND 0xFFFF; tmp168 = tmp166 AND 0x8; tmp169 = tmp165 XOR tmp168;
        tmp170 = drop_bit 1 x; tmp172 = tmp170 AND 0x4; tmp173 = tmp169 XOR tmp172;
        tmp176 = tmp170 AND 0x2; tmp177 = tmp173 XOR tmp176; tmp180 = tmp170 AND 0x1
      in tmp177 XOR tmp180)"

definition ShiftRows__V16 :: "u32 list \<Rightarrow> u32 list" where
  "ShiftRows__V16 xs = map shift_row_word xs"

text \<open>\<^verbatim>\<open>(x << n) | ((x & 0xFFFF) >> (16 - n))\<close>: the upper half of the result is not cleared.\<close>

definition rotl16 :: "nat \<Rightarrow> u32 \<Rightarrow> u32" where
  "rotl16 n x = push_bit n x OR drop_bit (16 - n) (x AND 0xFFFF)"

definition MixColumn__V16 :: "u32 list \<Rightarrow> u32 list" where
  "MixColumn__V16 xs =
     (let
        x0 = xs ! 0; x1 = xs ! 1; x2 = xs ! 2; x3 = xs ! 3; x4 = xs ! 4; x5 = xs ! 5;
        x6 = xs ! 6; x7 = xs ! 7; tmp66 = rotl16 4 x1; tmp13 = rotl16 4 x0; tmp59 = rotl16 4 x2;
        tmp52 = rotl16 4 x3; tmp69 = x1 XOR tmp66; tmp14 = x0 XOR tmp13; tmp42 = rotl16 4 x4;
        tmp62 = x2 XOR tmp59; tmp55 = x3 XOR tmp52; tmp74 = tmp69 XOR tmp13;
        tmp70 = rotl16 8 tmp69; tmp77 = rotl16 8 tmp14; tmp45 = x4 XOR tmp42;
        tmp67 = tmp62 XOR tmp66; tmp63 = rotl16 8 tmp62; tmp60 = tmp55 XOR tmp59;
        tmp56 = rotl16 8 tmp55; m0 = tmp74 XOR tmp77; tmp51 = tmp45 XOR tmp14;
        tmp46 = rotl16 8 tmp45; m1 = tmp67 XOR tmp70; m2 = tmp60 XOR tmp63;
        tmp53 = tmp51 XOR tmp52; tmp32 = rotl16 4 x5; m3 = tmp53 XOR tmp56; tmp35 = x5 XOR tmp32;
        tmp41 = tmp35 XOR tmp14; tmp36 = rotl16 8 tmp35; tmp43 = tmp41 XOR tmp42;
        m4 = tmp43 XOR tmp46; tmp25 = rotl16 4 x6; tmp28 = x6 XOR tmp25; tmp33 = tmp28 XOR tmp32;
        tmp29 = rotl16 8 tmp28; m5 = tmp33 XOR tmp36; tmp15 = rotl16 4 x7; tmp18 = x7 XOR tmp15;
        tmp16 = tmp14 XOR tmp15; tmp24 = tmp18 XOR tmp14; tmp19 = rotl16 8 tmp18;
        tmp26 = tmp24 XOR tmp25; m7 = tmp16 XOR tmp19; m6 = tmp26 XOR tmp29
      in [m0, m1, m2, m3, m4, m5, m6, m7])"

definition AES_key :: "nat \<Rightarrow> u32 list \<Rightarrow> u32 list" where
  "AES_key r key = take 8 (drop (8 * r) key)"

definition AES_round :: "u32 list \<Rightarrow> nat \<Rightarrow> u32 list \<Rightarrow> u32 list" where
  "AES_round key r tmp =
     xor_list (MixColumn__V16 (ShiftRows__V16 (SubBytes__V16 tmp))) (AES_key r key)"

definition AES :: "u32 list \<Rightarrow> u32 list \<Rightarrow> u32 list" where
  "AES plain key =
     (let tmp = xor_list plain (AES_key 0 key);
          tmp = fold (AES_round key) [1..<10] tmp;
          tmp = ShiftRows__V16 (SubBytes__V16 tmp);
          tmp = tmp[5 := 0xFFFF AND tmp ! 5]
      in map2 (\<lambda>t k. 0xFFFF AND (t XOR k)) tmp (AES_key 10 key))"

section \<open>The specification\<close>

text \<open>
  The cipher of the standard on a state of 16 bytes, column by column as the bytes come in.
\<close>

definition sub_bytes :: "u8 list \<Rightarrow> u8 list" where
  "sub_bytes = map (\<lambda>b. sbox ! unat b)"

definition shift_rows :: "u8 list \<Rightarrow> u8 list" where
  "shift_rows s = map (\<lambda>p. let c = p div 4; r = p mod 4 in s ! (4 * ((c + r) mod 4) + r)) [0..<16]"

definition mix_columns :: "u8 list \<Rightarrow> u8 list" where
  "mix_columns s =
     map (\<lambda>p. let a = (\<lambda>j. s ! (4 * (p div 4) + (p + j) mod 4))
              in xtime (a 0) XOR (xtime (a 1) XOR a 1) XOR a 2 XOR a 3) [0..<16]"

definition add_round_key :: "u8 list \<Rightarrow> nat \<Rightarrow> u8 list \<Rightarrow> u8 list" where
  "add_round_key w r s = xor_list s (take 16 (drop (16 * r) w))"

definition cipher :: "u8 list \<Rightarrow> u8 list \<Rightarrow> u8 list" where
  "cipher w s =
     add_round_key w 10 (shift_rows (sub_bytes
       (fold (\<lambda>r s. add_round_key w r (mix_columns (shift_rows (sub_bytes s)))) [1..<10]
          (add_round_key w 0 s))))"

section \<open>Lemmas\<close>

subsection \<open>Bit slices\<close>

text \<open>Bit \<open>i\<close> of slice \<open>k\<close> is bit \<open>7 - k\<close> of byte \<open>i\<close>.\<close>

definition slices :: "u8 list \<Rightarrow> 'a::len word list" where
  "slices bs = map (\<lambda>k. horner_sum of_bool 2 (map (\<lambda>b. bit b (7 - k)) bs)) [0..<8]"

lemma slices_eq:
  "slices bs = map (\<lambda>n. horner_sum of_bool 2 (map (\<lambda>b. bit b n) bs)) [7, 6, 5, 4, 3, 2, 1, 0]"
  by (simp add: slices_def upt_rec)

lemma length_slices [simp]: "length (slices bs) = 8"
  by (simp add: slices_def)

lemma bit_slices:
  assumes "k < 8" "length bs \<le> LENGTH('a)"
  shows "bit (slices bs ! k :: 'a::len word) i \<longleftrightarrow> i < length bs \<and> bit (bs ! i) (7 - k)"
  using assms by (auto simp: slices_def bit_horner_sum_bit_word_iff)

lemma list_eqI2: "[] = []" "x = y \<Longrightarrow> xs = ys \<Longrightarrow> x # xs = y # ys" by simp_all

subsection \<open>The substitution\<close>

text \<open>
  The gates act on each bit position alone: two runs that agree on one position of their
  inputs agree on it in their outputs, whatever the widths of their words.
\<close>

definition agree :: "nat \<Rightarrow> nat \<Rightarrow> 'a::len word \<Rightarrow> 'b::len word \<Rightarrow> bool" where
  "agree i j w v \<longleftrightarrow> i < LENGTH('a) \<and> j < LENGTH('b) \<and> bit w i = bit v j"

lemma agree_gates:
  "agree i j a a' \<Longrightarrow> agree i j b b' \<Longrightarrow> agree i j (a XOR b) (a' XOR b')"
  "agree i j a a' \<Longrightarrow> agree i j b b' \<Longrightarrow> agree i j (a AND b) (a' AND b')"
  "agree i j a a' \<Longrightarrow> agree i j (NOT a) (NOT a')"
  by (auto simp: agree_def bit_simps)

lemma agree_let:
  "agree i j a a' \<Longrightarrow> (\<And>x x'. agree i j x x' \<Longrightarrow> list_all2 (agree i j) (f x) (f' x')) \<Longrightarrow>
   list_all2 (agree i j) (Let a f) (Let a' f')"
  by simp

lemma SubBytes_agree:
  assumes "list_all2 (agree i j) xs ys" "length xs = 8"
  shows "list_all2 (agree i j) (SubBytes__V16 xs) (SubBytes__V16 ys)"
proof -
  have nth: "agree i j (xs ! k) (ys ! k)" if "k < 8" for k
    using assms that by (simp add: list_all2_conv_all_nth)
  show ?thesis
    unfolding SubBytes__V16_def
    by ((rule agree_let, (rule nth, simp | (rule agree_gates; assumption)))+, simp)
qed

text \<open>
  The block run once on words of 256 bits, whose bit \<open>j\<close> is the byte \<open>j\<close>, computes the whole
  substitution table.
\<close>

lemma slices_all_bytes:
  "(slices (map word_of_nat [0..<256]) :: 256 word list) =
     [0xffffffffffffffffffffffffffffffff00000000000000000000000000000000,
      0xffffffffffffffff0000000000000000ffffffffffffffff0000000000000000,
      0xffffffff00000000ffffffff00000000ffffffff00000000ffffffff00000000,
      0xffff0000ffff0000ffff0000ffff0000ffff0000ffff0000ffff0000ffff0000,
      0xff00ff00ff00ff00ff00ff00ff00ff00ff00ff00ff00ff00ff00ff00ff00ff00,
      0xf0f0f0f0f0f0f0f0f0f0f0f0f0f0f0f0f0f0f0f0f0f0f0f0f0f0f0f0f0f0f0f0,
      0xcccccccccccccccccccccccccccccccccccccccccccccccccccccccccccccccc,
      0xaaaaaaaaaaaaaaaaaaaaaaaaaaaaaaaaaaaaaaaaaaaaaaaaaaaaaaaaaaaaaaaa]"
  unfolding slices_eq all_bytes list.map by (intro list_eqI2; simp)

lemma slices_sbox:
  "(slices sbox :: 256 word list) =
     [0x52379de7b844e3e14cb3770196ca0329e7bac28f866aac825caa2ec7bf977090,
      0x21e0b833255917823f6bcb91b30db559e4851b3bf3ab2560980a3cc2c2fdb4ff,
      0x54b248130b4f256f7d8dcc4706319e086bc2aa4e0d787aa4f8045f7b6d98dd7f,
      0xf210a3aece472e532624b286bc48ecb4f7f17a494ce30f58c2b0f97752b8b11e,
      0x4e9ddb76c892fb1be9da849cf6ac6c1b2568ea2effa8527d109020a2193d586a,
      0xac39b6c0d6ce2efc577d64e03b0c3ffb23a869a2a428c424a16387fb3b48b4c6,
      0xc870974094ead8a96a450b2ef33486b4e61a4c5e97816f7a7bae007d4c53fc7d,
      0x4f1ead396f247a0410bdb210c006eab568ab4bfa8acb7a13b14ede67096c6eed]"
  unfolding slices_eq list.map by (intro list_eqI2; simp add: sbox_def)

lemma SubBytes_all:
  "SubBytes__V16 (slices (map word_of_nat [0..<256])) = (slices sbox :: 256 word list)"
  unfolding slices_all_bytes slices_sbox
  by (simp add: SubBytes__V16_def Let_def cong: let_weak_cong)

lemma length_let: "(\<And>x. length (f x) = n) \<Longrightarrow> length (Let a f) = n"
  by simp

lemma length_SubBytes: "length (SubBytes__V16 xs) = 8"
  unfolding SubBytes__V16_def by (rule length_let)+ simp

lemma bit_mask_16: "bit (0xFFFF :: u32) i \<longleftrightarrow> i < 16"
proof -
  have "(0xFFFF :: u32) = mask 16" by (simp add: mask_eq_exp_minus_1)
  then show ?thesis by (simp only: bit_mask_iff) auto
qed

subsection \<open>The layout of a block\<close>

text \<open>
  The byte whose bits are at position \<open>i\<close> of the eight words, and the words that hold the
  bits of a block. The upper halves of the words are free while the circuit runs.
\<close>

definition slot :: "nat \<Rightarrow> nat" where
  "slot i = (let p = 15 - i in 4 * (p mod 4) + p div 4)"

definition sliced :: "u32 list \<Rightarrow> u8 list \<Rightarrow> bool" where
  "sliced ws s \<longleftrightarrow>
     length ws = 8 \<and> length s = 16 \<and> (\<forall>k<8. \<forall>i<16. bit (ws ! k) i = bit (s ! slot i) (7 - k))"

definition pack_block :: "u8 list \<Rightarrow> u32 list" where
  "pack_block s = slices (map (\<lambda>i. s ! slot i) [0..<16])"

lemma less_16_cases:
  assumes "i < (16 :: nat)"
  shows "i \<in> {0, 1, 2, 3, 4, 5, 6, 7, 8, 9, 10, 11, 12, 13, 14, 15}"
  using assms by simp presburger

lemma less_8_cases:
  assumes "i < (8 :: nat)"
  shows "i \<in> {0, 1, 2, 3, 4, 5, 6, 7}"
  using assms by simp presburger

lemma slot_less: "i < 16 \<Longrightarrow> slot i < 16"
  by (simp add: slot_def Let_def)

lemma length_pack_block [simp]: "length (pack_block s) = 8"
  by (simp add: pack_block_def)

lemma bit_pack_block: "k < 8 \<Longrightarrow> bit (pack_block s ! k) i \<longleftrightarrow> i < 16 \<and> bit (s ! slot i) (7 - k)"
  by (auto simp: pack_block_def bit_slices)

lemma sliced_pack: "length s = 16 \<Longrightarrow> sliced (pack_block s) s"
  by (simp add: sliced_def bit_pack_block)

lemma sliced_bit: "sliced ws s \<Longrightarrow> k < 8 \<Longrightarrow> i < 16 \<Longrightarrow> bit (ws ! k) i = bit (s ! slot i) (7 - k)"
  by (simp add: sliced_def)

lemma sliced_SubBytes:
  assumes "sliced ws s"
  shows "sliced (SubBytes__V16 ws) (sub_bytes s)"
proof -
  have "bit (SubBytes__V16 ws ! k) i = bit (sub_bytes s ! slot i) (7 - k)" if "k < 8" "i < 16" for k i
  proof -
    let ?j = "unat (s ! slot i)" and ?all = "slices (map word_of_nat [0..<256]) :: 256 word list"
    have j: "?j < 256" using unsigned_less [of "s ! slot i"] by simp
    have "list_all2 (agree i ?j) ws ?all"
      using assms that j by (simp add: list_all2_conv_all_nth sliced_def agree_def bit_slices)
    from SubBytes_agree [OF this] assms have "list_all2 (agree i ?j) (SubBytes__V16 ws) (slices sbox :: 256 word list)"
      by (simp add: SubBytes_all sliced_def)
    then have "bit (SubBytes__V16 ws ! k) i = bit (slices sbox ! k :: 256 word) ?j"
      using that by (auto simp: list_all2_conv_all_nth agree_def)
    then show ?thesis
      using that j assms by (simp add: bit_slices length_sbox sub_bytes_def sliced_def slot_less)
  qed
  then show ?thesis using assms by (simp add: sliced_def sub_bytes_def length_SubBytes)
qed

subsection \<open>The rows and the columns\<close>

text \<open>Where a bit of a shifted row comes from.\<close>

definition row_source :: "nat \<Rightarrow> nat" where
  "row_source i = (let p = 15 - i in 15 - (4 * (p div 4) + (p mod 4 + p div 4) mod 4))"

lemma bit_shift_row_word: "i < 16 \<Longrightarrow> bit (shift_row_word x) i = bit x (row_source i)"
  unfolding shift_row_word_def Let_def bit_xor_iff bit_and_iff bit_push_bit_iff bit_drop_bit_eq
  by (drule less_16_cases, elim insertE emptyE)
    (simp_all add: row_source_def Let_def flip: numeral_2_eq_2 numeral_3_eq_3)

lemma row_source_less: "row_source i < 16"
  by (simp add: row_source_def Let_def)

lemma slot_row_source:
  "i < 16 \<Longrightarrow> slot (row_source i) = 4 * ((slot i div 4 + slot i mod 4) mod 4) + slot i mod 4"
  by (drule less_16_cases, elim insertE emptyE) (simp_all add: slot_def row_source_def Let_def)

lemma sliced_ShiftRows: "sliced ws s \<Longrightarrow> sliced (ShiftRows__V16 ws) (shift_rows s)"
  by (simp add: sliced_def ShiftRows__V16_def shift_rows_def bit_shift_row_word row_source_less
      slot_row_source slot_less Let_def)

lemma bit_rotl16: "i < 16 \<Longrightarrow> n \<le> 16 \<Longrightarrow> bit (rotl16 n x) i = bit x ((i + (16 - n)) mod 16)"
  unfolding rotl16_def bit_or_iff bit_and_iff bit_push_bit_iff bit_drop_bit_eq comp_def bit_mask_16
  by (cases "i < n") (auto simp: mod_if add.commute dest: bit_imp_le_length)

lemma slot_next:
  "i < 16 \<Longrightarrow> slot ((i + 12) mod 16) = 4 * (slot i div 4) + (slot i + 1) mod 4"
  "i < 16 \<Longrightarrow> slot ((i + 8) mod 16) = 4 * (slot i div 4) + (slot i + 2) mod 4"
  "i < 16 \<Longrightarrow> slot ((i + 4) mod 16) = 4 * (slot i div 4) + (slot i + 3) mod 4"
  "4 * (slot i div 4) + slot i mod 4 = slot i"
  by (drule less_16_cases, elim insertE emptyE, simp_all add: slot_def Let_def)+

lemma bit_xtime:
  "n < 8 \<Longrightarrow> bit (xtime a) n \<longleftrightarrow> (0 < n \<and> bit a (n - 1)) \<noteq> (bit a 7 \<and> n \<in> {0, 1, 3, 4})"
  unfolding xtime_def if_distrib [where f = "\<lambda>x. bit x n"] bit_xor_iff bit_push_bit_iff
  by (drule less_8_cases, elim insertE emptyE) simp_all

lemma mod_16_steps:
  "((i + 8) mod 16 + 12) mod 16 = (i + 4) mod (16 :: nat)"
proof -
  have "((i + 8) mod 16 + 12) mod 16 = (i + 4 + 16) mod 16" by (simp only: mod_add_left_eq add.assoc) simp
  then show ?thesis by (simp only: mod_add_self2)
qed

lemma length_MixColumn: "length (MixColumn__V16 xs) = 8"
  unfolding MixColumn__V16_def by (rule length_let)+ simp

lemma bit_MixColumn:
  fixes ws i
  defines "B \<equiv> \<lambda>k n. bit (ws ! k) ((i + n) mod 16)"
  assumes "k < 8" "i < 16"
  shows "bit (MixColumn__V16 ws ! k) i \<longleftrightarrow>
     ((((k < 7 \<and> B (k + 1) 0) \<noteq> (k \<in> {3, 4, 6, 7} \<and> B 0 0)) \<noteq>
       ((k < 7 \<and> B (k + 1) 12) \<noteq> (k \<in> {3, 4, 6, 7} \<and> B 0 12))) \<noteq> B k 12) \<noteq> (B k 8 \<noteq> B k 4)"
proof -
  have i: "B k 0 = bit (ws ! k) i" for k using assms by (simp add: B_def)
  have r: "bit (rotl16 4 (ws ! k)) i = B k 12"
    "bit (rotl16 8 (ws ! k)) i = B k 8"
    "bit (rotl16 8 (rotl16 4 (ws ! k))) i = B k 4"
    "bit (rotl16 8 (a XOR b)) i = (bit (rotl16 8 a) i \<noteq> bit (rotl16 8 b) i)" for k a b
    using assms by (simp_all add: B_def bit_rotl16 mod_16_steps bit_xor_iff)
  show ?thesis
    using less_8_cases [OF \<open>k < 8\<close>]
    by (elim insertE emptyE) (simp_all add: MixColumn__V16_def Let_def bit_xor_iff r i flip: numeral_2_eq_2, auto)
qed

lemma sliced_MixColumn:
  assumes "sliced ws s"
  shows "sliced (MixColumn__V16 ws) (mix_columns s)"
proof -
  have "bit (MixColumn__V16 ws ! k) i = bit (mix_columns s ! slot i) (7 - k)" if "k < 8" "i < 16" for k i
  proof -
    have "bit (ws ! l) i = bit (s ! slot i) (7 - l)"
      "bit (ws ! l) ((i + n) mod 16) = bit (s ! slot ((i + n) mod 16)) (7 - l)" if "l < 8" for l n
      using assms that \<open>i < 16\<close> by (simp_all add: sliced_def)
    note B = this
    show ?thesis
      using that less_8_cases [OF \<open>k < 8\<close>]
      by (elim insertE emptyE)
        (simp_all add: bit_MixColumn mix_columns_def slot_less Let_def bit_xor_iff bit_xtime B
          slot_next, auto)
  qed
  then show ?thesis using assms by (simp add: sliced_def mix_columns_def length_MixColumn)
qed

subsection \<open>The cipher\<close>

lemma sliced_xor:
  "sliced ws s \<Longrightarrow> sliced ks t \<Longrightarrow> sliced (xor_list ws ks) (xor_list s t)"
  by (simp add: sliced_def bit_xor_iff slot_less)

lemma bit_low16: "bit (0xFFFF AND x :: u32) i \<longleftrightarrow> i < 16 \<and> bit x i"
  by (simp only: bit_and_iff bit_mask_16)

lemma sliced_low16: "sliced ws s \<Longrightarrow> k < 8 \<Longrightarrow> sliced (ws[k := 0xFFFF AND ws ! k]) s"
  by (auto simp: sliced_def nth_list_update bit_low16)

text \<open>The round keys of the circuit hold those of the cipher.\<close>

definition sliced_keys :: "u32 list \<Rightarrow> u8 list \<Rightarrow> bool" where
  "sliced_keys ks w \<longleftrightarrow> (\<forall>r<11. sliced (AES_key r ks) (take 16 (drop (16 * r) w)))"

lemma sliced_round:
  assumes "sliced_keys ks w" "r < 11" "sliced ws s"
  shows "sliced (AES_round ks r ws) (add_round_key w r (mix_columns (shift_rows (sub_bytes s))))"
  unfolding AES_round_def add_round_key_def
  using assms
  by (intro sliced_xor sliced_MixColumn sliced_ShiftRows sliced_SubBytes) (simp_all add: sliced_keys_def)

lemma sliced_rounds:
  assumes "sliced_keys ks w" "sliced ws s" "\<forall>r\<in>set rs. r < 11"
  shows "sliced (fold (AES_round ks) rs ws)
    (fold (\<lambda>r s. add_round_key w r (mix_columns (shift_rows (sub_bytes s)))) rs s)"
  using assms by (induction rs arbitrary: ws s) (simp_all add: sliced_round)

lemma pack_eqI:
  assumes "length ws = 8" "\<And>k i. k < 8 \<Longrightarrow> bit (ws ! k) i \<longleftrightarrow> i < 16 \<and> bit (s ! slot i) (7 - k)"
  shows "ws = pack_block s"
  using assms by (intro nth_equalityI bit_eqI) (simp_all add: bit_pack_block)

lemma AES_pack:
  assumes "sliced_keys ks w" "sliced ws s"
  shows "AES ws ks = pack_block (cipher w s)"
proof -
  let ?s = "sub_bytes (fold (\<lambda>r s. add_round_key w r (mix_columns (shift_rows (sub_bytes s)))) [1..<10]
              (add_round_key w 0 s))"
  define t where "t = ShiftRows__V16 (SubBytes__V16 (fold (AES_round ks) [1..<10] (xor_list ws (AES_key 0 ks))))"
  have "sliced (xor_list ws (AES_key 0 ks)) (add_round_key w 0 s)"
    unfolding add_round_key_def using assms by (intro sliced_xor) (auto simp: sliced_keys_def elim: allE [of _ 0])
  then have t: "sliced t (shift_rows ?s)"
    unfolding t_def using assms by (intro sliced_ShiftRows sliced_SubBytes sliced_rounds) auto
  then have "sliced (t[5 := 0xFFFF AND t ! 5]) (shift_rows ?s)"
    by (rule sliced_low16) simp
  moreover have k: "sliced (AES_key 10 ks) (take 16 (drop (16 * 10) w))"
    using assms unfolding sliced_keys_def by (elim allE [of _ 10]) simp
  ultimately have x: "sliced (xor_list (t[5 := 0xFFFF AND t ! 5]) (AES_key 10 ks)) (cipher w s)"
    unfolding cipher_def add_round_key_def [of w 10] by (rule sliced_xor)
  have "AES ws ks = map ((AND) 0xFFFF) (xor_list (t[5 := 0xFFFF AND t ! 5]) (AES_key 10 ks))"
    unfolding AES_def Let_def t_def xor_list_def map_map by (simp add: comp_def split_def)
  also have "\<dots> = pack_block (cipher w s)"
    using x by (intro pack_eqI) (auto simp: sliced_def bit_low16)
  finally show ?thesis .
qed

end
