(* ===== verification/Tracing_AES.thy ===== *)
theory Tracing_AES
  imports AES_Circuit
begin

text \<open>
  The rest of \<^verbatim>\<open>programs/tracingAES/tracingAES.c\<close>: the encryptions under the main key and under the
  tracing key, whose round keys are in the code, and \<^verbatim>\<open>tracing_AES\<close>, which spoils the encryptions
  of the blocks that the tracing key maps to chosen values; and the conversions of
  \<^verbatim>\<open>programs/tracingAES/test.c\<close> between blocks of bytes and the eight words of the circuit.
\<close>

section \<open>The code\<close>

text \<open>The two macros, on \<^verbatim>\<open>unsigned int\<close>.\<close>

definition LT :: "u32 \<Rightarrow> u32 \<Rightarrow> u32" where
  "LT a b = drop_bit 31 ((((a - b) XOR b) AND (a XOR b)) XOR (a - b))"

definition EQ :: "u32 \<Rightarrow> u32 \<Rightarrow> u32" where
  "EQ a b = (1 XOR LT a b) AND (1 XOR LT b a)"

text \<open>The arrays of the 88 words that \<^verbatim>\<open>AES_K\<close> and \<^verbatim>\<open>AES_T\<close> fill, in the order of the indices.\<close>

definition AES_K_key :: "u32 list" where
  "AES_K_key =
     [0x0000, 0x0000, 0x0000, 0x0000, 0x3333, 0x5555, 0x00ff, 0x0f0f,
      0xff0f, 0xf0ff, 0x0fff, 0xf0ff, 0x2d2d, 0x9699, 0xff55, 0x050a,
      0xaaf5, 0x50a5, 0xf555, 0xaf55, 0x36c9, 0xe4e1, 0xaa99, 0x06fc,
      0xcc56, 0x6fc9, 0xa996, 0xca96, 0x2b7e, 0xb8be, 0xcc1e, 0x0b57,
      0x789b, 0xba81, 0x3eeb, 0x7ceb, 0x325b, 0xdfdb, 0x88e4, 0xfd95,
      0x5fed, 0x230e, 0xdbbd, 0xa742, 0xdc6d, 0x9562, 0x0fb7, 0x56e6,
      0x6546, 0xc20b, 0x6d29, 0xca7c, 0x98b9, 0xe6bc, 0xf5d5, 0x6bbb,
      0x4974, 0x7cf2, 0x49c1, 0x8ca8, 0x1f2e, 0xb427, 0x5669, 0x4d22,
      0x71a7, 0xa853, 0x717e, 0x073f, 0x1534, 0xd7ca, 0x9bb1, 0x89cc,
      0x5e3a, 0xc06d, 0x51a4, 0xfada, 0x1927, 0x9573, 0x12d1, 0x0e78,
      0x6423, 0x7049, 0x6138, 0xac9c, 0x11ca, 0x16ad, 0xe36e, 0xfbaf]"

definition AES_T_tkey :: "u32 list" where
  "AES_T_tkey =
     [0x2746, 0x0b50, 0xee05, 0x0ae9, 0xfd13, 0x0fbd, 0xaf5c, 0xb3b0,
      0xca84, 0x0d90, 0xbbf6, 0x0cbe, 0x59e2, 0x05d9, 0x3a98, 0x222f,
      0x8cf8, 0xf91f, 0xd25b, 0xf7db, 0x6143, 0x0691, 0xdc1f, 0x33c5,
      0x0850, 0x51ea, 0x936d, 0xa56d, 0xb17d, 0xf4ee, 0x67e5, 0xd289,
      0xf090, 0x9e4c, 0xe2b6, 0x3646, 0xd156, 0xa8b4, 0xb546, 0x93fe,
      0xafef, 0xeb88, 0x432b, 0xdb7b, 0x616b, 0xc0d7, 0x2684, 0x1d54,
      0x3ab5, 0xb20f, 0x82cd, 0x625d, 0xbe4d, 0x8065, 0x34f8, 0xe697,
      0x23d6, 0xdcf5, 0x0386, 0x4c96, 0xd479, 0xffb9, 0xd7af, 0x44e5,
      0xcd64, 0x98a6, 0xf2fb, 0x78e4, 0x9751, 0x5521, 0x9ac5, 0x77b9,
      0x8648, 0x1fcb, 0xacad, 0x5f48, 0xe561, 0x99c1, 0x1c89, 0x5a2e,
      0xf48f, 0xe582, 0x37c9, 0x9a80, 0x46be, 0x1e71, 0x1701, 0x63c4]"

definition AES_K :: "u32 list \<Rightarrow> u32 list" where
  "AES_K m = AES m AES_K_key"

definition AES_T :: "u32 list \<Rightarrow> u32 list" where
  "AES_T m = AES m AES_T_tkey"

definition tracing_AES :: "u32 list \<Rightarrow> u32 list" where
  "tracing_AES m =
     (let i = 4;
          z = AES_T m;
          f0 = EQ (z ! 0) 0; f1 = EQ (z ! 1) 0; f2 = EQ (z ! 2) 0; f3 = EQ (z ! 3) 0;
          f4 = EQ (z ! 4) 0; f5 = EQ (z ! 5) 0; f6 = EQ (z ! 6) 0;
          fm = f0 OR f1 OR f2 OR f3 OR f4 OR f5 OR f6;
          f7 = LT (z ! 7) i;
          test = fm AND f7;
          c = AES_K m
      in c[7 := c ! 7 XOR test])"

subsection \<open>The conversions\<close>

text \<open>
  The bit matrix of eight bytes is transposed in three passes over pairs of bytes, in place.
\<close>

definition transpose_pair :: "nat \<Rightarrow> nat \<Rightarrow> nat \<Rightarrow> u8 list \<Rightarrow> u8 list" where
  "transpose_pair i j k data =
     (let mask_l = [0xaa, 0xcc, 0xf0]; mask_r = [0x55, 0x33, 0x0f];
          n = 2 ^ i;
          u = data ! (j + k) AND mask_l ! i;
          v = data ! (j + k) AND mask_r ! i;
          x = data ! (j + n + k) AND mask_l ! i;
          y = data ! (j + n + k) AND mask_r ! i;
          data = data[j + k := u OR drop_bit n x]
      in data[j + n + k := push_bit n v OR y])"

definition transpose_pass :: "nat \<Rightarrow> u8 list \<Rightarrow> u8 list" where
  "transpose_pass i data =
     (let n = 2 ^ i
      in fold (\<lambda>j data. fold (\<lambda>k data. transpose_pair i j k data) [0..<n] data)
           (map (\<lambda>q. q * (2 * n)) [0..<8 div (2 * n)]) data)"

definition transpose_bits :: "u8 list \<Rightarrow> u8 list" where
  "transpose_bits data = fold transpose_pass [0..<3] data"

text \<open>\<^verbatim>\<open>transpose(m); transpose(m+8);\<close>\<close>

definition transpose_block :: "u8 list \<Rightarrow> u8 list" where
  "transpose_block m = transpose_bits (take 8 m) @ transpose_bits (drop 8 m)"

definition reorder :: "u8 list \<Rightarrow> u8 list" where
  "reorder data =
     (let pattern = [0, 4, 8, 12, 1, 5, 9, 13, 2, 6, 10, 14, 3, 7, 11, 15]
      in map (\<lambda>i. data ! (pattern ! i)) [0..<16])"

definition fromuchar2uint :: "u8 list \<Rightarrow> nat \<Rightarrow> u32 list" where
  "fromuchar2uint inp inlen =
     concat (map (\<lambda>i. map (\<lambda>j. push_bit 8 (ucast (inp ! (i * 16 + j))) OR
                                (ucast (inp ! (i * 16 + j + 8)) AND 0xff)) [0..<8])
       [0..<inlen div 16])"

definition fromuint2uchar :: "u32 list \<Rightarrow> nat \<Rightarrow> u8 list" where
  "fromuint2uchar inp inlen =
     concat (map (\<lambda>i. map (\<lambda>j. ucast (drop_bit 8 (inp ! (i * 8 + j)))) [0..<8] @
                      map (\<lambda>j. ucast (inp ! (i * 8 + j) AND 0xff)) [0..<8])
       [0..<inlen div 8])"

text \<open>The call of \<^verbatim>\<open>unittest\<close>, from the bytes of the block to the bytes of the result.\<close>

definition to_slices :: "u8 list \<Rightarrow> u32 list" where
  "to_slices m = fromuchar2uint (transpose_block (reorder m)) 16"

definition from_slices :: "u32 list \<Rightarrow> u8 list" where
  "from_slices c = reorder (transpose_block (fromuint2uchar c 8))"

definition unittest_output :: "u8 list \<Rightarrow> u8 list" where
  "unittest_output m = from_slices (tracing_AES (to_slices m))"

text \<open>The keys that \<^verbatim>\<open>test.c\<close> gives for the two arrays of round keys.\<close>

definition main_key :: "u8 list" where
  "main_key = [0x00, 0x01, 0x02, 0x03, 0x04, 0x05, 0x06, 0x07, 0x08, 0x09, 0x0a, 0x0b, 0x0c, 0x0d, 0x0e, 0x0f]"

definition tracing_key :: "u8 list" where
  "tracing_key = [0x2b, 0x7e, 0x15, 0x16, 0x28, 0xae, 0xd2, 0xa6, 0xab, 0xf7, 0x15, 0x88, 0x09, 0xcf, 0x4f, 0x3c]"

text \<open>Its first test, the example of the standard.\<close>

definition test_m :: "u8 list" where
  "test_m = [0x00, 0x11, 0x22, 0x33, 0x44, 0x55, 0x66, 0x77, 0x88, 0x99, 0xaa, 0xbb, 0xcc, 0xdd, 0xee, 0xff]"

definition test_e :: "u8 list" where
  "test_e = [0x69, 0xc4, 0xe0, 0xd8, 0x6a, 0x7b, 0x04, 0x30, 0xd8, 0xcd, 0xb7, 0x80, 0x70, 0xb4, 0xc5, 0x5a]"

section \<open>Lemmas\<close>

subsection \<open>The comparisons\<close>

lemma bit_31_iff: "bit (x :: u32) 31 \<longleftrightarrow> 2147483648 \<le> uint x"
proof -
  have "uint x div 2147483648 = (if 2147483648 \<le> uint x then 1 else 0)"
    using uint_bounded [of x] uint_ge_0 [of x] by (auto simp: div_pos_pos_trivial)
  then have "bit (uint x) 31 \<longleftrightarrow> 2147483648 \<le> uint x" by (simp add: bit_iff_odd)
  then show ?thesis by (simp add: bit_uint_iff)
qed

lemma drop_bit_31: "drop_bit 31 (w :: u32) = of_bool (bit w 31)"
proof (rule bit_word_eqI)
  fix n :: nat
  show "bit (drop_bit 31 w) n = bit (of_bool (bit w 31) :: u32) n"
    by (cases n) (auto simp: bit_simps dest: bit_imp_le_length)
qed

lemma sign_of_difference:
  fixes x y :: int
  assumes "0 \<le> x" "x < 4294967296" "0 \<le> y" "y < 4294967296"
  defines "d \<equiv> if y \<le> x then x - y else x - y + 4294967296"
  shows "(((2147483648 \<le> d) \<noteq> (2147483648 \<le> y)) \<and> ((2147483648 \<le> x) \<noteq> (2147483648 \<le> y))) \<noteq>
           (2147483648 \<le> d) \<longleftrightarrow> x < y"
  using assms by (auto split: if_splits)

lemma LT_eq: "LT a b = of_bool (a < b)"
proof -
  let ?w = "(((a - b) XOR b) AND (a XOR b)) XOR (a - b)"
  have d: "uint (a - b) = (if uint b \<le> uint a then uint a - uint b else uint a - uint b + 4294967296)"
    by (simp add: uint_sub_if')
  have "bit ?w 31 \<longleftrightarrow> a < b"
    unfolding bit_xor_iff bit_and_iff unfolding bit_31_iff word_less_def d
    using uint_bounded [of a] uint_bounded [of b] by (intro sign_of_difference) simp_all
  then show ?thesis by (simp only: LT_def drop_bit_31)
qed

lemma EQ_eq: "EQ a b = of_bool (a = b)"
  by (auto simp: EQ_def LT_eq)

subsection \<open>The conversions\<close>

text \<open>The two halves of an exchange of bits between a pair of bytes.\<close>

definition upper :: "nat \<Rightarrow> u8 \<Rightarrow> u8 \<Rightarrow> u8 \<Rightarrow> u8" where
  "upper n m u x = (u AND m) OR drop_bit n (x AND m)"

definition lower :: "nat \<Rightarrow> u8 \<Rightarrow> u8 \<Rightarrow> u8 \<Rightarrow> u8" where
  "lower n m v y = push_bit n (v AND m) OR (y AND m)"

lemma bit_upper_lower:
  "bit (upper n m u x) c \<longleftrightarrow> bit u c \<and> bit m c \<or> bit x (c + n) \<and> bit m (c + n)"
  "bit (lower n m v y) c \<longleftrightarrow> n \<le> c \<and> c < 8 \<and> bit v (c - n) \<and> bit m (c - n) \<or> bit y c \<and> bit m c"
  by (auto simp: upper_def lower_def bit_or_iff bit_and_iff bit_push_bit_iff bit_drop_bit_eq add.commute)

lemma transpose_pass_eq:
  "transpose_pass 0 [d0, d1, d2, d3, d4, d5, d6, d7] =
     (let l = upper 1 0xaa; r = lower 1 0x55
      in [l d0 d1, r d0 d1, l d2 d3, r d2 d3, l d4 d5, r d4 d5, l d6 d7, r d6 d7])"
  "transpose_pass 1 [d0, d1, d2, d3, d4, d5, d6, d7] =
     (let l = upper 2 0xcc; r = lower 2 0x33
      in [l d0 d2, l d1 d3, r d0 d2, r d1 d3, l d4 d6, l d5 d7, r d4 d6, r d5 d7])"
  "transpose_pass 2 [d0, d1, d2, d3, d4, d5, d6, d7] =
     (let l = upper 4 0xf0; r = lower 4 0x0f
      in [l d0 d4, l d1 d5, l d2 d6, l d3 d7, r d0 d4, r d1 d5, r d2 d6, r d3 d7])"
  by (simp_all add: transpose_pass_def transpose_pair_def upper_def lower_def upt_rec Let_def)

lemma transpose_rows:
  "map (\<lambda>w. map (bit w) [0..<8]) (transpose_bits [d0, d1, d2, d3, d4, d5, d6, d7]) =
   map (\<lambda>r. map (\<lambda>c. bit ([d0, d1, d2, d3, d4, d5, d6, d7] ! (7 - c)) (7 - r)) [0..<8]) [0..<8]"
proof -
  have "[0..<8] = [0, 1, 2, 3, 4, 5, 6, 7]" by (simp add: upt_rec)
  then show ?thesis
    unfolding transpose_bits_def upt_3 by (simp add: transpose_pass_eq [simplified] Let_def bit_upper_lower
        flip: numeral_2_eq_2 numeral_3_eq_3)
qed

lemma bit_transpose:
  assumes "length d = 8"
  shows "length (transpose_bits d) = 8"
    and "r < 8 \<Longrightarrow> c < 8 \<Longrightarrow> bit (transpose_bits d ! r) c = bit (d ! (7 - c)) (7 - r)"
proof -
  obtain d0 d1 d2 d3 d4 d5 d6 d7 where d: "d = [d0, d1, d2, d3, d4, d5, d6, d7]"
    using assms by (auto simp: numeral_eq_Suc length_Suc_conv)
  have rows: "map (\<lambda>w. map (bit w) [0..<8]) (transpose_bits d) =
    map (\<lambda>r. map (\<lambda>c. bit (d ! (7 - c)) (7 - r)) [0..<8]) [0..<8]"
    unfolding d by (rule transpose_rows)
  show len: "length (transpose_bits d) = 8"
    using arg_cong [OF rows, of length] by simp
  assume "r < 8" "c < 8"
  then show "bit (transpose_bits d ! r) c = bit (d ! (7 - c)) (7 - r)"
    using arg_cong [OF rows, of "\<lambda>xs. xs ! r ! c"] len by simp
qed

lemma nth_reorder:
  "p < 16 \<Longrightarrow> reorder m ! p = m ! (4 * (p mod 4) + p div 4)"
  by (drule less_16_cases, elim insertE emptyE) (simp_all add: reorder_def flip: numeral_2_eq_2)

lemma length_reorder [simp]: "length (reorder m) = 16"
  by (simp add: reorder_def)

lemma bit_transpose_block:
  assumes "length m = 16"
  shows "length (transpose_block m) = 16"
    and "r < 8 \<Longrightarrow> c < 8 \<Longrightarrow> bit (transpose_block m ! r) c = bit (m ! (7 - c)) (7 - r)"
    and "r < 8 \<Longrightarrow> c < 8 \<Longrightarrow> bit (transpose_block m ! (r + 8)) c = bit (m ! (15 - c)) (7 - r)"
  using assms by (simp_all add: transpose_block_def bit_transpose nth_append)

text \<open>The conversions are the layout that the circuit works on, and its inverse.\<close>

lemma bit_mask_8: "bit (0xFF :: u32) i \<longleftrightarrow> i < 8"
proof -
  have "(0xFF :: u32) = mask 8" by (simp add: mask_eq_exp_minus_1)
  then show ?thesis by (simp only: bit_mask_iff) auto
qed

lemma bit_fromuchar2uint:
  assumes "k < 8"
  shows "length (fromuchar2uint inp 16) = 8"
    and "bit (fromuchar2uint inp 16 ! k) i \<longleftrightarrow>
           i < 16 \<and> (if i < 8 then bit (inp ! (k + 8)) i else bit (inp ! k) (i - 8))"
proof -
  have *: "fromuchar2uint inp 16 =
      map (\<lambda>j. push_bit 8 (ucast (inp ! j)) OR (ucast (inp ! (j + 8)) AND 0xff)) [0..<8]"
    by (simp add: fromuchar2uint_def)
  then show "length (fromuchar2uint inp 16) = 8" by simp
  have "bit (push_bit 8 (ucast a) OR (ucast b AND 0xff) :: u32) i \<longleftrightarrow>
      i < 16 \<and> (if i < 8 then bit b i else bit a (i - 8))" for a b :: u8
    unfolding bit_or_iff bit_and_iff bit_push_bit_iff bit_mask_8 bit_unsigned_iff
    by (auto dest: bit_imp_le_length)
  then show "bit (fromuchar2uint inp 16 ! k) i \<longleftrightarrow>
      i < 16 \<and> (if i < 8 then bit (inp ! (k + 8)) i else bit (inp ! k) (i - 8))"
    using assms by (simp only: *) simp
qed

lemma bit_fromuint2uchar:
  shows "length (fromuint2uchar inp 8) = 16"
    and "k < 8 \<Longrightarrow> c < 8 \<Longrightarrow> bit (fromuint2uchar inp 8 ! k) c = bit (inp ! k) (c + 8)"
    and "k < 8 \<Longrightarrow> c < 8 \<Longrightarrow> bit (fromuint2uchar inp 8 ! (k + 8)) c = bit (inp ! k) c"
proof -
  have *: "fromuint2uchar inp 8 =
      map (\<lambda>j. ucast (drop_bit 8 (inp ! j))) [0..<8] @ map (\<lambda>j. ucast (inp ! j AND 0xff)) [0..<8]"
    by (simp add: fromuint2uchar_def)
  then show "length (fromuint2uchar inp 8) = 16" by simp
  assume "k < 8" "c < 8"
  then show "bit (fromuint2uchar inp 8 ! k) c = bit (inp ! k) (c + 8)"
    by (simp add: * nth_append bit_unsigned_iff bit_drop_bit_eq add.commute)
  have "bit (ucast (w AND 0xff) :: u8) c = bit (w :: u32) c" for w
    unfolding bit_unsigned_iff bit_and_iff bit_mask_8 using \<open>c < 8\<close> by simp
  then show "bit (fromuint2uchar inp 8 ! (k + 8)) c = bit (inp ! k) c"
    using \<open>k < 8\<close> by (simp only: *) (simp add: nth_append)
qed

lemma to_slices_pack:
  assumes "length m = 16"
  shows "to_slices m = pack_block m"
proof (rule pack_eqI)
  show "length (to_slices m) = 8" by (simp add: to_slices_def fromuchar2uint_def)
  fix k i :: nat assume "k < 8"
  show "bit (to_slices m ! k) i \<longleftrightarrow> i < 16 \<and> bit (m ! slot i) (7 - k)"
    using \<open>k < 8\<close> 
    by (cases "i < 8") (auto simp: to_slices_def bit_fromuchar2uint bit_transpose_block nth_reorder slot_def Let_def)
qed

lemma from_slices_pack:
  assumes "length s = 16"
  shows "from_slices (pack_block s) = s"
proof (rule nth_equalityI)
  fix p assume "p < length (from_slices (pack_block s))"
  then have p: "p < 16" by (simp add: from_slices_def)
  show "from_slices (pack_block s) ! p = s ! p"
  proof (rule bit_word_eqI)
    fix n assume n: "n < LENGTH(8)"
    let ?q = "4 * (p mod 4) + p div 4" and ?u = "fromuint2uchar (pack_block s) 8"
    have q: "?q < 16" "slot (15 - ?q) = p"
      using less_16_cases [OF p] by (elim insertE emptyE; simp add: slot_def Let_def)+
    have "bit (from_slices (pack_block s) ! p) n = bit (transpose_block ?u ! ?q) n"
      using p by (simp add: from_slices_def nth_reorder)
    also have "\<dots> = bit (pack_block s ! (7 - n)) (15 - ?q)"
    proof (cases "?q < 8")
      case True
      have "bit (transpose_block ?u ! ?q) n = bit (?u ! (7 - n)) (7 - ?q)"
        using True n by (simp add: bit_transpose_block bit_fromuint2uchar)
      then show ?thesis using True by (simp add: bit_fromuint2uchar)
    next
      case False
      define r where "r = ?q - 8"
      have r: "?q = r + 8" "r < 8" using False q(1) unfolding r_def by linarith+
      have "bit (transpose_block ?u ! (r + 8)) n = bit (?u ! (7 - n + 8)) (7 - r)"
        using r(2) n bit_transpose_block(3) [OF bit_fromuint2uchar(1), of r n] by (simp add: add.commute)
      then show ?thesis using r by (simp add: bit_fromuint2uchar)
    qed
    also have "\<dots> = bit (s ! p) n" using n q by (simp only: bit_pack_block) auto
    finally show "bit (from_slices (pack_block s) ! p) n = bit (s ! p) n" .
  qed
qed (simp add: from_slices_def assms)

subsection \<open>The keys\<close>

text \<open>A list of words in which each follows from the four before it, as the expansion of a key does.\<close>

fun follows :: "nat \<Rightarrow> u8 list list \<Rightarrow> bool" where
  "follows i (a # b # c # d # e # ws) \<longleftrightarrow>
     e = xor_list a (if i mod 4 = 0 then xor_list (SubWord (rotate1 d)) [Rcon (i div 4), 0, 0, 0] else d) \<and>
     follows (i + 1) (b # c # d # e # ws)"
| "follows i _ \<longleftrightarrow> True"

lemma follows_key_word:
  "follows i (key_word key (i - 4) # key_word key (i - 3) # key_word key (i - 2) # key_word key (i - 1) # ws) \<Longrightarrow>
   4 \<le> i \<Longrightarrow> ws = map (key_word key) [i..<i + length ws]"
proof (induction ws arbitrary: i)
  case (Cons e ws)
  have e: "e = key_word key i"
    using Cons.prems by (subst key_word.simps) simp
  have f: "follows (i + 1) (key_word key (i - 3) # key_word key (i - 2) # key_word key (i - 1) # key_word key i # ws)"
    using Cons.prems(1) unfolding follows.simps e by blast
  have i: "i + 1 - 4 = i - 3" "i + 1 - 3 = i - 2" "i + 1 - 2 = i - 1" "i + 1 - 1 = i"
    using Cons.prems(2) by simp_all
  have "ws = map (key_word key) [i + 1..<i + 1 + length ws]"
    using Cons.prems(2) by (intro Cons.IH [of "i + 1", unfolded i, OF f]) simp
  then show ?case using e by (simp add: upt_conv_Cons del: upt_Suc)
qed simp

lemma key_sched_follows:
  assumes "key = a @ b @ c @ d" "follows 4 (a # b # c # d # ws)"
    "length a = 4" "length b = 4" "length c = 4" "length d = 4" "length ws = 40"
  shows "key_sched key = concat (a # b # c # d # ws)"
proof -
  let ?k = "key_word key"
  have k: "?k 0 = a" "?k 1 = b" "?k 2 = c" "?k 3 = d"
    using assms by (subst key_word.simps; simp)+
  have "ws = map ?k [4..<4 + length ws]"
    using assms k by (intro follows_key_word) simp_all
  then have "a # b # c # d # ws = map ?k [0..<44]"
    using assms k upt_add_eq_append [of 0 4 40] by (simp add: upt_4 del: upt_Suc upt_rec_numeral)
  then show ?thesis using assms by (simp add: key_sched_words)
qed

lemma main_words:
  "key_sched main_key = concat
     [[0x00, 0x01, 0x02, 0x03], [0x04, 0x05, 0x06, 0x07], [0x08, 0x09, 0x0a, 0x0b], [0x0c, 0x0d, 0x0e, 0x0f],
      [0xd6, 0xaa, 0x74, 0xfd], [0xd2, 0xaf, 0x72, 0xfa], [0xda, 0xa6, 0x78, 0xf1], [0xd6, 0xab, 0x76, 0xfe],
      [0xb6, 0x92, 0xcf, 0x0b], [0x64, 0x3d, 0xbd, 0xf1], [0xbe, 0x9b, 0xc5, 0x00], [0x68, 0x30, 0xb3, 0xfe],
      [0xb6, 0xff, 0x74, 0x4e], [0xd2, 0xc2, 0xc9, 0xbf], [0x6c, 0x59, 0x0c, 0xbf], [0x04, 0x69, 0xbf, 0x41],
      [0x47, 0xf7, 0xf7, 0xbc], [0x95, 0x35, 0x3e, 0x03], [0xf9, 0x6c, 0x32, 0xbc], [0xfd, 0x05, 0x8d, 0xfd],
      [0x3c, 0xaa, 0xa3, 0xe8], [0xa9, 0x9f, 0x9d, 0xeb], [0x50, 0xf3, 0xaf, 0x57], [0xad, 0xf6, 0x22, 0xaa],
      [0x5e, 0x39, 0x0f, 0x7d], [0xf7, 0xa6, 0x92, 0x96], [0xa7, 0x55, 0x3d, 0xc1], [0x0a, 0xa3, 0x1f, 0x6b],
      [0x14, 0xf9, 0x70, 0x1a], [0xe3, 0x5f, 0xe2, 0x8c], [0x44, 0x0a, 0xdf, 0x4d], [0x4e, 0xa9, 0xc0, 0x26],
      [0x47, 0x43, 0x87, 0x35], [0xa4, 0x1c, 0x65, 0xb9], [0xe0, 0x16, 0xba, 0xf4], [0xae, 0xbf, 0x7a, 0xd2],
      [0x54, 0x99, 0x32, 0xd1], [0xf0, 0x85, 0x57, 0x68], [0x10, 0x93, 0xed, 0x9c], [0xbe, 0x2c, 0x97, 0x4e],
      [0x13, 0x11, 0x1d, 0x7f], [0xe3, 0x94, 0x4a, 0x17], [0xf3, 0x07, 0xa7, 0x8b], [0x4d, 0x2b, 0x30, 0xc5]]"
  by (rule key_sched_follows) (simp_all add: main_key_def SubWord_def sbox_def Rcon_def xtime_powers funpow_numeral)

lemma tracing_words:
  "key_sched tracing_key = concat
     [[0x2b, 0x7e, 0x15, 0x16], [0x28, 0xae, 0xd2, 0xa6], [0xab, 0xf7, 0x15, 0x88], [0x09, 0xcf, 0x4f, 0x3c],
      [0xa0, 0xfa, 0xfe, 0x17], [0x88, 0x54, 0x2c, 0xb1], [0x23, 0xa3, 0x39, 0x39], [0x2a, 0x6c, 0x76, 0x05],
      [0xf2, 0xc2, 0x95, 0xf2], [0x7a, 0x96, 0xb9, 0x43], [0x59, 0x35, 0x80, 0x7a], [0x73, 0x59, 0xf6, 0x7f],
      [0x3d, 0x80, 0x47, 0x7d], [0x47, 0x16, 0xfe, 0x3e], [0x1e, 0x23, 0x7e, 0x44], [0x6d, 0x7a, 0x88, 0x3b],
      [0xef, 0x44, 0xa5, 0x41], [0xa8, 0x52, 0x5b, 0x7f], [0xb6, 0x71, 0x25, 0x3b], [0xdb, 0x0b, 0xad, 0x00],
      [0xd4, 0xd1, 0xc6, 0xf8], [0x7c, 0x83, 0x9d, 0x87], [0xca, 0xf2, 0xb8, 0xbc], [0x11, 0xf9, 0x15, 0xbc],
      [0x6d, 0x88, 0xa3, 0x7a], [0x11, 0x0b, 0x3e, 0xfd], [0xdb, 0xf9, 0x86, 0x41], [0xca, 0x00, 0x93, 0xfd],
      [0x4e, 0x54, 0xf7, 0x0e], [0x5f, 0x5f, 0xc9, 0xf3], [0x84, 0xa6, 0x4f, 0xb2], [0x4e, 0xa6, 0xdc, 0x4f],
      [0xea, 0xd2, 0x73, 0x21], [0xb5, 0x8d, 0xba, 0xd2], [0x31, 0x2b, 0xf5, 0x60], [0x7f, 0x8d, 0x29, 0x2f],
      [0xac, 0x77, 0x66, 0xf3], [0x19, 0xfa, 0xdc, 0x21], [0x28, 0xd1, 0x29, 0x41], [0x57, 0x5c, 0x00, 0x6e],
      [0xd0, 0x14, 0xf9, 0xa8], [0xc9, 0xee, 0x25, 0x89], [0xe1, 0x3f, 0x0c, 0xc8], [0xb6, 0x63, 0x0c, 0xa6]]"
  by (rule key_sched_follows) (simp_all add: tracing_key_def SubWord_def sbox_def Rcon_def xtime_powers funpow_numeral)

lemma length_concat_map:
  "(\<And>i. i < n \<Longrightarrow> length (f i) = m) \<Longrightarrow> length (concat (map f [0..<n])) = m * n"
  by (induction n) simp_all

lemma take_drop_concat:
  assumes "\<And>i. i < n \<Longrightarrow> length (f i) = m" "r < n"
  shows "take m (drop (m * r) (concat (map f [0..<n]))) = f r"
  using assms
proof (induction n)
  case (Suc n)
  have len: "length (concat (map f [0..<n])) = m * n"
    using Suc.prems by (intro length_concat_map) simp
  show ?case
  proof (cases "r = n")
    case False
    then have "m * r + m \<le> m * n" using Suc.prems(2) by (metis less_SucE mult_Suc_right add.commute mult_le_mono2 Suc_leI)
    then show ?thesis using Suc False len by simp
  qed (use Suc.prems len in simp)
qed simp

text \<open>The words of a block of literal bytes.\<close>

lemma pack_literal:
  "pack_block [b0, b1, b2, b3, b4, b5, b6, b7, b8, b9, b10, b11, b12, b13, b14, b15] =
   map (\<lambda>n. horner_sum of_bool 2 (map (\<lambda>b. bit b n)
     [b15, b11, b7, b3, b14, b10, b6, b2, b13, b9, b5, b1, b12, b8, b4, b0])) [7, 6, 5, 4, 3, 2, 1, 0]"
proof -
  have "map slot [0..<16] = [15, 11, 7, 3, 14, 10, 6, 2, 13, 9, 5, 1, 12, 8, 4, 0]"
    by (simp add: upt_rec slot_def)
  then have "map (\<lambda>i. s ! slot i) [0..<16] = map ((!) s) [15, 11, 7, 3, 14, 10, 6, 2, 13, 9, 5, 1, 12, 8, 4, 0]"
    for s :: "u8 list" by (metis (no_types, lifting) map_map comp_apply map_cong)
  then show ?thesis unfolding pack_block_def slices_eq by simp
qed

lemma upt_11: "[0..<11] = [0, 1, 2, 3, 4, 5, 6, 7, 8, 9, 10]"
  by (simp add: upt_rec)

definition blocks :: "u8 list \<Rightarrow> u8 list list" where
  "blocks w = map (\<lambda>r. take 16 (drop (16 * r) w)) [0..<11]"

lemma main_blocks:
  "blocks (key_sched main_key) =
     [[0x00, 0x01, 0x02, 0x03, 0x04, 0x05, 0x06, 0x07, 0x08, 0x09, 0x0a, 0x0b, 0x0c, 0x0d, 0x0e, 0x0f],
      [0xd6, 0xaa, 0x74, 0xfd, 0xd2, 0xaf, 0x72, 0xfa, 0xda, 0xa6, 0x78, 0xf1, 0xd6, 0xab, 0x76, 0xfe],
      [0xb6, 0x92, 0xcf, 0x0b, 0x64, 0x3d, 0xbd, 0xf1, 0xbe, 0x9b, 0xc5, 0x00, 0x68, 0x30, 0xb3, 0xfe],
      [0xb6, 0xff, 0x74, 0x4e, 0xd2, 0xc2, 0xc9, 0xbf, 0x6c, 0x59, 0x0c, 0xbf, 0x04, 0x69, 0xbf, 0x41],
      [0x47, 0xf7, 0xf7, 0xbc, 0x95, 0x35, 0x3e, 0x03, 0xf9, 0x6c, 0x32, 0xbc, 0xfd, 0x05, 0x8d, 0xfd],
      [0x3c, 0xaa, 0xa3, 0xe8, 0xa9, 0x9f, 0x9d, 0xeb, 0x50, 0xf3, 0xaf, 0x57, 0xad, 0xf6, 0x22, 0xaa],
      [0x5e, 0x39, 0x0f, 0x7d, 0xf7, 0xa6, 0x92, 0x96, 0xa7, 0x55, 0x3d, 0xc1, 0x0a, 0xa3, 0x1f, 0x6b],
      [0x14, 0xf9, 0x70, 0x1a, 0xe3, 0x5f, 0xe2, 0x8c, 0x44, 0x0a, 0xdf, 0x4d, 0x4e, 0xa9, 0xc0, 0x26],
      [0x47, 0x43, 0x87, 0x35, 0xa4, 0x1c, 0x65, 0xb9, 0xe0, 0x16, 0xba, 0xf4, 0xae, 0xbf, 0x7a, 0xd2],
      [0x54, 0x99, 0x32, 0xd1, 0xf0, 0x85, 0x57, 0x68, 0x10, 0x93, 0xed, 0x9c, 0xbe, 0x2c, 0x97, 0x4e],
      [0x13, 0x11, 0x1d, 0x7f, 0xe3, 0x94, 0x4a, 0x17, 0xf3, 0x07, 0xa7, 0x8b, 0x4d, 0x2b, 0x30, 0xc5]]"
  unfolding blocks_def upt_11 main_words by simp

lemma tracing_blocks:
  "blocks (key_sched tracing_key) =
     [[0x2b, 0x7e, 0x15, 0x16, 0x28, 0xae, 0xd2, 0xa6, 0xab, 0xf7, 0x15, 0x88, 0x09, 0xcf, 0x4f, 0x3c],
      [0xa0, 0xfa, 0xfe, 0x17, 0x88, 0x54, 0x2c, 0xb1, 0x23, 0xa3, 0x39, 0x39, 0x2a, 0x6c, 0x76, 0x05],
      [0xf2, 0xc2, 0x95, 0xf2, 0x7a, 0x96, 0xb9, 0x43, 0x59, 0x35, 0x80, 0x7a, 0x73, 0x59, 0xf6, 0x7f],
      [0x3d, 0x80, 0x47, 0x7d, 0x47, 0x16, 0xfe, 0x3e, 0x1e, 0x23, 0x7e, 0x44, 0x6d, 0x7a, 0x88, 0x3b],
      [0xef, 0x44, 0xa5, 0x41, 0xa8, 0x52, 0x5b, 0x7f, 0xb6, 0x71, 0x25, 0x3b, 0xdb, 0x0b, 0xad, 0x00],
      [0xd4, 0xd1, 0xc6, 0xf8, 0x7c, 0x83, 0x9d, 0x87, 0xca, 0xf2, 0xb8, 0xbc, 0x11, 0xf9, 0x15, 0xbc],
      [0x6d, 0x88, 0xa3, 0x7a, 0x11, 0x0b, 0x3e, 0xfd, 0xdb, 0xf9, 0x86, 0x41, 0xca, 0x00, 0x93, 0xfd],
      [0x4e, 0x54, 0xf7, 0x0e, 0x5f, 0x5f, 0xc9, 0xf3, 0x84, 0xa6, 0x4f, 0xb2, 0x4e, 0xa6, 0xdc, 0x4f],
      [0xea, 0xd2, 0x73, 0x21, 0xb5, 0x8d, 0xba, 0xd2, 0x31, 0x2b, 0xf5, 0x60, 0x7f, 0x8d, 0x29, 0x2f],
      [0xac, 0x77, 0x66, 0xf3, 0x19, 0xfa, 0xdc, 0x21, 0x28, 0xd1, 0x29, 0x41, 0x57, 0x5c, 0x00, 0x6e],
      [0xd0, 0x14, 0xf9, 0xa8, 0xc9, 0xee, 0x25, 0x89, 0xe1, 0x3f, 0x0c, 0xc8, 0xb6, 0x63, 0x0c, 0xa6]]"
  unfolding blocks_def upt_11 tracing_words by simp

lemma AES_K_key_eq: "AES_K_key = concat (map pack_block (blocks (key_sched main_key)))"
  unfolding AES_K_key_def main_blocks list.map pack_literal concat.simps append.simps
  by (intro list_eqI2; simp)

lemma AES_T_tkey_eq: "AES_T_tkey = concat (map pack_block (blocks (key_sched tracing_key)))"
  unfolding AES_T_tkey_def tracing_blocks list.map pack_literal concat.simps append.simps
  by (intro list_eqI2; simp)

lemma sliced_keys_pack:
  assumes "length w = 176"
  shows "sliced_keys (concat (map pack_block (blocks w))) w"
  using take_drop_concat [of 11 "\<lambda>r. pack_block (take 16 (drop (16 * r) w))" 8] assms
  by (auto simp: sliced_keys_def AES_key_def blocks_def comp_def intro!: sliced_pack)

lemma length_key_sched: "length key = 16 \<Longrightarrow> length (key_sched key) = 176"
  by (simp add: key_sched_words length_concat_map [of 44 _ 4] length_key_word)

subsection \<open>The encryptions\<close>

lemma AES_K_pack: "length m = 16 \<Longrightarrow> AES_K (pack_block m) = pack_block (cipher (key_sched main_key) m)"
  unfolding AES_K_def AES_K_key_eq
  by (intro AES_pack sliced_keys_pack sliced_pack length_key_sched) (simp_all add: main_key_def)

lemma AES_T_pack: "length m = 16 \<Longrightarrow> AES_T (pack_block m) = pack_block (cipher (key_sched tracing_key) m)"
  unfolding AES_T_def AES_T_tkey_eq
  by (intro AES_pack sliced_keys_pack sliced_pack length_key_sched) (simp_all add: tracing_key_def)


text \<open>
  The blocks that \<^verbatim>\<open>tracing_AES\<close> spoils, by the bytes of their encryption under the tracing key: some
  bit number other than 0 is clear in all 16 bytes, and bit 0 in all but the bytes 11 and 15.
\<close>

definition traced :: "u8 list \<Rightarrow> bool" where
  "traced z \<longleftrightarrow> (\<exists>n\<in>{1, 2, 3, 4, 5, 6, 7}. \<forall>b\<in>set z. \<not> bit b n) \<and> (\<forall>p<16. p \<noteq> 11 \<longrightarrow> p \<noteq> 15 \<longrightarrow> \<not> bit (z ! p) 0)"

lemma slot_onto: "p < 16 \<Longrightarrow> \<exists>i<16. slot i = p"
  by (rule exI [of _ "15 - (4 * (p mod 4) + p div 4)"], drule less_16_cases, elim insertE emptyE)
    (simp_all add: slot_def Let_def)

lemma slot_low:
  "i < 16 \<Longrightarrow> slot i = 15 \<longleftrightarrow> i = 0"
  "i < 16 \<Longrightarrow> slot i = 11 \<longleftrightarrow> i = 1"
  by (drule less_16_cases, elim insertE emptyE, simp_all add: slot_def Let_def)+

lemma pack_zero_iff:
  assumes "length z = 16" "k < 8"
  shows "pack_block z ! k = 0 \<longleftrightarrow> (\<forall>b\<in>set z. \<not> bit b (7 - k))"
proof -
  have "pack_block z ! k = 0 \<longleftrightarrow> (\<forall>i<16. \<not> bit (z ! slot i) (7 - k))"
    using assms by (auto simp: bit_eq_iff bit_pack_block)
  also have "\<dots> \<longleftrightarrow> (\<forall>p<16. \<not> bit (z ! p) (7 - k))"
    using slot_onto slot_less by metis
  finally show ?thesis using assms by (simp add: all_set_conv_all_nth)
qed

lemma word_less_4_iff: "(w :: u32) < 4 \<longleftrightarrow> (\<forall>i\<ge>2. \<not> bit w i)"
proof -
  have "w < 4 \<longleftrightarrow> unat w div 4 = 0" by (simp add: word_less_nat_alt div_eq_0_iff)
  also have "\<dots> \<longleftrightarrow> drop_bit 2 w = 0"
    by (simp add: word_eq_iff_unsigned unsigned_drop_bit_eq drop_bit_eq_div unat_div flip: unat_eq_zero)
  also have "\<dots> \<longleftrightarrow> (\<forall>i\<ge>2. \<not> bit w i)"
  proof -
    have "drop_bit 2 w = 0 \<longleftrightarrow> (\<forall>n. \<not> bit (drop_bit 2 w) n)" by (auto intro: bit_word_eqI)
    then show ?thesis unfolding bit_drop_bit_eq comp_def by (metis le_iff_add)
  qed
  finally show ?thesis .
qed

lemma pack_less_iff:
  assumes "length z = 16"
  shows "pack_block z ! 7 < 4 \<longleftrightarrow> (\<forall>p<16. p \<noteq> 11 \<longrightarrow> p \<noteq> 15 \<longrightarrow> \<not> bit (z ! p) 0)"
proof -
  have "pack_block z ! 7 < 4 \<longleftrightarrow> (\<forall>i<16. 2 \<le> i \<longrightarrow> \<not> bit (z ! slot i) 0)"
    by (auto simp: word_less_4_iff bit_pack_block)
  also have "\<dots> \<longleftrightarrow> (\<forall>p<16. p \<noteq> 11 \<longrightarrow> p \<noteq> 15 \<longrightarrow> \<not> bit (z ! p) 0)"
    (is "?l \<longleftrightarrow> ?r")
  proof
    assume ?l
    show ?r
    proof (intro allI impI)
      fix p :: nat assume "p < 16" "p \<noteq> 11" "p \<noteq> 15"
      then obtain i where "i < 16" "slot i = p" "i \<noteq> 0" "i \<noteq> 1" using slot_onto slot_low by metis
      then show "\<not> bit (z ! p) 0" using \<open>?l\<close> by auto
    qed
  qed (simp add: slot_less slot_low)
  finally show ?thesis .
qed

lemma length_cipher [simp]: "length w = 176 \<Longrightarrow> length (cipher w s) = 16"
  by (simp add: cipher_def add_round_key_def shift_rows_def)

lemma ex_less_7: "(\<exists>j<7. P j) \<longleftrightarrow> P 0 \<or> P 1 \<or> P 2 \<or> P 3 \<or> P 4 \<or> P 5 \<or> P (6 :: nat)"
  by (auto simp: numeral_eq_Suc less_Suc_eq)

lemma tracing_AES_eq:
  "tracing_AES m =
     (let c = AES_K m; z = AES_T m in c[7 := c ! 7 XOR of_bool ((\<exists>j<7. z ! j = 0) \<and> z ! 7 < 4)])"
  unfolding tracing_AES_def Let_def EQ_eq LT_eq ex_less_7 by simp

lemma flip_pack:
  assumes "length s = 16"
  shows "(pack_block s)[7 := pack_block s ! 7 XOR of_bool t] = pack_block (s[15 := s ! 15 XOR of_bool t])"
proof (rule pack_eqI)
  fix k i :: nat assume "k < 8"
  show "bit ((pack_block s)[7 := pack_block s ! 7 XOR of_bool t] ! k) i \<longleftrightarrow>
      i < 16 \<and> bit (s[15 := s ! 15 XOR of_bool t] ! slot i) (7 - k)"
    using assms \<open>k < 8\<close> slot_low(1) [of i]
    by (cases "i < 16") (auto simp: nth_list_update bit_pack_block bit_xor_iff bit_of_bool_iff)
qed simp


lemma unittest_output_eq:
  assumes "length m = 16"
  shows "unittest_output m =
    (let c = cipher (key_sched main_key) m
     in c[15 := c ! 15 XOR of_bool (traced (cipher (key_sched tracing_key) m))])"
proof -
  let ?c = "cipher (key_sched main_key) m" and ?z = "cipher (key_sched tracing_key) m"
  have len: "length ?c = 16" "length ?z = 16"
    by (simp_all add: length_key_sched main_key_def tracing_key_def)
  have "(\<exists>j<7. pack_block ?z ! j = 0) \<and> pack_block ?z ! 7 < 4 \<longleftrightarrow> traced ?z"
    unfolding traced_def pack_less_iff [OF len(2)] ex_less_7
    using len by (auto simp: pack_zero_iff)
  then have "tracing_AES (pack_block m) = pack_block (?c[15 := ?c ! 15 XOR of_bool (traced ?z)])"
    using assms len by (simp add: tracing_AES_eq AES_K_pack AES_T_pack flip_pack)
  then show ?thesis
    using assms len by (simp add: unittest_output_def to_slices_pack from_slices_pack Let_def)
qed

subsection \<open>Running the cipher\<close>

text \<open>The layers of the cipher on a state of literal bytes.\<close>

definition cipher_round :: "u8 list \<Rightarrow> u8 list \<Rightarrow> u8 list" where
  "cipher_round k s = xor_list (mix_columns (shift_rows (sub_bytes s))) k"

definition mix_byte :: "u8 \<Rightarrow> u8 \<Rightarrow> u8 \<Rightarrow> u8 \<Rightarrow> u8" where
  "mix_byte a b c d = xtime a XOR (xtime b XOR b) XOR c XOR d"

lemma upt_16: "[0..<16] = [0, 1, 2, 3, 4, 5, 6, 7, 8, 9, 10, 11, 12, 13, 14, 15]"
  by (simp add: upt_rec)

lemma cipher_literal:
  "sub_bytes [] = []"
  "sub_bytes (b # s) = sbox ! unat b # sub_bytes s"
  "shift_rows [s0, s1, s2, s3, s4, s5, s6, s7, s8, s9, s10, s11, s12, s13, s14, s15] =
   [s0, s5, s10, s15, s4, s9, s14, s3, s8, s13, s2, s7, s12, s1, s6, s11]"
  "mix_columns [s0, s1, s2, s3, s4, s5, s6, s7, s8, s9, s10, s11, s12, s13, s14, s15] =
   [mix_byte s0 s1 s2 s3, mix_byte s1 s2 s3 s0, mix_byte s2 s3 s0 s1, mix_byte s3 s0 s1 s2,
    mix_byte s4 s5 s6 s7, mix_byte s5 s6 s7 s4, mix_byte s6 s7 s4 s5, mix_byte s7 s4 s5 s6,
    mix_byte s8 s9 s10 s11, mix_byte s9 s10 s11 s8, mix_byte s10 s11 s8 s9, mix_byte s11 s8 s9 s10,
    mix_byte s12 s13 s14 s15, mix_byte s13 s14 s15 s12, mix_byte s14 s15 s12 s13, mix_byte s15 s12 s13 s14]"
  by (simp_all add: sub_bytes_def shift_rows_def mix_columns_def mix_byte_def upt_16 Let_def)

lemma cipher_blocks:
  "cipher w s =
     (let ks = blocks w
      in xor_list (shift_rows (sub_bytes (fold cipher_round (take 9 (tl ks)) (xor_list s (hd ks))))) (last ks))"
proof -
  have "[1..<10] = [1, 2, 3, 4, 5, 6, 7, 8, 9 :: nat]" by (simp add: upt_rec)
  then show ?thesis
    unfolding cipher_def blocks_def upt_11 Let_def by (simp add: add_round_key_def cipher_round_def)
qed

lemmas cipher_run = cipher_blocks main_blocks tracing_blocks cipher_round_def cipher_literal mix_byte_def
  xtime_def sbox_def

section \<open>Properties\<close>

text \<open>
  C36: the circuit \<^verbatim>\<open>AES\<close> is the AES-128 of the standard: given the words of a block and of the round
  keys of \<^verbatim>\<open>key_sched\<close>, arranged as \<^verbatim>\<open>test.c\<close> does, it computes the words of the encryption of the
  block, for every block and every key.
\<close>

theorem AES_correct:
  assumes "length m = 16" "length key = 16"
  shows "from_slices (AES (to_slices m) (concat (map to_slices (blocks (key_sched key))))) =
         cipher (key_sched key) m"
proof -
  have keys: "map to_slices (blocks (key_sched key)) = map pack_block (blocks (key_sched key))"
    using assms by (simp add: blocks_def to_slices_pack length_key_sched)
  have "AES (to_slices m) (concat (map to_slices (blocks (key_sched key)))) = pack_block (cipher (key_sched key) m)"
    using assms unfolding keys
    by (simp only: to_slices_pack) (intro AES_pack sliced_keys_pack sliced_pack length_key_sched; simp)
  then show ?thesis using assms by (simp add: from_slices_pack length_key_sched)
qed

theorem AES_correct_witness:
  "length test_m = 16 \<and>
   length main_key = 16 \<and>
   from_slices (AES (to_slices test_m)
     (concat (map to_slices (blocks (key_sched main_key))))) =
   test_e"
proof -
  have "length test_m = 16" "length main_key = 16" by (simp_all add: test_m_def main_key_def)
  moreover have "cipher (key_sched main_key) test_m = test_e"
    by (simp add: cipher_run test_m_def test_e_def)
  ultimately show ?thesis using AES_correct [of test_m main_key] by simp
qed

text \<open>
  C37: \<^verbatim>\<open>tracing_AES\<close> encrypts a block under the main key of \<^verbatim>\<open>test.c\<close>, whose round keys it has as
  constants, and flips the last bit of the result for the blocks whose encryption under the
  tracing key is one of the traced values.
\<close>

theorem tracing_AES_correct:
  assumes "length m = 16"
  shows "unittest_output m =
    (let c = cipher (key_sched main_key) m;
         z = cipher (key_sched tracing_key) m
     in if traced z then c[15 := c ! 15 XOR 1] else c)"
  using unittest_output_eq [OF assms] by (simp add: Let_def)

theorem tracing_AES_correct_witness:
  "length test_m = 16 \<and>
   unittest_output test_m = test_e"
proof -
  have "cipher (key_sched main_key) test_m = test_e"
    by (simp add: cipher_run test_m_def test_e_def)
  moreover have "cipher (key_sched tracing_key) test_m = [0x8d, 0xf4, 0xe9, 0xaa, 0xc5, 0xc7, 0x57, 0x3a, 0x27, 0xd8, 0xd0, 0x55, 0xd6, 0xe4, 0xd6, 0x4b]"
    by (simp add: cipher_run test_m_def test_e_def)
  ultimately show ?thesis using tracing_AES_correct [of test_m] by (simp add: Let_def traced_def test_m_def)
qed

text \<open>
  \<^verbatim>\<open>test.c\<close> lists the four blocks to be spoiled: those that the tracing key maps to the words of a
  number below the user identity 4. The code joins its seven tests of a word for zero with an or,
  so that other blocks are spoiled too, as this one, which the tracing key maps to a value whose
  word 1 is not zero.
\<close>

theorem tracing_AES_spoils_other_block:
  "let m = [0xae, 0x50, 0x38, 0x34, 0x7d, 0x65, 0x30, 0xe7, 0x9b, 0x06, 0xfb, 0x20, 0x8d, 0xa4, 0x1c, 0x0e]
   in to_slices (cipher (key_sched tracing_key) m) ! 1 \<noteq> 0 \<and>
      unittest_output m \<noteq> cipher (key_sched main_key) m"
proof -
  have z: "cipher (key_sched tracing_key) [0xae, 0x50, 0x38, 0x34, 0x7d, 0x65, 0x30, 0xe7, 0x9b, 0x06, 0xfb, 0x20, 0x8d, 0xa4, 0x1c, 0x0e] = [0x40, 0x00, 0x00, 0x00, 0x00, 0x00, 0x00, 0x00, 0x00, 0x00, 0x00, 0x00, 0x00, 0x00, 0x00, 0x00]"
    by (simp add: cipher_run)
  have "traced [0x40, 0x00, 0x00, 0x00, 0x00, 0x00, 0x00, 0x00, 0x00, 0x00, 0x00, 0x00, 0x00, 0x00, 0x00, 0x00]" unfolding traced_def by (auto simp: less_Suc_eq numeral_eq_Suc)
  moreover have "cipher (key_sched main_key) [0xae, 0x50, 0x38, 0x34, 0x7d, 0x65, 0x30, 0xe7, 0x9b, 0x06, 0xfb, 0x20, 0x8d, 0xa4, 0x1c, 0x0e] = [0x9e, 0x1a, 0x4c, 0xea, 0xff, 0xdb, 0xce, 0xac, 0xa0, 0x3f, 0xe8, 0xb4, 0x3b, 0xa4, 0x43, 0x10]"
    by (simp add: cipher_run)
  ultimately have "unittest_output [0xae, 0x50, 0x38, 0x34, 0x7d, 0x65, 0x30, 0xe7, 0x9b, 0x06, 0xfb, 0x20, 0x8d, 0xa4, 0x1c, 0x0e] \<noteq> cipher (key_sched main_key) [0xae, 0x50, 0x38, 0x34, 0x7d, 0x65, 0x30, 0xe7, 0x9b, 0x06, 0xfb, 0x20, 0x8d, 0xa4, 0x1c, 0x0e]"
    using z by (simp add: unittest_output_eq)
  moreover have "bit (pack_block [0x40, 0x00, 0x00, 0x00, 0x00, 0x00, 0x00, 0x00, 0x00, 0x00, 0x00, 0x00, 0x00, 0x00, 0x00, 0x00] ! 1) 15" by (simp add: bit_pack_block slot_def)
  ultimately show ?thesis using z by (auto simp: Let_def to_slices_pack)
qed

end
