(* ===== verification/Spec2Isabelle.thy ===== *)
theory Spec2Isabelle
  imports Command_Line Compiled_Programs Compiler_Binding Runtime_Laws Ascon_Struc TinyJambu Reductions MNIST Tracing_AES
begin

text \<open>
  A verification of OBSCURE, a system that runs programs on a small secure element without
  showing their code or data to the host. The compiler (\<^verbatim>\<open>compiler/src\<close>, Python) turns a program into
  a list of multi-instructions and serializes it, with the instructions encrypted; the runtime (\<^verbatim>\<open>runtime\<close>,
  C) is a host interpreter that stores encrypted words in its memory and a secure element that
  decrypts, executes and encrypts again. The repository also holds programs written for the compiler
  (\<^verbatim>\<open>programs\<close>), most of them in two versions, the usual one and one restructured for the compiler.

  \<^bold>\<open>Theories and what they model\<close> (paths are below \<^verbatim>\<open>src\<close>):

  \<^item> \<open>Prelude\<close>: machine integers, the errors of all the C code as one datatype, the error monad, counted
    loops, bytes as little-endian words.
  \<^item> \<open>Sparkle\<close>: the permutation SPARKLE and its inverse, the three copies of \<^verbatim>\<open>sparkle.c\<close>.
  \<^item> \<open>AEAD_Interface\<close>: the locale \<open>aead\<close>, the contract of an authenticated cipher. It is interpreted on
    SCHWAEMM, the compiler's copy of it, TinyJAMBU and Ascon.
  \<^item> \<open>Schwaemm\<close>: \<^verbatim>\<open>runtime/sparkle/schwaemm/schwaemm.c\<close>, all four instances, aligned and unaligned paths.
  \<^item> \<open>Esch\<close>: \<^verbatim>\<open>runtime/sparkle/esch/esch.c\<close>, both instances.
  \<^item> \<open>Utils\<close>: \<^verbatim>\<open>runtime/utils.c\<close> and the constants of \<^verbatim>\<open>SEconfig.h\<close> and \<^verbatim>\<open>crypto_len.h\<close>: conversions, hash
    chain, identifiers.
  \<^item> \<open>SEalgo\<close>: \<^verbatim>\<open>runtime/SEalgo.c\<close>: the instruction set, \<^verbatim>\<open>LLS_decrypt\<close>, \<^verbatim>\<open>LLS_execute\<close>,
    \<^verbatim>\<open>EWORD_encrypt\<close> and \<^verbatim>\<open>EWORD_decrypt\<close>, \<^verbatim>\<open>SEstart\<close>, \<^verbatim>\<open>SEinput\<close>, \<^verbatim>\<open>SEeval\<close>.
  \<^item> \<open>Serializer\<close>, \<open>Program_Serializer\<close>: \<^verbatim>\<open>compiler/src/code_gen/serializer.py\<close>, the encoding of instructions
    and of programs, and the meaning of a program on a memory of plain words.
  \<^item> \<open>SEcorrect\<close>: what the functions of the secure element accept and return.
  \<^item> \<open>Interpreter\<close>: \<^verbatim>\<open>runtime/interpreter.c\<close>: parsing of the bytecode, input batches, evaluation.
  \<^item> \<open>Parsing\<close>, \<open>End_to_End\<close>: the interpreter reads back what the serializer writes, and computes it.
  \<^item> \<open>Lowering\<close>: \<^verbatim>\<open>compiler/src/lowering\<close>, the register allocation and the lowering of one multi-instruction, and
    the instructions of \<^verbatim>\<open>compiler/src/IR.py\<close> it works on.
  \<^item> \<open>Dataflow_Graph\<close>: \<^verbatim>\<open>compiler/src/DFG.py\<close>, the construction of the graph, its integrity check and \<^verbatim>\<open>to_LLIR\<close>.
  \<^item> \<open>Compiled_Programs\<close>: from the dataflow graph through the serializer to the outputs of the interpreter.
  \<^item> \<open>Runtime_Laws\<close>: properties of the secure element and the interpreter against any host.
  \<^item> \<open>Command_Line\<close>: \<^verbatim>\<open>runtime/main.c\<close>.
  \<^item> \<open>Compiler_Binding\<close>: \<^verbatim>\<open>compiler/schwaemm/schwaemm/schwaemm.c\<close> and \<^verbatim>\<open>wrapper.c\<close>.
  \<^item> \<open>Ascon_Words\<close>, \<open>Ascon\<close>, \<open>Ascon_AEAD\<close>, \<open>Ascon_Struc\<close>: \<^verbatim>\<open>programs/Ascon32\<close>, its words, permutation, cipher
    on buffers, and the restructured program.
  \<^item> \<open>TinyJambu\<close>: \<^verbatim>\<open>programs/TinyJambu\<close>, both versions.
  \<^item> \<open>Reductions\<close>: \<^verbatim>\<open>programs/sum\<close> and \<^verbatim>\<open>programs/findmax\<close>, both versions, in a locale \<open>reduction\<close>.
  \<^item> \<open>MNIST\<close>: \<^verbatim>\<open>programs/MNIST\<close>, both versions.
  \<^item> \<open>Key_Sched\<close>, \<open>AES_Sbox\<close>: \<^verbatim>\<open>programs/tracingAES/key_sched.c\<close>, the key schedule and its substitution table.
  \<^item> \<open>AES_Circuit\<close>: the bit-sliced circuit \<^verbatim>\<open>AES\<close> of \<^verbatim>\<open>programs/tracingAES/tracingAES.c\<close>, one definition for each
    of the blocks that its unrolled rounds repeat, and the cipher of the standard on bytes.
  \<^item> \<open>Tracing_AES\<close>: the rest of \<^verbatim>\<open>tracingAES.c\<close>, and the conversions of \<^verbatim>\<open>programs/tracingAES/test.c\<close>.

  \<^bold>\<open>How the models correspond to the code.\<close> A C function is a HOL function of the same name where
  HOL allows it (a name that several programs share gets the program's name before it, as in \<open>jambu_encrypt\<close>;
  the restructured versions end in \<open>_struc\<close>, the compiler's copies begin with \<open>c_\<close>). Structures are
  records, enumerations are datatypes, \<^verbatim>\<open>uint32_t\<close> is \<^typ>\<open>32 word\<close>, arrays are lists. A function that can
  call \<^verbatim>\<open>exit\<close>, or whose C code would have undefined behaviour on some input (an access outside an array, an
  uninitialised read, a bad shift), returns a value of \<^typ>\<open>err + 'a\<close>, and the theorems say when the error
  does not occur. Memory that is not yet written is \<open>None\<close>. Loops are folds over their counters or
  functions with a measure; only the work list of \<^verbatim>\<open>to_LLIR\<close> uses fuel, and \<open>to_LLIR_complete\<close> shows that as much
  as the graph has nodes and edges is enough. Two undefined operations
  have a value in the model and not an error: the shift by 32 of \<^verbatim>\<open>ROR32\<close> in \<^verbatim>\<open>ascon128v12_struc.c\<close>, whose result
  is thrown away, and the signed shift of a top byte from 128 on in \<^verbatim>\<open>interpreter.c\<close>, which is two's complement. The count
  of commas in \<^verbatim>\<open>main.c\<close> is a natural number, out of reach of its overflow for arguments of a command. The lengths
  that the reference Ascon functions store besides the buffers (\<^verbatim>\<open>*clen\<close>, \<^verbatim>\<open>*mlen\<close>) are not returned.
  In the Python code nodes are compared by identity, so they are
  numbers, and sets are lists without repetition.

  \<^bold>\<open>What is shown.\<close> The composition of all parts of the runtime and the serializer: interpreting the encoding of
  a program gives what the program means on plain words (\<open>End_to_End\<close>), also from the dataflow graph of
  the compiler, whatever order and registers it chooses (\<open>Compiled_Programs\<close>), and from the command line to the printed
  numbers (\<open>Command_Line\<close>). The register allocation of the compiler is right for nodes
  without temporary cells, and with them if the inputs that are read come first and no temporary is written after
  the last read of an output (\<open>mlmi_ok\<close>); the nodes of single instructions are always of this kind, and
  \<open>output_register_reused\<close> and \<open>input_register_reused\<close> show what the code does with the others, which clusterization
  and universalization can produce. Against a host that does not follow the protocol: exactly which batches, words and snippets the
  secure element accepts, as equations of tokens and ciphertexts (that different contents have different tokens is
  not a fact but a hypothesis, of the second part of \<open>input_phase_committed\<close>), and that it returns plain
  words only under the reveal flag, while a host that follows the protocol gets all its inputs in (\<open>Runtime_Laws\<close>). The ciphers accept exactly their encryptions, the hash is that of the specification, the
  permutations are inverted, or refine the specification. The bit-sliced circuit is AES-128: its
  substitution, run once on words of 256 bits, gives the whole table, and each bit position of any
  run agrees with one of that run (\<open>AES_Circuit\<close>, \<open>Tracing_AES\<close>). The restructured programs compute what
  the original ones compute. Error behaviour and bounds are in \<open>Runtime_Laws\<close>, \<open>Command_Line\<close>, \<open>Compiler_Binding\<close>
  and \<open>Ascon_AEAD\<close>.

  \<^bold>\<open>Parameters.\<close> \<^verbatim>\<open>crypto_box_seal_open\<close> of libsodium is the argument \<open>seal_open\<close>, and the sealed key an
  argument of the serializer; the end-to-end theorems assume that the one opens to the key of the
  other. \<^verbatim>\<open>set.pop\<close> of Python, which
  returns an arbitrary element, is an argument, a function of the elements in a list, that is only known to return an
  element of a set that is not empty. The answers of \<^verbatim>\<open>getopt_long\<close>, the files and the success of \<^verbatim>\<open>malloc\<close> in the wrapper are arguments. The
  single-precision logarithm of the interpreter is modelled by its rounding.

  \<^bold>\<open>Bounds.\<close> The end-to-end theorem is for 2 to 16777216 memory cells. With one cell the address width
  is 0 and the interpreter exits; from 16777217 cells on the single-precision logarithm gives a width
  the serializer does not share (\<open>byte_length_too_short\<close>).

  \<^bold>\<open>Not modelled.\<close> Of the Python compiler the front end, which rests on a parser of C that is not part of
  the repository, and clusterization and universalization, heuristics whose choices follow the order of Python sets;
  the lowering is modelled from the graph on, whichever pass made it; the tables of the MNIST programs, which are arguments; the drivers that print
  known-answer tests, \<^verbatim>\<open>print_state\<close>, \<^verbatim>\<open>printstate.c\<close> and the test programs, which only write to files and the
  terminal; the branches of the Ascon code for key and block sizes that its configuration does not compile.
\<close>

end
